(* ===== verification/Prelude.thy ===== *)
theory Prelude
  imports Main "HOL-Library.Word" "HOL-Library.AList" "HOL-Library.Monad_Syntax"
begin

text \<open>
  Shared vocabulary of the development: the machine integers of the C++ sources, the
  little-endian byte encodings that every wire and disk format of the repository uses,
  ordered association lists as the model of \<^verbatim>\<open>std::map\<close>, and the generic list lemmas that
  the component theories rely on.

  Conventions. Opaque 64-bit identifiers that are only compared and serialized (order ids,
  order sequence numbers) are \<open>64 word\<close>. Terms and log indices, on which the code does
  arithmetic, are \<open>nat\<close> with the wrap-around of \<open>uint64_t\<close> written out by \<open>u64_add\<close> and
  \<open>u64_sub\<close>. Signed 64-bit prices and quantities are \<open>int\<close>; they meet the wire through
  \<open>word_of_int\<close> and \<open>sint\<close>, and \<open>i64_ok\<close> says that a value is representable.
  A \<open>std::string\<close> is the byte list it holds.
\<close>

section \<open>Collections of rewrite rules\<close>

named_theorems u64_simps \<open>wrap-around arithmetic under a no-overflow side condition\<close>
named_theorems codec_simps \<open>decoders applied to encoder output\<close>
named_theorems wf_simps \<open>unfolding of well-formedness predicates\<close>

section \<open>Machine integers\<close>

type_synonym byte = "8 word"
type_synonym u32 = "32 word"
type_synonym u64 = "64 word"

definition u64_max :: nat where
  "u64_max = 2 ^ 64 - 1"

definition u64_add :: "nat \<Rightarrow> nat \<Rightarrow> nat" where
  "u64_add a b = (a + b) mod 2 ^ 64"

definition u64_sub :: "nat \<Rightarrow> nat \<Rightarrow> nat" where
  "u64_sub a b = (if b \<le> a then a - b else a + 2 ^ 64 - b)"

definition i64_ok :: "int \<Rightarrow> bool" where
  "i64_ok x \<longleftrightarrow> - (2 ^ 63) \<le> x \<and> x < 2 ^ 63"

lemma u64_add_small [u64_simps]: "a + b < 2 ^ 64 \<Longrightarrow> u64_add a b = a + b"
  by (simp add: u64_add_def)

lemma u64_sub_small [u64_simps]: "b \<le> a \<Longrightarrow> u64_sub a b = a - b"
  by (simp add: u64_sub_def)

lemma u64_add_bound: "u64_add a b < 2 ^ 64"
  by (simp add: u64_add_def)

lemma u64_sub_bound: "a < 2 ^ 64 \<Longrightarrow> b < 2 ^ 64 \<Longrightarrow> u64_sub a b < 2 ^ 64"
  by (simp add: u64_sub_def) linarith

lemma sint_word_of_int_i64 [codec_simps]:
  "i64_ok x \<Longrightarrow> sint (word_of_int x :: u64) = x"
  by (simp add: i64_ok_def signed_of_int signed_take_bit_int_eq_self)

lemma i64_ok_sint [simp]: "i64_ok (sint (w :: u64))"
  using sint_lt [of w] sint_ge [of w] by (simp add: i64_ok_def)

section \<open>Little-endian byte strings\<close>

unbundle bit_operations_syntax

definition le_bytes :: "nat \<Rightarrow> 'a::len word \<Rightarrow> byte list" where
  "le_bytes n v = map (\<lambda>i. ucast (drop_bit (i * 8) v AND 0xFF)) [0..<n]"

definition le_word :: "byte list \<Rightarrow> 'a::len word" where
  "le_word bs = fold (\<lambda>i acc. acc OR push_bit (i * 8) (ucast (bs ! i))) [0..<length bs] 0"

definition get_le :: "nat \<Rightarrow> byte list \<Rightarrow> nat \<Rightarrow> ('a::len word \<times> nat) option" where
  "get_le n buf off =
     (if off + n > length buf then None
      else Some (le_word (take n (drop off buf)), off + n))"

lemma length_le_bytes [simp]: "length (le_bytes n v) = n"
  by (simp add: le_bytes_def)

lemma bit_fold_or:
  "bit (fold (\<lambda>i acc. acc OR f i) xs (a :: 'a::len word)) k \<longleftrightarrow>
     bit a k \<or> (\<exists>i\<in>set xs. bit (f i) k)"
  by (induction xs arbitrary: a) (auto simp: bit_or_iff)

lemma bit_byteD: "bit (b :: byte) k \<Longrightarrow> k < 8"
  using bit_imp_le_length [of b k] by simp

lemma bit_le_word:
  "bit (le_word bs :: 'a::len word) k \<longleftrightarrow>
     k < LENGTH('a) \<and> k div 8 < length bs \<and> bit (bs ! (k div 8)) (k mod 8)"
proof -
  have "bit (le_word bs :: 'a word) k \<longleftrightarrow>
    (\<exists>i<length bs. bit (push_bit (i * 8) (ucast (bs ! i)) :: 'a word) k)"
    by (auto simp: le_word_def bit_fold_or)
  also have "\<dots> \<longleftrightarrow> (\<exists>i<length bs. k < LENGTH('a) \<and> i * 8 \<le> k \<and> k - i * 8 < 8 \<and> bit (bs ! i) (k - i * 8))"
    by (auto simp: bit_push_bit_iff bit_ucast_iff dest: bit_byteD)
  also have "\<dots> \<longleftrightarrow> k < LENGTH('a) \<and> k div 8 < length bs \<and> bit (bs ! (k div 8)) (k mod 8)"
  proof (intro iffI; elim exE conjE)
    fix i assume i: "i < length bs" "k < LENGTH('a)" "i * 8 \<le> k" "k - i * 8 < 8"
      "bit (bs ! i) (k - i * 8)"
    then have "k div 8 = i" by (intro div_nat_eqI) auto
    moreover from this have "k mod 8 = k - i * 8" by (simp add: minus_div_mult_eq_mod [symmetric])
    ultimately show "k < LENGTH('a) \<and> k div 8 < length bs \<and> bit (bs ! (k div 8)) (k mod 8)"
      using i by simp
  next
    assume "k < LENGTH('a)" "k div 8 < length bs" "bit (bs ! (k div 8)) (k mod 8)"
    then show "\<exists>i<length bs. k < LENGTH('a) \<and> i * 8 \<le> k \<and> k - i * 8 < 8 \<and> bit (bs ! i) (k - i * 8)"
      by (intro exI [of _ "k div 8"]) (auto simp: minus_div_mult_eq_mod)
  qed
  finally show ?thesis .
qed

lemma bit_le_bytes_nth:
  "i < n \<Longrightarrow> bit (le_bytes n v ! i) k \<longleftrightarrow> k < 8 \<and> bit v (i * 8 + k)"
  by (auto simp: le_bytes_def bit_ucast_iff bit_and_iff bit_drop_bit_eq
      bit_numeral_rec numeral_eq_Suc less_Suc_eq ac_simps dest: bit_imp_le_length)

lemma le_word_le_bytes [codec_simps]:
  fixes v :: "'a::len word"
  assumes "LENGTH('a) \<le> n * 8"
  shows "le_word (le_bytes n v) = v"
proof (rule bit_word_eqI)
  fix k assume k: "k < LENGTH('a)"
  with assms have "k div 8 < n" by (simp add: div_less_iff_less_mult)
  then show "bit (le_word (le_bytes n v) :: 'a word) k = bit v k"
    using k by (simp add: bit_le_word bit_le_bytes_nth)
qed

lemma get_le_append [codec_simps]:
  fixes v :: "'a::len word"
  assumes "LENGTH('a) \<le> n * 8" and "off = length pre"
  shows "get_le n (pre @ le_bytes n v @ post) off = Some (v, off + n)"
  using assms by (simp add: get_le_def le_word_le_bytes)

lemma get_le_None_iff: "get_le n buf off = None \<longleftrightarrow> length buf < off + n"
  by (auto simp: get_le_def)

end
