(* ===== verification/Wire.thy ===== *)
theory Wire
  imports Prelude
begin

text \<open>
  Byte buffers with a cursor, as the encoders and decoders of the repository use them:
  \<^verbatim>\<open>putU8/putU32/putU64/putI64/putStr\<close> and \<^verbatim>\<open>getU8/getU32/getU64/getI64/getStr\<close> of
  \<^verbatim>\<open>app/protocol/OrderProtocol.cpp\<close>, which recur in the other wire and disk formats.

  A writer overwrites the buffer at the cursor and grows it when needed; a reader fails
  (\<open>None\<close>) when the buffer is too short. The laws are stated as equivalences: a reader returns
  \<open>v\<close> exactly when the bytes at the cursor are the encoding of \<open>v\<close>, so that they compose to
  complete characterisations of the decoders.
\<close>

section \<open>Writers\<close>

type_synonym cursor = "byte list \<times> nat"

definition write_at :: "byte list \<Rightarrow> cursor \<Rightarrow> cursor" where
  "write_at bs c =
     (let (buf, off) = c;
          buf' = (if off + length bs > length buf
                  then buf @ replicate (off + length bs - length buf) 0 else buf)
      in (take off buf' @ bs @ drop (off + length bs) buf', off + length bs))"

definition putU8 :: "byte \<Rightarrow> cursor \<Rightarrow> cursor" where
  "putU8 v = write_at [v]"

definition putU32 :: "u32 \<Rightarrow> cursor \<Rightarrow> cursor" where
  "putU32 v = write_at (le_bytes 4 v)"

definition putU64 :: "u64 \<Rightarrow> cursor \<Rightarrow> cursor" where
  "putU64 v = write_at (le_bytes 8 v)"

definition putI64 :: "int \<Rightarrow> cursor \<Rightarrow> cursor" where
  "putI64 v = putU64 (word_of_int v)"

definition putStr :: "byte list \<Rightarrow> cursor \<Rightarrow> cursor" where
  "putStr s c = write_at s (putU32 (word_of_nat (length s)) c)"

section \<open>Readers\<close>

definition getU8 :: "byte list \<Rightarrow> nat \<Rightarrow> (byte \<times> nat) option" where
  "getU8 buf off = (if off + 1 > length buf then None else Some (buf ! off, off + 1))"

definition getU32 :: "byte list \<Rightarrow> nat \<Rightarrow> (u32 \<times> nat) option" where
  "getU32 buf off = get_le 4 buf off"

definition getU64 :: "byte list \<Rightarrow> nat \<Rightarrow> (u64 \<times> nat) option" where
  "getU64 buf off = get_le 8 buf off"

definition getI64 :: "byte list \<Rightarrow> nat \<Rightarrow> (int \<times> nat) option" where
  "getI64 buf off = do { (u, off) \<leftarrow> getU64 buf off; Some (sint u, off) }"

definition getStr :: "byte list \<Rightarrow> nat \<Rightarrow> (byte list \<times> nat) option" where
  "getStr buf off =
     do {
       (len, off) \<leftarrow> getU32 buf off;
       if off + unat len > length buf then None
       else Some (take (unat len) (drop off buf), off + unat len)
     }"

section \<open>Writing a fresh buffer\<close>

text \<open>The state of a buffer that was allocated with the final size and is filled in order.\<close>

definition filling :: "byte list \<Rightarrow> nat \<Rightarrow> cursor" where
  "filling pre k = (pre @ replicate k 0, length pre)"

lemma filling_start: "(replicate n 0, 0) = filling [] n"
  by (simp add: filling_def)

lemma filling_end: "fst (filling pre 0) = pre"
  by (simp add: filling_def)

lemma write_at_filling:
  "length bs \<le> k \<Longrightarrow> write_at bs (filling pre k) = filling (pre @ bs) (k - length bs)"
  by (simp add: write_at_def filling_def)

lemma put_filling [codec_simps]:
  "1 \<le> k \<Longrightarrow> putU8 a (filling pre k) = filling (pre @ [a]) (k - 1)"
  "4 \<le> k \<Longrightarrow> putU32 b (filling pre k) = filling (pre @ le_bytes 4 b) (k - 4)"
  "8 \<le> k \<Longrightarrow> putU64 c (filling pre k) = filling (pre @ le_bytes 8 c) (k - 8)"
  "8 \<le> k \<Longrightarrow> putI64 x (filling pre k) = filling (pre @ le_bytes 8 (word_of_int x :: u64)) (k - 8)"
  "4 + length s \<le> k \<Longrightarrow>
     putStr s (filling pre k) =
       filling (pre @ le_bytes 4 (word_of_nat (length s) :: u32) @ s) (k - (4 + length s))"
  by (simp_all add: putU8_def putU32_def putU64_def putI64_def putStr_def write_at_filling)

section \<open>The bytes at a cursor\<close>

definition bytes_at :: "byte list \<Rightarrow> nat \<Rightarrow> byte list \<Rightarrow> bool" where
  "bytes_at buf off bs \<longleftrightarrow> (\<exists>rest. drop off buf = bs @ rest)"

lemma bytes_at_Nil [simp]: "bytes_at buf off []"
  by (simp add: bytes_at_def)

lemma bytes_at_append:
  "bytes_at buf off (as @ bs) \<longleftrightarrow> bytes_at buf off as \<and> bytes_at buf (off + length as) bs"
proof -
  have "drop off buf = as @ r \<Longrightarrow> drop (off + length as) buf = r" for r
    by (metis add.commute append_eq_conv_conj drop_drop)
  then show ?thesis unfolding bytes_at_def by (metis append.assoc)
qed

lemma bytes_at_Cons:
  "NO_MATCH [] bs \<Longrightarrow> bytes_at buf off (a # bs) \<longleftrightarrow> bytes_at buf off [a] \<and> bytes_at buf (off + 1) bs"
  using bytes_at_append [of buf off "[a]" bs] by simp

lemma bytes_at_0: "bytes_at buf 0 bs \<longleftrightarrow> (\<exists>rest. buf = bs @ rest)"
  by (simp add: bytes_at_def)

lemma bytes_at_take:
  "bytes_at buf off bs \<longleftrightarrow> take (length bs) (drop off buf) = bs"
  by (metis append_eq_conv_conj append_take_drop_id bytes_at_def)

lemma le_bytes_le_word:
  fixes bs :: "byte list"
  assumes "length bs = n" "LENGTH('a::len) = n * 8"
  shows "le_bytes n (le_word bs :: 'a word) = bs"
proof (rule nth_equalityI)
  fix i assume "i < length (le_bytes n (le_word bs :: 'a word))"
  then have i: "i < n" by simp
  show "le_bytes n (le_word bs :: 'a word) ! i = bs ! i"
  proof (rule bit_word_eqI)
    fix k assume k: "k < LENGTH(8)"
    then have "(i * 8 + k) div 8 = i" "(i * 8 + k) mod 8 = k" by simp_all
    moreover have "i * 8 + k < n * 8" using i k by simp
    ultimately show "bit (le_bytes n (le_word bs :: 'a word) ! i) k = bit (bs ! i) k"
      using i k assms by (simp add: bit_le_bytes_nth bit_le_word)
  qed
qed (simp add: assms)

lemma get_le_iff:
  assumes "LENGTH('a::len) = n * 8"
  shows "get_le n buf off = Some (v :: 'a word, off') \<longleftrightarrow> bytes_at buf off (le_bytes n v) \<and> off' = off + n"
proof -
  have "0 < n" using assms by (metis len_gt_0 mult_0 not_gr_zero)
  have short: "take n (drop off buf) \<noteq> le_bytes n v" if "length buf < off + n"
  proof -
    have "length (take n (drop off buf)) < n" using that \<open>0 < n\<close> by simp
    then show ?thesis by (metis length_le_bytes less_irrefl)
  qed
  show ?thesis
  proof (cases "off + n > length buf")
    case True
    with short show ?thesis by (auto simp: get_le_def bytes_at_take)
  next
    case False
    then have "length (take n (drop off buf)) = n" by simp
    from le_bytes_le_word [OF this assms] show ?thesis
      using False le_word_le_bytes [of n v] assms by (auto simp: get_le_def bytes_at_take)
  qed
qed

lemma get_iffs [codec_simps]:
  "getU8 buf off = Some (a, off') \<longleftrightarrow> bytes_at buf off [a] \<and> off' = off + 1"
  "getU32 buf off = Some (b, off') \<longleftrightarrow> bytes_at buf off (le_bytes 4 b) \<and> off' = off + 4"
  "getU64 buf off = Some (c, off') \<longleftrightarrow> bytes_at buf off (le_bytes 8 c) \<and> off' = off + 8"
proof -
  show "getU8 buf off = Some (a, off') \<longleftrightarrow> bytes_at buf off [a] \<and> off' = off + 1"
    by (auto simp: getU8_def bytes_at_take take_Suc hd_drop_conv_nth)
qed (simp_all add: getU32_def getU64_def get_le_iff)

lemma getI64_iff [codec_simps]:
  "getI64 buf off = Some (x, off') \<longleftrightarrow>
     i64_ok x \<and> bytes_at buf off (le_bytes 8 (word_of_int x :: u64)) \<and> off' = off + 8"
  by (auto simp: getI64_def bind_eq_Some_conv get_iffs sint_word_of_int_i64)

lemma getStr_iff [codec_simps]:
  "getStr buf off = Some (s, off') \<longleftrightarrow>
     length s < 2 ^ 32 \<and> bytes_at buf off (le_bytes 4 (word_of_nat (length s) :: u32) @ s) \<and>
     off' = off + 4 + length s"
proof
  assume "getStr buf off = Some (s, off')"
  then obtain len off1 where "getU32 buf off = Some (len, off1)" "off1 + unat len \<le> length buf"
    "s = take (unat len) (drop off1 buf)" "off' = off1 + unat len"
    by (auto simp: getStr_def bind_eq_Some_conv split: if_splits)
  then have len: "bytes_at buf off (le_bytes 4 len)" "off + 4 + unat len \<le> length buf"
    "s = take (unat len) (drop (off + 4) buf)" "off' = off + 4 + unat len"
    by (simp_all add: get_iffs)
  then have "length s = unat len" by simp
  moreover have "unat len < 2 ^ LENGTH(32)" by (rule unsigned_less)
  ultimately have "word_of_nat (length s) = len" "length s = unat len" "length s < 2 ^ 32" by simp_all
  then show "length s < 2 ^ 32 \<and> bytes_at buf off (le_bytes 4 (word_of_nat (length s) :: u32) @ s) \<and>
     off' = off + 4 + length s"
  proof -
    have "bytes_at buf (off + 4) s" using len by (simp add: bytes_at_take)
    then show ?thesis using \<open>length s < 2 ^ 32\<close> \<open>word_of_nat (length s) = len\<close> \<open>length s = unat len\<close> len
      unfolding bytes_at_append by simp
  qed
next
  assume a: "length s < 2 ^ 32 \<and> bytes_at buf off (le_bytes 4 (word_of_nat (length s) :: u32) @ s) \<and>
     off' = off + 4 + length s"
  then have "unat (word_of_nat (length s) :: u32) = length s" by (simp add: unat_of_nat)
  moreover from a have "getU32 buf off = Some (word_of_nat (length s), off + 4)"
    by (simp add: get_iffs bytes_at_append)
  moreover from this have "off + 4 \<le> length buf" by (auto simp: getU32_def get_le_def split: if_splits)
  moreover from a have s: "take (length s) (drop (off + 4) buf) = s"
    unfolding bytes_at_append by (simp add: bytes_at_take)
  moreover from arg_cong [OF this, of length] calculation(3) have "off + 4 + length s \<le> length buf" by simp
  ultimately show "getStr buf off = Some (s, off')"
    using a by (simp add: getStr_def)
qed

end
