(* ===== verification/Std_Map.thy ===== *)
theory Std_Map
  imports Prelude
begin

text \<open>
  The ordered map of the C++ standard library, \<^verbatim>\<open>std::map<K, V, Compare>\<close>, as the list of its
  pairs in iteration order. The comparator is a parameter, as it is in C++: the order book
  uses \<open>std::greater\<close> for bids and \<open>std::less\<close> for asks. The contract a comparator has to meet
  (a strict total order) is the locale \<open>compare\<close>; it is interpreted for the two comparators
  the code passes.
\<close>

type_synonym ('k, 'v) std_map = "('k \<times> 'v) list"

text \<open>\<open>m[k] = v\<close>: replaces the value of an equivalent key or inserts at the ordered position.\<close>

fun std_put :: "('k \<Rightarrow> 'k \<Rightarrow> bool) \<Rightarrow> 'k \<Rightarrow> 'v \<Rightarrow> ('k, 'v) std_map \<Rightarrow> ('k, 'v) std_map" where
  "std_put lt k v [] = [(k, v)]"
| "std_put lt k v ((a, b) # m) =
     (if lt k a then (k, v) # (a, b) # m
      else if lt a k then (a, b) # std_put lt k v m
      else (k, v) # m)"

text \<open>\<open>m.erase(k)\<close>.\<close>

definition std_erase :: "'k \<Rightarrow> ('k, 'v) std_map \<Rightarrow> ('k, 'v) std_map" where
  "std_erase k m = filter (\<lambda>(a, _). a \<noteq> k) m"

definition std_sorted :: "('k \<Rightarrow> 'k \<Rightarrow> bool) \<Rightarrow> ('k, 'v) std_map \<Rightarrow> bool" where
  "std_sorted lt m \<longleftrightarrow> sorted_wrt lt (map fst m)"

lemma std_sorted_Nil [simp]: "std_sorted lt []"
  by (simp add: std_sorted_def)

lemma std_sorted_Cons [simp]:
  "std_sorted lt ((a, b) # m) \<longleftrightarrow> (\<forall>k\<in>fst ` set m. lt a k) \<and> std_sorted lt m"
  by (simp add: std_sorted_def)

lemma std_erase_Nil [simp]: "std_erase k [] = []"
  by (simp add: std_erase_def)

lemma std_erase_Cons [simp]:
  "std_erase k ((a, b) # m) = (if a = k then std_erase k m else (a, b) # std_erase k m)"
  by (simp add: std_erase_def)

lemma std_erase_id: "k \<notin> fst ` set m \<Longrightarrow> std_erase k m = m"
  by (induction m) (auto simp: std_erase_def)

lemma set_std_erase: "set (std_erase k m) = {p \<in> set m. fst p \<noteq> k}"
  by (auto simp: std_erase_def)

lemma length_std_erase: "length (std_erase k m) \<le> length m"
  by (simp add: std_erase_def)

lemma std_sorted_std_erase: "std_sorted lt m \<Longrightarrow> std_sorted lt (std_erase k m)"
  by (induction m) (auto simp: std_erase_def)

lemma std_map_of_erase: "map_of (std_erase k m) = (map_of m)(k := None)"
  by (induction m) (auto simp: fun_eq_iff)

locale compare =
  fixes lt :: "'k \<Rightarrow> 'k \<Rightarrow> bool"
  assumes lt_irrefl: "\<not> lt x x"
    and lt_trans: "lt x y \<Longrightarrow> lt y z \<Longrightarrow> lt x z"
    and lt_total: "lt x y \<or> x = y \<or> lt y x"
begin

lemma lt_asym: "lt x y \<Longrightarrow> \<not> lt y x"
  using lt_trans lt_irrefl by blast

lemma put_keys: "fst ` set (std_put lt k v m) = insert k (fst ` set m)"
proof (induction m)
  case (Cons p m)
  then show ?case using lt_total by (cases p) auto
qed simp

lemma put_sorted: "std_sorted lt m \<Longrightarrow> std_sorted lt (std_put lt k v m)"
proof (induction m)
  case (Cons p m)
  obtain a b where p: "p = (a, b)" by (cases p)
  have "k = a" if "\<not> lt k a" "\<not> lt a k" using that lt_total by blast
  with Cons p show ?case by (auto simp: put_keys intro: lt_trans)
qed simp

lemma put_map_of: "std_sorted lt m \<Longrightarrow> map_of (std_put lt k v m) = (map_of m)(k \<mapsto> v)"
proof (induction m)
  case (Cons p m)
  obtain a b where p: "p = (a, b)" by (cases p)
  have "k = a" if "\<not> lt k a" "\<not> lt a k" using that lt_total by blast
  with Cons p show ?case using lt_irrefl by (auto simp: fun_eq_iff)
qed simp

lemma sorted_distinct: "std_sorted lt m \<Longrightarrow> distinct (map fst m)"
proof (induction m)
  case (Cons p m)
  then have "fst p \<notin> fst ` set m" using lt_irrefl by (cases p) force
  with Cons show ?case by (cases p) simp
qed simp

text \<open>The position of a key splits the map; both operations act at that position.\<close>

lemma sorted_append_lt:
  "std_sorted lt (xs @ (k, v) # ys) \<Longrightarrow> (\<forall>a\<in>fst ` set xs. lt a k) \<and> (\<forall>a\<in>fst ` set ys. lt k a)"
  by (auto simp: std_sorted_def sorted_wrt_append)

lemma put_split:
  "\<forall>a\<in>fst ` set xs. lt a k \<Longrightarrow> \<forall>a\<in>fst ` set ys. lt k a \<Longrightarrow>
     std_put lt k v (xs @ ys) = xs @ (k, v) # ys"
proof (induction xs)
  case Nil
  then show ?case by (cases ys) auto
next
  case (Cons p xs)
  then show ?case using lt_asym by (cases p) auto
qed

lemma put_replace:
  "\<forall>a\<in>fst ` set xs. lt a k \<Longrightarrow> std_put lt k v (xs @ (k, w) # ys) = xs @ (k, v) # ys"
proof (induction xs)
  case Nil
  then show ?case by (simp add: lt_irrefl)
next
  case (Cons p xs)
  then show ?case using lt_asym by (cases p) auto
qed

lemma erase_split:
  assumes "std_sorted lt (xs @ (k, w) # ys)"
  shows "std_erase k (xs @ (k, w) # ys) = xs @ ys"
proof -
  have "k \<notin> fst ` set xs" "k \<notin> fst ` set ys"
    using sorted_append_lt [OF assms] lt_irrefl by auto
  then show ?thesis
    using std_erase_id [of k xs] std_erase_id [of k ys] by (simp add: std_erase_def)
qed

lemma erase_put: "std_erase k (std_put lt k v m) = std_erase k m"
proof (induction m)
  case (Cons p m)
  obtain a b where p: "p = (a, b)" by (cases p)
  have "k = a" if "\<not> lt k a" "\<not> lt a k" using that lt_total by blast
  with Cons p show ?case by auto
qed simp

lemma put_put: "std_put lt k v (std_put lt k w m) = std_put lt k v m"
proof (induction m)
  case (Cons p m)
  obtain a b where p: "p = (a, b)" by (cases p)
  have "k = a" if "\<not> lt k a" "\<not> lt a k" using that lt_total by blast
  with Cons p show ?case using lt_irrefl by auto
qed (simp add: lt_irrefl)

text \<open>Where a key would go: everything before it is smaller, everything after it is not.\<close>

lemma position_exists:
  assumes "std_sorted lt m"
  obtains xs ys where "m = xs @ ys" "\<forall>a\<in>fst ` set xs. lt a k"
    "\<forall>a\<in>fst ` set ys. \<not> lt a k"
proof -
  let ?P = "\<lambda>(a, _). lt a k"
  have d: "\<forall>a\<in>fst ` set (dropWhile ?P m). \<not> lt a k"
    using assms
  proof (induction m)
    case (Cons p m)
    then show ?case using lt_trans by (cases p) auto
  qed simp
  have t: "\<forall>a\<in>fst ` set (takeWhile ?P m). lt a k"
    by (auto dest: set_takeWhileD)
  have "m = takeWhile ?P m @ dropWhile ?P m" by simp
  from this t d show thesis by (rule that)
qed

end

interpretation less_int: compare "(<) :: int \<Rightarrow> int \<Rightarrow> bool"
  by unfold_locales auto

interpretation greater_int: compare "(>) :: int \<Rightarrow> int \<Rightarrow> bool"
  by unfold_locales auto

interpretation less_nat: compare "(<) :: nat \<Rightarrow> nat \<Rightarrow> bool"
  by unfold_locales auto

end
