(* ===== verification/Order_Book_Types.thy ===== *)
theory Order_Book_Types
  imports Std_Map
begin

text \<open>
  The data of \<^verbatim>\<open>app/statemachine/IOrderBook.h\<close> and the abstract order book that the two
  matching engines implement.

  An abstract book keeps, for each side, one list of resting orders in priority order:
  best price first and, at equal prices, earliest arrival first. Matching consumes a prefix
  of that list; a resting order enters behind every order that is at least as good.
\<close>

section \<open>Data\<close>

datatype Side = Buy | Sell

record Order =
  ord_id :: u64
  ord_side :: Side
  ord_price :: int
  ord_quantity :: int
  ord_sequence :: u64

record Fill =
  makerOrderId :: u64
  takerOrderId :: u64
  fill_price :: int
  fill_quantity :: int
  takerSide :: Side

record PriceLevel =
  pl_price :: int
  totalQuantity :: int
  pl_orderCount :: u32

fun side_byte :: "Side \<Rightarrow> byte" where
  "side_byte Buy = 0"
| "side_byte Sell = 1"

text \<open>\<open>crosses s p q\<close>: a taker on side \<open>s\<close> with limit \<open>p\<close> trades against a maker at price \<open>q\<close>.\<close>

fun crosses :: "Side \<Rightarrow> int \<Rightarrow> int \<Rightarrow> bool" where
  "crosses Buy p q \<longleftrightarrow> \<not> p < q"
| "crosses Sell p q \<longleftrightarrow> \<not> p > q"

text \<open>The order of prices on the book side \<open>s\<close>: \<open>price_before s p q\<close> when \<open>p\<close> is strictly better.\<close>

fun price_before :: "Side \<Rightarrow> int \<Rightarrow> int \<Rightarrow> bool" where
  "price_before Buy p q \<longleftrightarrow> p > q"
| "price_before Sell p q \<longleftrightarrow> p < q"

fun opposite :: "Side \<Rightarrow> Side" where
  "opposite Buy = Sell"
| "opposite Sell = Buy"

lemma price_before_eq: "price_before Buy = (>)" "price_before Sell = (<)"
  by (auto simp: fun_eq_iff)

lemma opposite_opposite [simp]: "opposite (opposite s) = s"
  by (cases s) auto

lemma opposite_neq [simp]: "opposite s \<noteq> s" "s \<noteq> opposite s"
  by (cases s; simp)+

interpretation price: compare "price_before s"
  by unfold_locales (cases s; auto)+

lemma crosses_mono: "crosses s p q \<Longrightarrow> \<not> price_before (opposite s) q r \<Longrightarrow> crosses s p r"
  by (cases s) auto

section \<open>The abstract book\<close>

record abook =
  ab_bids :: "Order list"
  ab_asks :: "Order list"
  ab_symbol :: "byte list"

definition ab_of :: "Side \<Rightarrow> abook \<Rightarrow> Order list" where
  "ab_of s a = (case s of Buy \<Rightarrow> ab_bids a | Sell \<Rightarrow> ab_asks a)"

definition ab_set :: "Side \<Rightarrow> Order list \<Rightarrow> abook \<Rightarrow> abook" where
  "ab_set s os a = (case s of Buy \<Rightarrow> a\<lparr>ab_bids := os\<rparr> | Sell \<Rightarrow> a\<lparr>ab_asks := os\<rparr>)"

definition ab_all :: "abook \<Rightarrow> Order list" where
  "ab_all a = ab_bids a @ ab_asks a"

definition ab_find :: "u64 \<Rightarrow> abook \<Rightarrow> Order option" where
  "ab_find i a = find (\<lambda>o'. ord_id o' = i) (ab_all a)"

text \<open>Matching against one side in priority order.\<close>

fun spec_match ::
  "Side \<Rightarrow> int \<Rightarrow> u64 \<Rightarrow> int \<Rightarrow> Order list \<Rightarrow> Fill list \<times> int \<times> Order list" where
  "spec_match s p t rem [] = ([], rem, [])"
| "spec_match s p t rem (m # ms) =
     (if rem \<le> 0 \<or> \<not> crosses s p (ord_price m) then ([], rem, m # ms)
      else let q = min rem (ord_quantity m);
               f = \<lparr>makerOrderId = ord_id m, takerOrderId = t, fill_price = ord_price m,
                    fill_quantity = q, takerSide = s\<rparr>
           in if ord_quantity m - q \<le> 0
              then let (fs, r, ms') = spec_match s p t (rem - q) ms in (f # fs, r, ms')
              else ([f], rem - q, m\<lparr>ord_quantity := ord_quantity m - q\<rparr> # ms))"

text \<open>A resting order goes behind every order whose price is not strictly worse.\<close>

definition spec_insert :: "Side \<Rightarrow> Order \<Rightarrow> Order list \<Rightarrow> Order list" where
  "spec_insert s x os =
     takeWhile (\<lambda>y. \<not> price_before s (ord_price x) (ord_price y)) os @
     x # dropWhile (\<lambda>y. \<not> price_before s (ord_price x) (ord_price y)) os"

definition spec_rest :: "Order \<Rightarrow> abook \<Rightarrow> abook" where
  "spec_rest x a = ab_set (ord_side x) (spec_insert (ord_side x) x (ab_of (ord_side x) a)) a"

definition spec_new ::
  "u64 \<Rightarrow> Side \<Rightarrow> int \<Rightarrow> int \<Rightarrow> u64 \<Rightarrow> abook \<Rightarrow> Fill list \<times> abook" where
  "spec_new i s p q sq a =
     (if q \<le> 0 \<or> ab_find i a \<noteq> None then ([], a)
      else let (fs, r, os) = spec_match s p i q (ab_of (opposite s) a);
               a' = ab_set (opposite s) os a
           in if r > 0
              then (fs, spec_rest \<lparr>ord_id = i, ord_side = s, ord_price = p,
                                   ord_quantity = r, ord_sequence = sq\<rparr> a')
              else (fs, a'))"

definition spec_remove :: "u64 \<Rightarrow> abook \<Rightarrow> abook" where
  "spec_remove i a =
     a\<lparr>ab_bids := filter (\<lambda>x. ord_id x \<noteq> i) (ab_bids a),
       ab_asks := filter (\<lambda>x. ord_id x \<noteq> i) (ab_asks a)\<rparr>"

definition spec_cancel :: "u64 \<Rightarrow> abook \<Rightarrow> bool \<times> abook" where
  "spec_cancel i a = (if ab_find i a = None then (False, a) else (True, spec_remove i a))"

definition spec_modify :: "u64 \<Rightarrow> int \<Rightarrow> int \<Rightarrow> u64 \<Rightarrow> abook \<Rightarrow> bool \<times> abook" where
  "spec_modify i p q sq a =
     (case ab_find i a of
        None \<Rightarrow> (False, a)
      | Some x \<Rightarrow>
          (True,
           if q > 0
           then spec_rest \<lparr>ord_id = i, ord_side = ord_side x, ord_price = p,
                           ord_quantity = q, ord_sequence = sq\<rparr> (spec_remove i a)
           else spec_remove i a))"

text \<open>The L2 view: one entry per run of equal prices, with the aggregate quantity in the
  two's-complement range of \<open>int64_t\<close> and the order count modulo \<open>2^32\<close>.\<close>

fun add_to_level :: "Order \<Rightarrow> PriceLevel \<Rightarrow> PriceLevel" where
  "add_to_level x pl =
     pl\<lparr>totalQuantity := sint (word_of_int (totalQuantity pl + ord_quantity x) :: u64),
        pl_orderCount := pl_orderCount pl + 1\<rparr>"

definition level_of :: "int \<Rightarrow> Order list \<Rightarrow> PriceLevel" where
  "level_of p os = fold add_to_level os \<lparr>pl_price = p, totalQuantity = 0, pl_orderCount = 0\<rparr>"

text \<open>\<open>maxLevels\<close> cuts the list of levels; zero means no limit.\<close>

definition cut_levels :: "nat \<Rightarrow> 'a list \<Rightarrow> 'a list" where
  "cut_levels n xs = (if n = 0 then xs else take n xs)"

definition spec_depth :: "nat \<Rightarrow> Order list \<Rightarrow> PriceLevel list" where
  "spec_depth n os =
     cut_levels n (map (\<lambda>p. level_of p (filter (\<lambda>x. ord_price x = p) os))
                       (remdups_adj (map ord_price os)))"

definition spec_best :: "Order list \<Rightarrow> int option" where
  "spec_best os = (case os of [] \<Rightarrow> None | x # _ \<Rightarrow> Some (ord_price x))"

definition spec_reset :: "byte list \<Rightarrow> abook" where
  "spec_reset name = \<lparr>ab_bids = [], ab_asks = [], ab_symbol = name\<rparr>"

section \<open>Well-formed abstract books\<close>

definition side_ok :: "Side \<Rightarrow> Order list \<Rightarrow> bool" where
  "side_ok s os \<longleftrightarrow>
     sorted_wrt (\<lambda>x y. \<not> price_before s (ord_price y) (ord_price x)) os \<and>
     (\<forall>x\<in>set os. ord_side x = s \<and> ord_quantity x > 0)"

definition ab_ok :: "abook \<Rightarrow> bool" where
  "ab_ok a \<longleftrightarrow> side_ok Buy (ab_bids a) \<and> side_ok Sell (ab_asks a) \<and>
     distinct (map ord_id (ab_all a))"

definition uncrossed :: "abook \<Rightarrow> bool" where
  "uncrossed a \<longleftrightarrow> (\<forall>b\<in>set (ab_bids a). \<forall>k\<in>set (ab_asks a). ord_price b < ord_price k)"

section \<open>Laws of matching\<close>

lemma spec_match_conserves:
  "spec_match s p t rem os = (fs, r, os') \<Longrightarrow> sum_list (map fill_quantity fs) + r = rem"
  by (induction s p t rem os arbitrary: fs r os' rule: spec_match.induct)
    (fastforce simp: Let_def split: if_splits prod.splits)+

lemma spec_match_positive:
  "spec_match s p t rem os = (fs, r, os') \<Longrightarrow> 0 \<le> rem \<Longrightarrow> \<forall>x\<in>set os. ord_quantity x > 0 \<Longrightarrow>
     0 \<le> r \<and> (\<forall>f\<in>set fs. fill_quantity f > 0) \<and> (\<forall>x\<in>set os'. ord_quantity x > 0)"
  by (induction s p t rem os arbitrary: fs r os' rule: spec_match.induct)
    (auto simp: Let_def min_def split: if_splits prod.splits)

lemma spec_match_fill_data:
  "spec_match s p t rem os = (fs, r, os') \<Longrightarrow>
     \<forall>f\<in>set fs. takerOrderId f = t \<and> takerSide f = s \<and> crosses s p (fill_price f)"
  by (induction s p t rem os arbitrary: fs r os' rule: spec_match.induct)
    (auto simp: Let_def split: if_splits prod.splits)

text \<open>The makers are consumed from the front of the priority list, in that order.\<close>

lemma spec_match_prefix:
  "spec_match s p t rem os = (fs, r, os') \<Longrightarrow>
     length fs \<le> length os \<and>
     map (\<lambda>f. (makerOrderId f, fill_price f)) fs =
       map (\<lambda>x. (ord_id x, ord_price x)) (take (length fs) os)"
  by (induction s p t rem os arbitrary: fs r os' rule: spec_match.induct)
    (auto simp: Let_def split: if_splits prod.splits)

text \<open>What remains is the untouched tail, behind at most one partially filled maker.\<close>

lemma spec_match_rest:
  "spec_match s p t rem os = (fs, r, os') \<Longrightarrow>
     os' = drop (length fs) os \<or>
     (fs \<noteq> [] \<and> r = 0 \<and>
      os' = (os ! (length fs - 1))
              \<lparr>ord_quantity := ord_quantity (os ! (length fs - 1)) - fill_quantity (last fs)\<rparr>
            # drop (length fs) os)"
proof (induction s p t rem os arbitrary: fs r os' rule: spec_match.induct)
  case (2 s p t rem m ms)
  show ?case
  proof (cases "rem \<le> 0 \<or> \<not> crosses s p (ord_price m)")
    case True
    with "2.prems" show ?thesis by auto
  next
    case False
    let ?q = "min rem (ord_quantity m)"
    obtain fs1 r1 os1 where rec: "spec_match s p t (rem - ?q) ms = (fs1, r1, os1)"
      by (cases "spec_match s p t (rem - ?q) ms")
    show ?thesis
    proof (cases "ord_quantity m - ?q \<le> 0")
      case True
      from "2.IH" [OF False refl refl True rec] "2.prems" False True rec
      show ?thesis by (auto simp: Let_def nth_Cons' split: if_splits)
    next
      case part: False
      then have "?q = rem" by (simp add: min_def split: if_splits)
      with "2.prems" False part show ?thesis by (auto simp: Let_def)
    qed
  qed
qed auto

lemma spec_match_ids:
  "spec_match s p t rem os = (fs, r, os') \<Longrightarrow>
     \<exists>xs. map ord_id os = xs @ map ord_id os'"
  by (induction s p t rem os arbitrary: fs r os' rule: spec_match.induct)
    (auto simp: Let_def split: if_splits prod.splits, metis append_Cons)

lemma spec_match_keeps:
  "spec_match s p t rem os = (fs, r, os') \<Longrightarrow> y \<in> set os' \<Longrightarrow>
     \<exists>x\<in>set os. ord_id y = ord_id x \<and> ord_price y = ord_price x \<and> ord_side y = ord_side x"
  by (induction s p t rem os arbitrary: fs r os' rule: spec_match.induct)
    (fastforce simp: Let_def split: if_splits prod.splits)+

lemma spec_match_sorted:
  "spec_match s p t rem os = (fs, r, os') \<Longrightarrow>
     sorted_wrt (\<lambda>x y. R (ord_price x) (ord_price y)) os \<Longrightarrow>
     sorted_wrt (\<lambda>x y. R (ord_price x) (ord_price y)) os'"
  by (induction s p t rem os arbitrary: fs r os' rule: spec_match.induct)
    (auto simp: Let_def split: if_splits prod.splits)

lemma spec_match_side_ok:
  assumes "spec_match s p t rem os = (fs, r, os')" "side_ok k os" "0 \<le> rem"
  shows "side_ok k os'"
proof -
  from assms(2) have "\<forall>x\<in>set os. ord_quantity x > 0" by (simp add: side_ok_def)
  with spec_match_positive [OF assms(1,3)] spec_match_keeps [OF assms(1)] assms(2)
    spec_match_sorted [OF assms(1), of "\<lambda>x y. \<not> price_before k y x"]
  show ?thesis unfolding side_ok_def by fastforce
qed

text \<open>If quantity is left over, the sweep stopped at the limit price.\<close>

lemma spec_match_exhausts:
  "spec_match s p t rem os = (fs, r, os') \<Longrightarrow> 0 < r \<Longrightarrow> side_ok (opposite s) os \<Longrightarrow> y \<in> set os' \<Longrightarrow>
     \<not> crosses s p (ord_price y)"
proof (induction s p t rem os arbitrary: fs r os' rule: spec_match.induct)
  case (2 s p t rem m ms)
  show ?case
  proof (cases "rem \<le> 0 \<or> \<not> crosses s p (ord_price m)")
    case True
    with "2.prems" have "\<not> crosses s p (ord_price m)" "os' = m # ms" by auto
    with "2.prems" show ?thesis using crosses_mono [of s p "ord_price y" "ord_price m"]
      by (auto simp: side_ok_def)
  next
    case False
    let ?q = "min rem (ord_quantity m)"
    obtain fs1 r1 os1 where rec: "spec_match s p t (rem - ?q) ms = (fs1, r1, os1)"
      by (cases "spec_match s p t (rem - ?q) ms")
    from "2.prems"(3) have "side_ok (opposite s) ms" by (simp add: side_ok_def)
    with "2.IH" [OF False refl refl _ rec] "2.prems" False rec show ?thesis
      by (auto simp: Let_def min_def split: if_splits)
  qed
qed simp

section \<open>Laws of resting orders\<close>

lemma set_spec_insert [simp]: "set (spec_insert s x os) = insert x (set os)"
proof -
  have "set (takeWhile P os) \<union> set (dropWhile P os) = set os" for P
    by (metis set_append takeWhile_dropWhile_id)
  then show ?thesis by (auto simp: spec_insert_def)
qed

lemma ids_spec_insert:
  "distinct (map ord_id (spec_insert s x os)) \<longleftrightarrow>
     ord_id x \<notin> ord_id ` set os \<and> distinct (map ord_id os)"
proof -
  let ?P = "\<lambda>y. \<not> price_before s (ord_price x) (ord_price y)"
  have "map ord_id os = map ord_id (takeWhile ?P os) @ map ord_id (dropWhile ?P os)"
    by (metis map_append takeWhile_dropWhile_id)
  moreover have "ord_id ` set os = ord_id ` set (takeWhile ?P os) \<union> ord_id ` set (dropWhile ?P os)"
    by (metis image_Un set_append takeWhile_dropWhile_id)
  ultimately show ?thesis by (auto simp: spec_insert_def)
qed

lemma dropWhile_insert_worse:
  assumes "side_ok s os" "y \<in> set (dropWhile (\<lambda>y. \<not> price_before s p (ord_price y)) os)"
  shows "price_before s p (ord_price y)"
  using assms
proof (induction os)
  case (Cons z os)
  then show ?case
    using price.lt_total [of s "ord_price z" "ord_price y"]
    by (auto simp: side_ok_def intro: price.lt_trans split: if_splits)
qed simp

lemma side_ok_spec_insert:
  assumes "side_ok s os" "ord_side x = s" "ord_quantity x > 0"
  shows "side_ok s (spec_insert s x os)"
proof -
  let ?R = "\<lambda>x y. \<not> price_before s (ord_price y) (ord_price x)"
  define P where "P = (\<lambda>y :: Order. \<not> price_before s (ord_price x) (ord_price y))"
  define ts ds where td12: "ts = takeWhile P os" "ds = dropWhile P os"
  then have td3: "os = ts @ ds" by simp
  have "\<forall>y\<in>set ds. ?R x y"
    using dropWhile_insert_worse [OF assms(1)] price.lt_asym unfolding td12 P_def by blast
  moreover have "\<forall>y\<in>set ts. ?R y x"
    unfolding td12 P_def by (blast dest: set_takeWhileD)
  ultimately have "sorted_wrt ?R (ts @ x # ds)"
    using assms(1) by (simp add: side_ok_def td3 sorted_wrt_append)
  moreover have "spec_insert s x os = ts @ x # ds"
    by (simp add: spec_insert_def td12 P_def)
  ultimately show ?thesis
    using assms set_spec_insert [of s x os] by (auto simp: side_ok_def)
qed

lemma ab_of_set [simp]:
  "ab_of s (ab_set s os a) = os" "s \<noteq> s' \<Longrightarrow> ab_of s' (ab_set s os a) = ab_of s' a"
  by (cases s; cases s'; simp add: ab_of_def ab_set_def)+

lemma ab_of_simps [simp]:
  "ab_of Buy a = ab_bids a" "ab_of Sell a = ab_asks a"
  "ab_bids (ab_set Buy os a) = os" "ab_asks (ab_set Buy os a) = ab_asks a"
  "ab_asks (ab_set Sell os a) = os" "ab_bids (ab_set Sell os a) = ab_bids a"
  "ab_symbol (ab_set s os a) = ab_symbol a"
  by (simp_all add: ab_of_def ab_set_def split: Side.split)

lemma set_ab_all: "set (ab_all a) = set (ab_of s a) \<union> set (ab_of (opposite s) a)"
  by (cases s) (auto simp: ab_all_def)

lemma ab_ok_iff:
  "ab_ok a \<longleftrightarrow> side_ok s (ab_of s a) \<and> side_ok (opposite s) (ab_of (opposite s) a) \<and>
     distinct (map ord_id (ab_of s a)) \<and> distinct (map ord_id (ab_of (opposite s) a)) \<and>
     ord_id ` set (ab_of s a) \<inter> ord_id ` set (ab_of (opposite s) a) = {}"
  by (cases s) (auto simp: ab_ok_def ab_all_def)

lemma ab_find_None: "ab_find i a = None \<longleftrightarrow> i \<notin> ord_id ` set (ab_all a)"
  by (auto simp: ab_find_def find_None_iff)

lemma ab_find_SomeD: "ab_find i a = Some x \<Longrightarrow> x \<in> set (ab_all a) \<and> ord_id x = i"
  by (auto simp: ab_find_def find_Some_iff)

lemma ab_find_unique:
  assumes "ab_ok a" "x \<in> set (ab_all a)"
  shows "ab_find (ord_id x) a = Some x"
proof -
  obtain y where y: "ab_find (ord_id x) a = Some y"
    using assms(2) by (cases "ab_find (ord_id x) a") (auto simp: ab_find_None)
  from ab_find_SomeD [OF this] have "y \<in> set (ab_all a)" "ord_id y = ord_id x" by auto
  with assms have "y = x"
    by (metis ab_ok_def distinct_map inj_on_def)
  with y show ?thesis by simp
qed

lemma ab_ok_spec_rest:
  assumes "ab_ok a" "ord_quantity x > 0" "ab_find (ord_id x) a = None"
  shows "ab_ok (spec_rest x a)"
  using assms set_ab_all [of a "ord_side x"]
  by (auto simp: ab_ok_iff [where s = "ord_side x"] spec_rest_def side_ok_spec_insert
      ids_spec_insert ab_find_None)

lemma ab_ok_spec_remove: "ab_ok a \<Longrightarrow> ab_ok (spec_remove i a)"
  by (auto simp: ab_ok_def ab_all_def spec_remove_def side_ok_def sorted_wrt_filter
      distinct_map_filter)

lemma ab_find_spec_remove: "ab_find i (spec_remove i a) = None"
  by (auto simp: ab_find_None ab_all_def spec_remove_def)

theorem ab_ok_spec_cancel: "ab_ok a \<Longrightarrow> ab_ok (snd (spec_cancel i a))"
  by (simp add: spec_cancel_def ab_ok_spec_remove)

theorem ab_ok_spec_modify: "ab_ok a \<Longrightarrow> ab_ok (snd (spec_modify i p q sq a))"
  by (auto simp: spec_modify_def ab_ok_spec_remove ab_find_spec_remove intro!: ab_ok_spec_rest
      split: option.split)

text \<open>The state after the sweep of a new order, before its rest is placed.\<close>

lemma ab_ok_swept:
  assumes "ab_ok a" "0 \<le> q" "spec_match s p i q (ab_of (opposite s) a) = (fs, r, os)"
  shows "ab_ok (ab_set (opposite s) os a)"
proof -
  obtain xs where ids: "map ord_id (ab_of (opposite s) a) = xs @ map ord_id os"
    using spec_match_ids [OF assms(3)] by blast
  then have sub: "ord_id ` set os \<subseteq> ord_id ` set (ab_of (opposite s) a)"
    by (metis Un_upper2 image_set set_append)
  have "side_ok (opposite s) os"
    using spec_match_side_ok [OF assms(3) _ assms(2)] assms(1) by (simp add: ab_ok_iff [of a s])
  moreover have "distinct (map ord_id os)"
    using ids assms(1) unfolding ab_ok_iff [of a s] by (metis distinct_append)
  ultimately show ?thesis
    using sub assms(1) by (auto simp: ab_ok_iff [where s = s])
qed

lemma ab_find_swept:
  assumes "ab_find i a = None" "spec_match s p t q (ab_of (opposite s) a) = (fs, r, os)"
  shows "ab_find i (ab_set (opposite s) os a) = None"
proof -
  have "ord_id ` set os \<subseteq> ord_id ` set (ab_of (opposite s) a)"
    using spec_match_keeps [OF assms(2)] by fastforce
  then show ?thesis
    using assms(1) by (auto simp: ab_find_None set_ab_all [where s = s])
qed

theorem ab_ok_spec_new: "ab_ok a \<Longrightarrow> ab_ok (snd (spec_new i s p q sq a))"
  by (auto simp: spec_new_def Let_def ab_find_swept intro!: ab_ok_spec_rest ab_ok_swept [of a q]
      split: prod.split)

section \<open>No trade is left on the table\<close>

lemma uncrossed_iff:
  "uncrossed a \<longleftrightarrow>
     (\<forall>x\<in>set (ab_of s a). \<forall>y\<in>set (ab_of (opposite s) a). \<not> crosses s (ord_price x) (ord_price y))"
  by (cases s) (auto simp: uncrossed_def)

lemma uncrossed_swept:
  assumes "uncrossed a" "spec_match s p t q (ab_of (opposite s) a) = (fs, r, os)"
  shows "uncrossed (ab_set (opposite s) os a)"
  using assms(1) spec_match_keeps [OF assms(2)] unfolding uncrossed_iff [where s = s] by fastforce

lemma uncrossed_spec_new:
  assumes "ab_ok a" "uncrossed a"
  shows "uncrossed (snd (spec_new i s p q sq a))"
proof (cases "q \<le> 0 \<or> ab_find i a \<noteq> None")
  case False
  obtain fs r os where m: "spec_match s p i q (ab_of (opposite s) a) = (fs, r, os)"
    by (metis prod_cases3)
  let ?a = "ab_set (opposite s) os a"
  let ?x = "\<lparr>ord_id = i, ord_side = s, ord_price = p, ord_quantity = r, ord_sequence = sq\<rparr>"
  have "side_ok (opposite s) (ab_of (opposite s) a)" using assms(1) by (cases s) (simp_all add: ab_ok_def)
  with spec_match_exhausts [OF m] have "r > 0 \<Longrightarrow> \<forall>y\<in>set os. \<not> crosses s p (ord_price y)" by blast
  with uncrossed_swept [OF assms(2) m] have "r > 0 \<Longrightarrow> uncrossed (spec_rest ?x ?a)"
    unfolding uncrossed_iff [where s = s] spec_rest_def by simp
  moreover have "snd (spec_new i s p q sq a) = (if r > 0 then spec_rest ?x ?a else ?a)"
    using False m by (simp add: spec_new_def)
  ultimately show ?thesis using uncrossed_swept [OF assms(2) m] by auto
qed (use assms in \<open>auto simp: spec_new_def\<close>)

lemma uncrossed_spec_cancel: "uncrossed a \<Longrightarrow> uncrossed (snd (spec_cancel i a))"
  by (auto simp: spec_cancel_def spec_remove_def uncrossed_def)

end
