(* ===== verification/Order_Protocol.thy ===== *)
theory Order_Protocol
  imports Wire Order_Book_Types
begin

text \<open>
  The binary order commands and results, \<^verbatim>\<open>app/protocol/OrderProtocol.{h,cpp}\<close>.

  An encoder allocates a buffer of the final size and fills it through a cursor; a decoder
  returns \<open>None\<close> where the C++ function returns false. The lemmas characterise every decoder
  completely: it accepts exactly the byte strings that start with an encoding, and returns the
  encoded values.
\<close>

section \<open>Opcodes\<close>

definition OP_NEW :: byte where "OP_NEW = 0x10"
definition OP_CXL :: byte where "OP_CXL = 0x11"
definition OP_MOD :: byte where "OP_MOD = 0x12"
definition OP_SHARDED_NEW :: byte where "OP_SHARDED_NEW = 0x20"
definition OP_SHARDED_CXL :: byte where "OP_SHARDED_CXL = 0x21"
definition OP_SHARDED_MOD :: byte where "OP_SHARDED_MOD = 0x22"

text \<open>The check \<open>s > 1\<close> followed by \<open>static_cast<Side>(s)\<close>.\<close>

definition side_of_byte :: "byte \<Rightarrow> Side option" where
  "side_of_byte s = (if s > 1 then None else Some (if s = 0 then Buy else Sell))"

section \<open>Commands\<close>

definition encodeNew :: "u64 \<Rightarrow> Side \<Rightarrow> int \<Rightarrow> int \<Rightarrow> byte list" where
  "encodeNew orderId side price quantity =
     (let c = (replicate (1 + 8 + 1 + 8 + 8) 0, 0);
          c = putU8 OP_NEW c;
          c = putU64 orderId c;
          c = putU8 (side_byte side) c;
          c = putI64 price c;
          c = putI64 quantity c
      in fst c)"

definition encodeCancel :: "u64 \<Rightarrow> byte list" where
  "encodeCancel orderId =
     (let c = (replicate (1 + 8) 0, 0);
          c = putU8 OP_CXL c;
          c = putU64 orderId c
      in fst c)"

definition encodeModify :: "u64 \<Rightarrow> int \<Rightarrow> int \<Rightarrow> byte list" where
  "encodeModify orderId newPrice newQuantity =
     (let c = (replicate (1 + 8 + 8 + 8) 0, 0);
          c = putU8 OP_MOD c;
          c = putU64 orderId c;
          c = putI64 newPrice c;
          c = putI64 newQuantity c
      in fst c)"

definition decodeNew :: "byte list \<Rightarrow> (u64 \<times> Side \<times> int \<times> int) option" where
  "decodeNew data =
     do {
       (op, off) \<leftarrow> getU8 data 0;
       if op \<noteq> OP_NEW then None else do {
       (orderId, off) \<leftarrow> getU64 data off;
       (s, off) \<leftarrow> getU8 data off;
       side \<leftarrow> side_of_byte s;
       (price, off) \<leftarrow> getI64 data off;
       (quantity, off) \<leftarrow> getI64 data off;
       Some (orderId, side, price, quantity) }
     }"

definition decodeCancel :: "byte list \<Rightarrow> u64 option" where
  "decodeCancel data =
     do {
       (op, off) \<leftarrow> getU8 data 0;
       if op \<noteq> OP_CXL then None else do {
       (orderId, off) \<leftarrow> getU64 data off;
       Some orderId }
     }"

definition decodeModify :: "byte list \<Rightarrow> (u64 \<times> int \<times> int) option" where
  "decodeModify data =
     do {
       (op, off) \<leftarrow> getU8 data 0;
       if op \<noteq> OP_MOD then None else do {
       (orderId, off) \<leftarrow> getU64 data off;
       (newPrice, off) \<leftarrow> getI64 data off;
       (newQuantity, off) \<leftarrow> getI64 data off;
       Some (orderId, newPrice, newQuantity) }
     }"

section \<open>Commands that carry a symbol\<close>

definition encodeShardedNew :: "byte list \<Rightarrow> u64 \<Rightarrow> Side \<Rightarrow> int \<Rightarrow> int \<Rightarrow> byte list" where
  "encodeShardedNew name orderId side price quantity =
     (let c = (replicate (1 + 4 + length name + 8 + 1 + 8 + 8) 0, 0);
          c = putU8 OP_SHARDED_NEW c;
          c = putStr name c;
          c = putU64 orderId c;
          c = putU8 (side_byte side) c;
          c = putI64 price c;
          c = putI64 quantity c
      in fst c)"

definition encodeShardedCancel :: "byte list \<Rightarrow> u64 \<Rightarrow> byte list" where
  "encodeShardedCancel name orderId =
     (let c = (replicate (1 + 4 + length name + 8) 0, 0);
          c = putU8 OP_SHARDED_CXL c;
          c = putStr name c;
          c = putU64 orderId c
      in fst c)"

definition encodeShardedModify :: "byte list \<Rightarrow> u64 \<Rightarrow> int \<Rightarrow> int \<Rightarrow> byte list" where
  "encodeShardedModify name orderId newPrice newQuantity =
     (let c = (replicate (1 + 4 + length name + 8 + 8 + 8) 0, 0);
          c = putU8 OP_SHARDED_MOD c;
          c = putStr name c;
          c = putU64 orderId c;
          c = putI64 newPrice c;
          c = putI64 newQuantity c
      in fst c)"

definition decodeShardedNew :: "byte list \<Rightarrow> (byte list \<times> u64 \<times> Side \<times> int \<times> int) option" where
  "decodeShardedNew data =
     do {
       (op, off) \<leftarrow> getU8 data 0;
       if op \<noteq> OP_SHARDED_NEW then None else do {
       (name, off) \<leftarrow> getStr data off;
       (orderId, off) \<leftarrow> getU64 data off;
       (s, off) \<leftarrow> getU8 data off;
       side \<leftarrow> side_of_byte s;
       (price, off) \<leftarrow> getI64 data off;
       (quantity, off) \<leftarrow> getI64 data off;
       Some (name, orderId, side, price, quantity) }
     }"

definition decodeShardedCancel :: "byte list \<Rightarrow> (byte list \<times> u64) option" where
  "decodeShardedCancel data =
     do {
       (op, off) \<leftarrow> getU8 data 0;
       if op \<noteq> OP_SHARDED_CXL then None else do {
       (name, off) \<leftarrow> getStr data off;
       (orderId, off) \<leftarrow> getU64 data off;
       Some (name, orderId) }
     }"

definition decodeShardedModify :: "byte list \<Rightarrow> (byte list \<times> u64 \<times> int \<times> int) option" where
  "decodeShardedModify data =
     do {
       (op, off) \<leftarrow> getU8 data 0;
       if op \<noteq> OP_SHARDED_MOD then None else do {
       (name, off) \<leftarrow> getStr data off;
       (orderId, off) \<leftarrow> getU64 data off;
       (newPrice, off) \<leftarrow> getI64 data off;
       (newQuantity, off) \<leftarrow> getI64 data off;
       Some (name, orderId, newPrice, newQuantity) }
     }"

section \<open>Results\<close>

text \<open>The decoder casts the taker side without a range check, so a decoded fill keeps the raw
  byte of the enumeration.\<close>

type_synonym wire_fill = "u64 \<times> u64 \<times> int \<times> int \<times> byte"

fun wire_of_fill :: "Fill \<Rightarrow> wire_fill" where
  "wire_of_fill f = (makerOrderId f, takerOrderId f, fill_price f, fill_quantity f, side_byte (takerSide f))"

definition putFill :: "Fill \<Rightarrow> cursor \<Rightarrow> cursor" where
  "putFill f c =
     (let c = putU64 (makerOrderId f) c;
          c = putU64 (takerOrderId f) c;
          c = putI64 (fill_price f) c;
          c = putI64 (fill_quantity f) c
      in putU8 (side_byte (takerSide f)) c)"

definition encodeNewResult :: "Fill list \<Rightarrow> bool \<Rightarrow> int \<Rightarrow> byte list" where
  "encodeNewResult fills rested remainingQty =
     (let c = (replicate (1 + 4 + length fills * (8 + 8 + 8 + 8 + 1) + 1 + 8) 0, 0);
          c = putU8 1 c;
          c = putU32 (word_of_nat (length fills)) c;
          c = fold putFill fills c;
          c = putU8 (if rested then 1 else 0) c;
          c = putI64 remainingQty c
      in fst c)"

definition getFill :: "byte list \<Rightarrow> nat \<Rightarrow> (wire_fill \<times> nat) option" where
  "getFill data off =
     do {
       (maker, off) \<leftarrow> getU64 data off;
       (taker, off) \<leftarrow> getU64 data off;
       (price, off) \<leftarrow> getI64 data off;
       (quantity, off) \<leftarrow> getI64 data off;
       (s, off) \<leftarrow> getU8 data off;
       Some ((maker, taker, price, quantity, s), off)
     }"

fun getFills :: "nat \<Rightarrow> byte list \<Rightarrow> nat \<Rightarrow> (wire_fill list \<times> nat) option" where
  "getFills 0 data off = Some ([], off)"
| "getFills (Suc n) data off =
     do {
       (f, off) \<leftarrow> getFill data off;
       (fs, off) \<leftarrow> getFills n data off;
       Some (f # fs, off)
     }"

definition decodeNewResult :: "byte list \<Rightarrow> (wire_fill list \<times> bool \<times> int) option" where
  "decodeNewResult data =
     do {
       (ok, off) \<leftarrow> getU8 data 0;
       if ok = 0 then None else do {
       (fillCount, off) \<leftarrow> getU32 data off;
       (fills, off) \<leftarrow> getFills (unat fillCount) data off;
       (r, off) \<leftarrow> getU8 data off;
       (remainingQty, off) \<leftarrow> getI64 data off;
       Some (fills, r \<noteq> 0, remainingQty) }
     }"

definition encodeSimpleResult :: "bool \<Rightarrow> byte list" where
  "encodeSimpleResult ok = [if ok then 1 else 0]"

definition decodeSimpleResult :: "byte list \<Rightarrow> bool option" where
  "decodeSimpleResult data = (case data of [] \<Rightarrow> None | b # _ \<Rightarrow> Some (b \<noteq> 0))"

section \<open>Encoders as byte strings\<close>

lemma encode_bytes:
  "encodeNew i s p q = OP_NEW # le_bytes 8 i @ side_byte s # le_bytes 8 (word_of_int p :: u64) @
     le_bytes 8 (word_of_int q :: u64)"
  "encodeCancel i = OP_CXL # le_bytes 8 i"
  "encodeModify i p q = OP_MOD # le_bytes 8 i @ le_bytes 8 (word_of_int p :: u64) @
     le_bytes 8 (word_of_int q :: u64)"
  by (simp_all add: encodeNew_def encodeCancel_def encodeModify_def filling_start codec_simps filling_end
      del: replicate.simps)

lemma encodeSharded_bytes:
  "encodeShardedNew n i s p q = OP_SHARDED_NEW # le_bytes 4 (word_of_nat (length n) :: u32) @ n @
     le_bytes 8 i @ side_byte s # le_bytes 8 (word_of_int p :: u64) @ le_bytes 8 (word_of_int q :: u64)"
  "encodeShardedCancel n i = OP_SHARDED_CXL # le_bytes 4 (word_of_nat (length n) :: u32) @ n @ le_bytes 8 i"
  "encodeShardedModify n i p q = OP_SHARDED_MOD # le_bytes 4 (word_of_nat (length n) :: u32) @ n @
     le_bytes 8 i @ le_bytes 8 (word_of_int p :: u64) @ le_bytes 8 (word_of_int q :: u64)"
  by (simp_all add: encodeShardedNew_def encodeShardedCancel_def encodeShardedModify_def
      filling_start codec_simps filling_end del: replicate.simps)

section \<open>Decoders accept exactly the encodings\<close>

lemma side_of_byte_iff [codec_simps]: "side_of_byte b = Some s \<longleftrightarrow> b = side_byte s"
proof -
  have "b = 0 \<longleftrightarrow> unat b = 0" "b = 1 \<longleftrightarrow> unat b = 1" by (simp_all add: word_unat_eq_iff)
  then have "b > 1 \<longleftrightarrow> b \<noteq> 0 \<and> b \<noteq> 1" by (simp add: word_less_nat_alt) linarith
  then show ?thesis by (cases s) (auto simp: side_of_byte_def)
qed

lemmas decode_simps = bind_eq_Some_conv codec_simps bytes_at_append bytes_at_Cons

lemma decode_iffs:
  "decodeNew data = Some (i, s, p, q) \<longleftrightarrow>
     i64_ok p \<and> i64_ok q \<and> (\<exists>rest. data = encodeNew i s p q @ rest)"
  "decodeCancel data = Some i \<longleftrightarrow> (\<exists>rest. data = encodeCancel i @ rest)"
  "decodeModify data = Some (i, p, q) \<longleftrightarrow>
     i64_ok p \<and> i64_ok q \<and> (\<exists>rest. data = encodeModify i p q @ rest)"
  unfolding bytes_at_0 [symmetric] encode_bytes
  by (auto simp: decodeNew_def decodeCancel_def decodeModify_def decode_simps)

lemma decodeSharded_iffs:
  "decodeShardedNew data = Some (n, i, s, p, q) \<longleftrightarrow>
     length n < 2 ^ 32 \<and> i64_ok p \<and> i64_ok q \<and> (\<exists>rest. data = encodeShardedNew n i s p q @ rest)"
  "decodeShardedCancel data = Some (n, i) \<longleftrightarrow>
     length n < 2 ^ 32 \<and> (\<exists>rest. data = encodeShardedCancel n i @ rest)"
  "decodeShardedModify data = Some (n, i, p, q) \<longleftrightarrow>
     length n < 2 ^ 32 \<and> i64_ok p \<and> i64_ok q \<and> (\<exists>rest. data = encodeShardedModify n i p q @ rest)"
  unfolding bytes_at_0 [symmetric] encodeSharded_bytes
  by (auto simp: decodeShardedNew_def decodeShardedCancel_def decodeShardedModify_def decode_simps
      add.assoc)

text \<open>The results.\<close>

definition fill_bytes :: "Fill \<Rightarrow> byte list" where
  "fill_bytes f = le_bytes 8 (makerOrderId f) @ le_bytes 8 (takerOrderId f) @
     le_bytes 8 (word_of_int (fill_price f) :: u64) @ le_bytes 8 (word_of_int (fill_quantity f) :: u64) @
     [side_byte (takerSide f)]"

definition fill_ok :: "Fill \<Rightarrow> bool" where
  "fill_ok f \<longleftrightarrow> i64_ok (fill_price f) \<and> i64_ok (fill_quantity f)"

lemma putFill_filling:
  "33 \<le> k \<Longrightarrow> putFill f (filling pre k) = filling (pre @ fill_bytes f) (k - 33)"
  by (simp add: putFill_def codec_simps fill_bytes_def)

lemma putFills_filling:
  "33 * length fs \<le> k \<Longrightarrow>
     fold putFill fs (filling pre k) = filling (pre @ concat (map fill_bytes fs)) (k - 33 * length fs)"
  by (induction fs arbitrary: pre k) (simp_all add: putFill_filling)

lemma encodeNewResult_bytes:
  "encodeNewResult fs r q = 1 # le_bytes 4 (word_of_nat (length fs) :: u32) @ concat (map fill_bytes fs) @
     (if r then 1 else 0) # le_bytes 8 (word_of_int q :: u64)"
  by (simp add: encodeNewResult_def filling_start codec_simps putFills_filling filling_end
      del: replicate.simps)

lemma getFill_bytes:
  "bytes_at data off (fill_bytes f) \<Longrightarrow> fill_ok f \<Longrightarrow> getFill data off = Some (wire_of_fill f, off + 33)"
  by (simp add: getFill_def fill_bytes_def fill_ok_def decode_simps)

lemma getFills_bytes:
  "bytes_at data off (concat (map fill_bytes fs)) \<Longrightarrow> \<forall>f\<in>set fs. fill_ok f \<Longrightarrow>
     getFills (length fs) data off = Some (map wire_of_fill fs, off + 33 * length fs)"
  by (induction fs arbitrary: off) (auto simp: bytes_at_append getFill_bytes, simp add: fill_bytes_def)

lemma decodeNewResult_encode:
  assumes "\<forall>f\<in>set fs. fill_ok f" "length fs < 2 ^ 32" "i64_ok q"
  shows "decodeNewResult (encodeNewResult fs r q @ rest) = Some (map wire_of_fill fs, r, q)"
proof -
  define data where "data = encodeNewResult fs r q @ rest"
  have len: "length (concat (map fill_bytes fs)) = 33 * length fs"
    by (induction fs) (simp_all add: fill_bytes_def)
  have n: "unat (word_of_nat (length fs) :: u32) = length fs" using assms(2) by (simp add: unat_of_nat)
  have "bytes_at data 0 (encodeNewResult fs r q)" unfolding data_def bytes_at_0 by blast
  then have at: "getU8 data 0 = Some (1, 1)" "getU32 data 1 = Some (word_of_nat (length fs), 5)"
    "bytes_at data 5 (concat (map fill_bytes fs))"
    "getU8 data (5 + 33 * length fs) = Some (if r then 1 else 0, 6 + 33 * length fs)"
    "getI64 data (6 + 33 * length fs) = Some (q, 14 + 33 * length fs)"
    using assms(3) len unfolding encodeNewResult_bytes by (simp_all add: decode_simps)
  from getFills_bytes [OF at(3) assms(1)]
  have "decodeNewResult data = Some (map wire_of_fill fs, r, q)"
    by (simp add: decodeNewResult_def at at(2) [unfolded One_nat_def] n)
  then show ?thesis by (simp add: data_def)
qed

lemma decodeSimpleResult_encode: "decodeSimpleResult (encodeSimpleResult ok @ rest) = Some ok"
  by (simp add: decodeSimpleResult_def encodeSimpleResult_def)

end
