(* ===== verification/Skip_List.thy ===== *)
theory Skip_List
  imports Std_Map "HOL-Library.Log_Nat"
begin

text \<open>
  The skip list of \<^verbatim>\<open>app/statemachine/SkipList.h\<close>, on an explicit memory of nodes.

  A node is an address into the list of all nodes allocated so far; a forward pointer is an
  address or null. Following a null pointer, an address out of memory or a forward index out of
  range is the value \<open>None\<close>; the search loops are partial functions, so a loop that does not end is
  \<open>None\<close> as well. The coin flips of \<^verbatim>\<open>randomLevel\<close> are an arbitrary sequence.

  The abstraction \<open>sl_abs\<close> reads the pairs along the bottom level. Under the invariant \<open>sl_inv\<close>
  every operation returns, and \<open>find\<close>, \<open>insert\<close> and \<open>remove\<close> are the operations of
  \<^verbatim>\<open>std::map\<close> on that list, whatever the coins show.
\<close>

section \<open>Memory\<close>

record ('k, 'v) Node =
  nd_key :: 'k
  nd_value :: 'v
  nd_forward :: "nat option list"

record ('k, 'v) SkipList =
  sl_maxLevel :: nat
  sl_currentLevel :: nat
  sl_size :: int
  sl_head :: nat
  sl_mem :: "('k, 'v) Node list"
  sl_coins :: "nat \<Rightarrow> bool"
  sl_flips :: nat

definition new_node :: "'k \<Rightarrow> 'v \<Rightarrow> nat \<Rightarrow> ('k, 'v) Node" where
  "new_node k v level = \<lparr>nd_key = k, nd_value = v, nd_forward = replicate (level + 1) None\<rparr>"

definition node_at :: "('k, 'v) Node list \<Rightarrow> nat \<Rightarrow> ('k, 'v) Node option" where
  "node_at h a = (if a < length h then Some (h ! a) else None)"

definition fwd :: "('k, 'v) Node list \<Rightarrow> nat \<Rightarrow> nat \<Rightarrow> nat option option" where
  "fwd h i a = (if a < length h \<and> i < length (nd_forward (h ! a)) then Some (nd_forward (h ! a) ! i) else None)"

definition set_fwd ::
  "('k, 'v) Node list \<Rightarrow> nat \<Rightarrow> nat \<Rightarrow> nat option \<Rightarrow> ('k, 'v) Node list option" where
  "set_fwd h i a p =
     (if a < length h \<and> i < length (nd_forward (h ! a))
      then Some (h[a := (h ! a)\<lparr>nd_forward := (nd_forward (h ! a))[i := p]\<rparr>]) else None)"

text \<open>\<open>node->value = v\<close> through a pointer that \<open>find\<close> or \<open>best\<close> returned.\<close>

definition sl_setValue :: "('k, 'v) SkipList \<Rightarrow> nat \<Rightarrow> 'v \<Rightarrow> ('k, 'v) SkipList option" where
  "sl_setValue sl a v =
     (if a < length (sl_mem sl)
      then Some (sl\<lparr>sl_mem := (sl_mem sl)[a := (sl_mem sl ! a)\<lparr>nd_value := v\<rparr>]\<rparr>) else None)"

section \<open>Operations\<close>

text \<open>\<open>k0\<close> and \<open>v0\<close> are the default key and value of the head sentinel.\<close>

definition sl_new :: "'k \<Rightarrow> 'v \<Rightarrow> nat \<Rightarrow> (nat \<Rightarrow> bool) \<Rightarrow> ('k, 'v) SkipList" where
  "sl_new k0 v0 maxN coins =
     \<lparr>sl_maxLevel = ceillog2 maxN, sl_currentLevel = 0, sl_size = 0, sl_head = 0,
      sl_mem = [new_node k0 v0 (ceillog2 maxN)], sl_coins = coins, sl_flips = 0\<rparr>"

text \<open>The loop draws first and tests the bound second, so it always draws once more than it counts.\<close>

function flip_loop :: "(nat \<Rightarrow> bool) \<Rightarrow> nat \<Rightarrow> nat \<Rightarrow> nat \<Rightarrow> nat \<times> nat" where
  "flip_loop coins maxLevel flips lvl =
     (if coins flips \<and> lvl < maxLevel then flip_loop coins maxLevel (flips + 1) (lvl + 1) else (lvl, flips + 1))"
  by auto
termination
  by (relation "measure (\<lambda>(coins, maxLevel, flips, lvl). maxLevel - lvl)") auto

declare flip_loop.simps [simp del]

definition sl_randomLevel :: "('k, 'v) SkipList \<Rightarrow> nat \<times> ('k, 'v) SkipList" where
  "sl_randomLevel sl =
     (let (lvl, flips) = flip_loop (sl_coins sl) (sl_maxLevel sl) (sl_flips sl) 0
      in (lvl, sl\<lparr>sl_flips := flips\<rparr>))"

text \<open>\<open>while (curr->forward[i] && cmp(curr->forward[i]->key, key)) curr = curr->forward[i];\<close>\<close>

partial_function (option) sl_walk ::
  "('k \<Rightarrow> 'k \<Rightarrow> bool) \<Rightarrow> ('k, 'v) Node list \<Rightarrow> nat \<Rightarrow> 'k \<Rightarrow> nat \<Rightarrow> nat option" where
  "sl_walk lt h i key cur =
     do {
       next \<leftarrow> fwd h i cur;
       case next of
         None \<Rightarrow> Some cur
       | Some b \<Rightarrow> do {
           nd \<leftarrow> node_at h b;
           if lt (nd_key nd) key then sl_walk lt h i key b else Some cur
         }
     }"

text \<open>The loop over the levels of \<open>find\<close>, and the one of \<open>insert\<close> and \<open>remove\<close>, which records the
  last node before the key on every level.\<close>

fun sl_seek :: "('k \<Rightarrow> 'k \<Rightarrow> bool) \<Rightarrow> ('k, 'v) Node list \<Rightarrow> 'k \<Rightarrow> nat \<Rightarrow> nat \<Rightarrow> nat option" where
  "sl_seek lt h key 0 cur = sl_walk lt h 0 key cur"
| "sl_seek lt h key (Suc i) cur = do { cur \<leftarrow> sl_walk lt h (Suc i) key cur; sl_seek lt h key i cur }"

definition vec_set :: "'a list \<Rightarrow> nat \<Rightarrow> 'a \<Rightarrow> 'a list option" where
  "vec_set xs i v = (if i < length xs then Some (xs[i := v]) else None)"

fun sl_trace ::
  "('k \<Rightarrow> 'k \<Rightarrow> bool) \<Rightarrow> ('k, 'v) Node list \<Rightarrow> 'k \<Rightarrow> nat \<Rightarrow> nat \<Rightarrow> nat option list \<Rightarrow>
     (nat \<times> nat option list) option" where
  "sl_trace lt h key 0 cur update =
     do { cur \<leftarrow> sl_walk lt h 0 key cur; update \<leftarrow> vec_set update 0 (Some cur); Some (cur, update) }"
| "sl_trace lt h key (Suc i) cur update =
     do {
       cur \<leftarrow> sl_walk lt h (Suc i) key cur;
       update \<leftarrow> vec_set update (Suc i) (Some cur);
       sl_trace lt h key i cur update
     }"

text \<open>\<open>curr && !cmp(key, curr->key) && !cmp(curr->key, key)\<close>\<close>

definition sl_hit :: "('k \<Rightarrow> 'k \<Rightarrow> bool) \<Rightarrow> ('k, 'v) Node list \<Rightarrow> 'k \<Rightarrow> nat option \<Rightarrow> bool option" where
  "sl_hit lt h key cur =
     (case cur of
        None \<Rightarrow> Some False
      | Some a \<Rightarrow> do { nd \<leftarrow> node_at h a; Some (\<not> lt key (nd_key nd) \<and> \<not> lt (nd_key nd) key) })"

definition sl_find :: "('k \<Rightarrow> 'k \<Rightarrow> bool) \<Rightarrow> ('k, 'v) SkipList \<Rightarrow> 'k \<Rightarrow> nat option option" where
  "sl_find lt sl key =
     do {
       cur \<leftarrow> sl_seek lt (sl_mem sl) key (sl_currentLevel sl) (sl_head sl);
       cur \<leftarrow> fwd (sl_mem sl) 0 cur;
       hit \<leftarrow> sl_hit lt (sl_mem sl) key cur;
       Some (if hit then cur else None)
     }"

text \<open>\<open>for (i = 0; i <= newLevel; ++i)\<close>: link the new node behind \<open>update[i]\<close>.\<close>

fun sl_link ::
  "nat option list \<Rightarrow> nat \<Rightarrow> nat \<Rightarrow> ('k, 'v) Node list \<Rightarrow> ('k, 'v) Node list option" where
  "sl_link update newNode 0 h = Some h"
| "sl_link update newNode (Suc i) h =
     do {
       h \<leftarrow> sl_link update newNode i h;
       u \<leftarrow> (if i < length update then update ! i else None);
       next \<leftarrow> fwd h i u;
       h \<leftarrow> set_fwd h i newNode next;
       set_fwd h i u (Some newNode)
     }"

text \<open>\<open>for (i = currentLevel + 1; i <= newLevel; ++i) update[i] = head;\<close>\<close>

definition sl_fill :: "nat \<Rightarrow> nat \<Rightarrow> nat \<Rightarrow> nat option list \<Rightarrow> nat option list" where
  "sl_fill head currentLevel newLevel update =
     fold (\<lambda>i update. update[i := Some head]) [currentLevel + 1..<newLevel + 1] update"

definition sl_insert ::
  "('k \<Rightarrow> 'k \<Rightarrow> bool) \<Rightarrow> ('k, 'v) SkipList \<Rightarrow> 'k \<Rightarrow> 'v \<Rightarrow> (bool \<times> ('k, 'v) SkipList) option" where
  "sl_insert lt sl key value =
     do {
       (cur, update) \<leftarrow> sl_trace lt (sl_mem sl) key (sl_currentLevel sl) (sl_head sl)
                           (replicate (sl_maxLevel sl + 1) None);
       cur \<leftarrow> fwd (sl_mem sl) 0 cur;
       hit \<leftarrow> sl_hit lt (sl_mem sl) key cur;
       if hit then Some (False, sl)
       else do {
         let (newLevel, sl) = sl_randomLevel sl;
         let update = sl_fill (sl_head sl) (sl_currentLevel sl) newLevel update;
         let newNode = length (sl_mem sl);
         h \<leftarrow> sl_link update newNode (newLevel + 1) (sl_mem sl @ [new_node key value newLevel]);
         Some (True, sl\<lparr>sl_currentLevel := max newLevel (sl_currentLevel sl), sl_mem := h, sl_size := sl_size sl + 1\<rparr>)
       }
     }"

text \<open>The unlink loop stops at the first level that does not hold the node.\<close>

fun sl_unlink ::
  "nat option list \<Rightarrow> nat \<Rightarrow> nat list \<Rightarrow> ('k, 'v) Node list \<Rightarrow> ('k, 'v) Node list option" where
  "sl_unlink update cur [] h = Some h"
| "sl_unlink update cur (i # is) h =
     do {
       u \<leftarrow> (if i < length update then update ! i else None);
       next \<leftarrow> fwd h i u;
       if next \<noteq> Some cur then Some h
       else do {
         p \<leftarrow> fwd h i cur;
         h \<leftarrow> set_fwd h i u p;
         sl_unlink update cur is h
       }
     }"

fun sl_shrink :: "('k, 'v) Node list \<Rightarrow> nat \<Rightarrow> nat \<Rightarrow> nat option" where
  "sl_shrink h head 0 = Some 0"
| "sl_shrink h head (Suc l) =
     do { next \<leftarrow> fwd h (Suc l) head; if next = None then sl_shrink h head l else Some (Suc l) }"

definition sl_remove ::
  "('k \<Rightarrow> 'k \<Rightarrow> bool) \<Rightarrow> ('k, 'v) SkipList \<Rightarrow> 'k \<Rightarrow> (bool \<times> ('k, 'v) SkipList) option" where
  "sl_remove lt sl key =
     do {
       (cur, update) \<leftarrow> sl_trace lt (sl_mem sl) key (sl_currentLevel sl) (sl_head sl)
                           (replicate (sl_maxLevel sl + 1) None);
       cur \<leftarrow> fwd (sl_mem sl) 0 cur;
       hit \<leftarrow> sl_hit lt (sl_mem sl) key cur;
       if \<not> hit then Some (False, sl)
       else do {
         c \<leftarrow> cur;
         h \<leftarrow> sl_unlink update c [0..<sl_currentLevel sl + 1] (sl_mem sl);
         l \<leftarrow> sl_shrink h (sl_head sl) (sl_currentLevel sl);
         Some (True, sl\<lparr>sl_currentLevel := l, sl_mem := h, sl_size := sl_size sl - 1\<rparr>)
       }
     }"

definition sl_best :: "('k, 'v) SkipList \<Rightarrow> nat option option" where
  "sl_best sl = fwd (sl_mem sl) 0 (sl_head sl)"

definition sl_getSize :: "('k, 'v) SkipList \<Rightarrow> int" where
  "sl_getSize sl = sl_size sl"

section \<open>Chains of pointers\<close>

fun linked :: "(nat \<Rightarrow> nat option option) \<Rightarrow> nat \<Rightarrow> nat list \<Rightarrow> bool" where
  "linked f a [] \<longleftrightarrow> f a = Some None"
| "linked f a (b # bs) \<longleftrightarrow> f a = Some (Some b) \<and> linked f b bs"

fun follow :: "(nat \<Rightarrow> nat option option) \<Rightarrow> nat \<Rightarrow> nat \<Rightarrow> nat list" where
  "follow f 0 a = []"
| "follow f (Suc n) a = (case f a of Some (Some b) \<Rightarrow> b # follow f n b | _ \<Rightarrow> [])"

lemma linked_follow: "linked f a bs \<Longrightarrow> length bs \<le> n \<Longrightarrow> follow f n a = bs"
proof (induction bs arbitrary: a n)
  case Nil
  then show ?case by (cases n) auto
next
  case (Cons b bs)
  then show ?case by (cases n) auto
qed

lemma linked_head: "linked f a bs \<Longrightarrow> f a \<noteq> None"
  by (cases bs) auto

lemma linked_cong: "(\<And>x. x \<in> set (a # bs) \<Longrightarrow> f x = g x) \<Longrightarrow> linked f a bs = linked g a bs"
  by (induction bs arbitrary: a) auto

lemma linked_append: "linked f a (xs @ ys) \<Longrightarrow> linked f (last (a # xs)) ys"
  by (induction xs arbitrary: a) auto

lemma linked_next: "linked f a (xs @ ys) \<Longrightarrow> f (last (a # xs)) = Some (case ys of [] \<Rightarrow> None | b # _ \<Rightarrow> Some b)"
  by (drule linked_append) (cases ys; simp)

lemma linked_from:
  assumes "linked f a (xs @ ys)" "c \<in> set (a # xs)"
  obtains zs where "linked f c (zs @ ys)" "last (c # zs) = last (a # xs)" "set zs \<subseteq> set xs"
proof (cases "c = a")
  case True
  with assms that show thesis by blast
next
  case False
  with assms(2) obtain us zs where xs: "xs = us @ c # zs" by (auto dest: split_list)
  with assms(1) have "linked f a ((us @ [c]) @ zs @ ys)" by simp
  from linked_append [OF this] show thesis by (intro that [of zs]) (auto simp: xs)
qed

lemma distinct_last: "distinct (a # b # xs) \<Longrightarrow> a \<noteq> last (b # xs)"
  using last_in_set [of "b # xs"] by auto

lemma linked_insert:
  assumes "linked f a (xs @ ys)" "distinct (a # xs @ ys)" "n \<notin> set (a # xs @ ys)"
    and "f' (last (a # xs)) = Some (Some n)" "f' n = f (last (a # xs))"
    and "\<And>x. x \<in> set (a # xs @ ys) \<Longrightarrow> x \<noteq> last (a # xs) \<Longrightarrow> f' x = f x"
  shows "linked f' a (xs @ n # ys)"
  using assms
proof (induction xs arbitrary: a)
  case Nil
  have "linked f' c zs = linked f c zs" if "ys = c # zs" for c zs
    by (rule linked_cong) (use Nil that in auto)
  with Nil show ?case by (cases ys) auto
next
  case (Cons b xs)
  from Cons.prems(2) have "a \<noteq> last (b # xs)" by (intro distinct_last) auto
  then have "f' a = f a" using Cons.prems(6) [of a] by simp
  moreover have "linked f' b (xs @ n # ys)"
    by (rule Cons.IH) (use Cons.prems in auto)
  ultimately show ?case using Cons.prems(1) by simp
qed

lemma linked_remove:
  assumes "linked f a (xs @ b # ys)" "distinct (a # xs @ b # ys)"
    and "f' (last (a # xs)) = f b"
    and "\<And>x. x \<in> set (a # xs @ ys) \<Longrightarrow> x \<noteq> last (a # xs) \<Longrightarrow> f' x = f x"
  shows "linked f' a (xs @ ys)"
  using assms
proof (induction xs arbitrary: a)
  case Nil
  have "linked f' c zs = linked f c zs" if "ys = c # zs" for c zs
    by (rule linked_cong) (use Nil that in auto)
  with Nil show ?case by (cases ys) auto
next
  case (Cons c xs)
  from Cons.prems(2) have "a \<noteq> last (c # xs)" by (intro distinct_last) auto
  then have "f' a = f a" using Cons.prems(4) [of a] by simp
  moreover have "linked f' c (xs @ ys)"
    by (rule Cons.IH) (use Cons.prems in auto)
  ultimately show ?case using Cons.prems(1) by simp
qed

section \<open>The invariant\<close>

text \<open>Two memories with the same nodes, keys, values and tower heights.\<close>

definition same_shape :: "('k, 'v) Node list \<Rightarrow> ('k, 'v) Node list \<Rightarrow> bool" where
  "same_shape h h' \<longleftrightarrow> length h' = length h \<and>
     (\<forall>a<length h. nd_key (h' ! a) = nd_key (h ! a) \<and> nd_value (h' ! a) = nd_value (h ! a) \<and>
        length (nd_forward (h' ! a)) = length (nd_forward (h ! a)))"

definition tall :: "('k, 'v) Node list \<Rightarrow> nat \<Rightarrow> nat \<Rightarrow> bool" where
  "tall h i a \<longleftrightarrow> i < length (nd_forward (h ! a))"

text \<open>\<open>ns\<close>: the addresses on the bottom level. On every level the nodes tall enough for it are chained
  from the head, in the order of the bottom level.\<close>

definition sl_inv :: "('k \<Rightarrow> 'k \<Rightarrow> bool) \<Rightarrow> ('k, 'v) SkipList \<Rightarrow> nat list \<Rightarrow> bool" where
  "sl_inv lt sl ns \<longleftrightarrow>
     sl_head sl < length (sl_mem sl) \<and>
     length (nd_forward (sl_mem sl ! sl_head sl)) = sl_maxLevel sl + 1 \<and>
     sl_currentLevel sl \<le> sl_maxLevel sl \<and>
     distinct (sl_head sl # ns) \<and>
     (\<forall>a\<in>set ns. a < length (sl_mem sl) \<and> nd_forward (sl_mem sl ! a) \<noteq> [] \<and>
        length (nd_forward (sl_mem sl ! a)) \<le> sl_currentLevel sl + 1) \<and>
     sorted_wrt lt (map (\<lambda>a. nd_key (sl_mem sl ! a)) ns) \<and>
     (\<forall>i. i \<le> sl_maxLevel sl \<longrightarrow> linked (fwd (sl_mem sl) i) (sl_head sl) (filter (tall (sl_mem sl) i) ns)) \<and>
     sl_size sl = int (length ns)"

definition sl_addrs :: "('k, 'v) SkipList \<Rightarrow> nat list" where
  "sl_addrs sl = follow (fwd (sl_mem sl) 0) (length (sl_mem sl)) (sl_head sl)"

definition sl_pair :: "('k, 'v) Node list \<Rightarrow> nat \<Rightarrow> 'k \<times> 'v" where
  "sl_pair h a = (nd_key (h ! a), nd_value (h ! a))"

definition sl_abs :: "('k, 'v) SkipList \<Rightarrow> ('k, 'v) std_map" where
  "sl_abs sl = map (sl_pair (sl_mem sl)) (sl_addrs sl)"

definition sl_ok :: "('k \<Rightarrow> 'k \<Rightarrow> bool) \<Rightarrow> ('k, 'v) SkipList \<Rightarrow> bool" where
  "sl_ok lt sl \<longleftrightarrow> sl_inv lt sl (sl_addrs sl)"

lemma sl_invD:
  assumes "sl_inv lt sl ns"
  shows "sl_head sl < length (sl_mem sl)" "length (nd_forward (sl_mem sl ! sl_head sl)) = sl_maxLevel sl + 1"
    "sl_currentLevel sl \<le> sl_maxLevel sl" "distinct ns" "sl_head sl \<notin> set ns"
    "\<And>a. a \<in> set ns \<Longrightarrow> a < length (sl_mem sl)" "\<And>a. a \<in> set ns \<Longrightarrow> nd_forward (sl_mem sl ! a) \<noteq> []"
    "\<And>a. a \<in> set ns \<Longrightarrow> length (nd_forward (sl_mem sl ! a)) \<le> sl_currentLevel sl + 1"
    "sorted_wrt lt (map (\<lambda>a. nd_key (sl_mem sl ! a)) ns)"
    "\<And>i. i \<le> sl_maxLevel sl \<Longrightarrow> linked (fwd (sl_mem sl) i) (sl_head sl) (filter (tall (sl_mem sl) i) ns)"
    "sl_size sl = int (length ns)"
  using assms by (auto simp: sl_inv_def)

lemma tall_0: "sl_inv lt sl ns \<Longrightarrow> set xs \<subseteq> set ns \<Longrightarrow> filter (tall (sl_mem sl) 0) xs = xs"
  by (auto simp: tall_def filter_id_conv dest: sl_invD(7))

lemma sl_inv_addrs: "sl_inv lt sl ns \<Longrightarrow> sl_addrs sl = ns"
proof -
  assume inv: "sl_inv lt sl ns"
  have "set ns \<subseteq> {..<length (sl_mem sl)}" using sl_invD(6) [OF inv] by auto
  then have "length ns \<le> length (sl_mem sl)"
    using card_mono [of "{..<length (sl_mem sl)}" "set ns"] distinct_card [OF sl_invD(4) [OF inv]] by simp
  with sl_invD(10) [OF inv, of 0] tall_0 [OF inv, of ns] show ?thesis
    by (simp add: sl_addrs_def linked_follow)
qed

lemma sl_inv_abs: "sl_inv lt sl ns \<Longrightarrow> sl_abs sl = map (sl_pair (sl_mem sl)) ns"
  by (simp add: sl_abs_def sl_inv_addrs)

lemma sl_inv_ok: "sl_inv lt sl ns \<Longrightarrow> sl_ok lt sl"
  by (simp add: sl_ok_def sl_inv_addrs)

lemma sl_ok_sorted: "sl_ok lt sl \<Longrightarrow> std_sorted lt (sl_abs sl)"
  unfolding sl_ok_def by (frule sl_invD(9)) (simp add: std_sorted_def sl_abs_def comp_def sl_pair_def)

lemma sl_new_ok: "sl_ok lt (sl_new k0 v0 maxN coins)" "sl_abs (sl_new k0 v0 maxN coins) = []"
proof -
  have "sl_inv lt (sl_new k0 v0 maxN coins) []"
    by (simp add: sl_inv_def sl_new_def new_node_def fwd_def del: replicate_Suc)
  then show "sl_ok lt (sl_new k0 v0 maxN coins)" "sl_abs (sl_new k0 v0 maxN coins) = []"
    by (simp_all add: sl_inv_ok sl_inv_abs)
qed

lemma fwd_set_fwd:
  "set_fwd h i a p = Some h' \<Longrightarrow> fwd h' j x = (if j = i \<and> x = a then Some p else fwd h j x)"
  by (auto simp: set_fwd_def fwd_def nth_list_update split: if_splits)

lemma set_fwd_shape: "set_fwd h i a p = Some h' \<Longrightarrow> same_shape h h'"
  by (auto simp: set_fwd_def same_shape_def nth_list_update split: if_splits)

lemma set_fwd_exists: "fwd h i a \<noteq> None \<Longrightarrow> \<exists>h'. set_fwd h i a p = Some h'"
  by (auto simp: set_fwd_def fwd_def split: if_splits)

lemma same_shape_trans [trans]: "same_shape h h' \<Longrightarrow> same_shape h' h'' \<Longrightarrow> same_shape h h''"
  by (auto simp: same_shape_def)

lemma same_shape_refl [simp]: "same_shape h h"
  by (simp add: same_shape_def)

lemma same_shape_tall: "same_shape h h' \<Longrightarrow> a < length h \<Longrightarrow> tall h' i a = tall h i a"
  by (simp add: same_shape_def tall_def)

lemma same_shape_pair: "same_shape h h' \<Longrightarrow> a < length h \<Longrightarrow> sl_pair h' a = sl_pair h a"
  by (simp add: same_shape_def sl_pair_def)

section \<open>Searching\<close>

text \<open>A key splits the bottom level; \<open>sl_pred\<close> is the last node before the key on a level.\<close>

definition splits :: "('k \<Rightarrow> 'k \<Rightarrow> bool) \<Rightarrow> ('k, 'v) Node list \<Rightarrow> 'k \<Rightarrow> nat list \<Rightarrow> nat list \<Rightarrow> bool" where
  "splits lt h k xs ys \<longleftrightarrow>
     (\<forall>a\<in>set xs. lt (nd_key (h ! a)) k) \<and> (\<forall>a\<in>set ys. \<not> lt (nd_key (h ! a)) k)"

definition sl_pred :: "('k, 'v) SkipList \<Rightarrow> nat list \<Rightarrow> nat \<Rightarrow> nat" where
  "sl_pred sl xs i = last (sl_head sl # filter (tall (sl_mem sl) i) xs)"

definition present :: "('k, 'v) Node list \<Rightarrow> 'k \<Rightarrow> nat list \<Rightarrow> bool" where
  "present h k ys \<longleftrightarrow> (case ys of [] \<Rightarrow> False | b # _ \<Rightarrow> nd_key (h ! b) = k)"

lemma walk_chain:
  assumes "linked (fwd h i) c (zs @ ws)" "splits lt h k zs ws" "\<forall>a\<in>set (zs @ ws). a < length h"
  shows "sl_walk lt h i k c = Some (last (c # zs))"
  using assms
proof (induction zs arbitrary: c)
  case Nil
  then show ?case by (cases ws) (auto simp: sl_walk.simps [of lt h i k c] node_at_def splits_def)
next
  case (Cons z zs)
  then have "sl_walk lt h i k z = Some (last (z # zs))" by (intro Cons.IH) (auto simp: splits_def)
  with Cons.prems show ?case by (auto simp: sl_walk.simps [of lt h i k c] node_at_def splits_def)
qed

lemma sl_pred_in: "sl_pred sl xs i \<in> set (sl_head sl # filter (tall (sl_mem sl) i) xs)"
  unfolding sl_pred_def by (rule last_in_set) simp

lemma sl_pred_lower:
  "sl_pred sl xs (Suc i) \<in> set (sl_head sl # filter (tall (sl_mem sl) i) xs)"
  using sl_pred_in [of sl xs "Suc i"] by (auto simp: tall_def)

lemma walk_level:
  assumes inv: "sl_inv lt sl (xs @ ys)" and sp: "splits lt (sl_mem sl) k xs ys" and i: "i \<le> sl_maxLevel sl"
    and c: "c \<in> set (sl_head sl # filter (tall (sl_mem sl) i) xs)"
  shows "sl_walk lt (sl_mem sl) i k c = Some (sl_pred sl xs i)"
proof -
  let ?h = "sl_mem sl"
  have "linked (fwd ?h i) (sl_head sl) (filter (tall ?h i) xs @ filter (tall ?h i) ys)"
    using sl_invD(10) [OF inv i] by simp
  from this c obtain zs where zs: "linked (fwd ?h i) c (zs @ filter (tall ?h i) ys)"
    "last (c # zs) = sl_pred sl xs i" "set zs \<subseteq> set (filter (tall ?h i) xs)"
    unfolding sl_pred_def by (rule linked_from)
  have "splits lt ?h k zs (filter (tall ?h i) ys)" using sp zs(3) by (auto simp: splits_def)
  moreover have "\<forall>a\<in>set (zs @ filter (tall ?h i) ys). a < length ?h"
    using sl_invD(6) [OF inv] zs(3) by auto
  ultimately show ?thesis using walk_chain [OF zs(1)] zs(2) by simp
qed

lemma seek_pred:
  assumes "sl_inv lt sl (xs @ ys)" "splits lt (sl_mem sl) k xs ys"
  shows "i \<le> sl_maxLevel sl \<Longrightarrow> c \<in> set (sl_head sl # filter (tall (sl_mem sl) i) xs) \<Longrightarrow>
    sl_seek lt (sl_mem sl) k i c = Some (sl_pred sl xs 0)"
proof (induction i arbitrary: c)
  case (Suc i)
  then show ?case using walk_level [OF assms Suc.prems] sl_pred_lower [of sl xs i] by simp
qed (simp add: walk_level [OF assms])

lemma trace_pred:
  assumes "sl_inv lt sl (xs @ ys)" "splits lt (sl_mem sl) k xs ys"
  shows "i \<le> sl_maxLevel sl \<Longrightarrow> c \<in> set (sl_head sl # filter (tall (sl_mem sl) i) xs) \<Longrightarrow>
    i < length upd \<Longrightarrow>
    \<exists>upd'. sl_trace lt (sl_mem sl) k i c upd = Some (sl_pred sl xs 0, upd') \<and> length upd' = length upd \<and>
      (\<forall>j\<le>i. upd' ! j = Some (sl_pred sl xs j)) \<and> (\<forall>j>i. upd' ! j = upd ! j)"
proof (induction i arbitrary: c upd)
  case 0
  then show ?case using walk_level [OF assms, of 0 c] by (simp add: vec_set_def)
next
  case (Suc i)
  let ?u = "upd[Suc i := Some (sl_pred sl xs (Suc i))]"
  from Suc.prems sl_pred_lower [of sl xs i] obtain upd' where
    u: "sl_trace lt (sl_mem sl) k i (sl_pred sl xs (Suc i)) ?u = Some (sl_pred sl xs 0, upd')"
      "length upd' = length ?u" "\<forall>j\<le>i. upd' ! j = Some (sl_pred sl xs j)" "\<forall>j>i. upd' ! j = ?u ! j"
    using Suc.IH [of "sl_pred sl xs (Suc i)" ?u] by auto
  have "upd' ! j = Some (sl_pred sl xs j)" if "j \<le> Suc i" for j
    using u(3,4) that Suc.prems(3) by (cases "j = Suc i") auto
  with u walk_level [OF assms Suc.prems(1,2)] Suc.prems(3) show ?case
    by (intro exI [of _ upd']) (simp add: vec_set_def)
qed

lemma pred_next:
  assumes "sl_inv lt sl (xs @ ys)" "i \<le> sl_maxLevel sl"
  shows "fwd (sl_mem sl) i (sl_pred sl xs i) =
    Some (case filter (tall (sl_mem sl) i) ys of [] \<Rightarrow> None | b # _ \<Rightarrow> Some b)"
  using linked_next [of "fwd (sl_mem sl) i" "sl_head sl" "filter (tall (sl_mem sl) i) xs" "filter (tall (sl_mem sl) i) ys"]
    sl_invD(10) [OF assms] by (simp add: sl_pred_def)

lemma bottom_next:
  assumes "sl_inv lt sl (xs @ ys)"
  shows "fwd (sl_mem sl) 0 (sl_pred sl xs 0) = Some (case ys of [] \<Rightarrow> None | b # _ \<Rightarrow> Some b)"
  using pred_next [OF assms, of 0] tall_0 [OF assms, of ys] by simp

lemma sorted_dropWhile:
  assumes "sorted_wrt R xs" "\<And>a b. R a b \<Longrightarrow> P b \<Longrightarrow> P a"
  shows "\<forall>a\<in>set (dropWhile P xs). \<not> P a"
proof (cases "dropWhile P xs")
  case (Cons y ys)
  then have "\<not> P y" by (simp add: dropWhile_eq_Cons_conv)
  moreover have "R y b" if "b \<in> set ys" for b
    using assms(1) takeWhile_dropWhile_id [of P xs] that unfolding Cons
    by (metis list.set_intros(1) sorted_wrt.simps(2) sorted_wrt_append)
  ultimately show ?thesis using assms(2) [of y] unfolding Cons by auto
qed (simp only: list.set ball_simps)

text \<open>The operations ask the key order for what \<^verbatim>\<open>std::map\<close> asks of its comparator.\<close>

locale ordered_keys = compare
begin

lemma inv_splits:
  assumes "sl_inv lt sl ns"
  obtains xs ys where "ns = xs @ ys" "splits lt (sl_mem sl) k xs ys"
proof -
  let ?P = "\<lambda>a. lt (nd_key (sl_mem sl ! a)) k"
  have "sorted_wrt (\<lambda>a b. lt (nd_key (sl_mem sl ! a)) (nd_key (sl_mem sl ! b))) ns"
    using sl_invD(9) [OF assms] by (simp add: sorted_wrt_map)
  then have d: "\<forall>a\<in>set (dropWhile ?P ns). \<not> ?P a" by (rule sorted_dropWhile) (rule lt_trans)
  have "splits lt (sl_mem sl) k (takeWhile ?P ns) (dropWhile ?P ns)"
    using d set_takeWhileD [of _ ?P ns] unfolding splits_def by blast
  then show thesis by (intro that [of "takeWhile ?P ns" "dropWhile ?P ns"]) simp_all
qed

text \<open>Whether the node after the split carries the key decides presence.\<close>

lemma split_hit:
  assumes "splits lt h k xs ys" "\<forall>a\<in>set ys. a < length h"
  shows "sl_hit lt h k (case ys of [] \<Rightarrow> None | b # _ \<Rightarrow> Some b) = Some (present h k ys)"
proof (cases ys)
  case (Cons b zs)
  with assms have "\<not> lt (nd_key (h ! b)) k" "b < length h" by (simp_all add: splits_def)
  then show ?thesis
    using Cons lt_total [of k "nd_key (h ! b)"] lt_irrefl by (auto simp: sl_hit_def node_at_def present_def)
qed (simp add: sl_hit_def present_def)

lemma split_absent:
  assumes "sl_inv lt sl (xs @ ys)" "splits lt (sl_mem sl) k xs ys" "\<not> present (sl_mem sl) k ys" "a \<in> set ys"
  shows "lt k (nd_key (sl_mem sl ! a))"
proof -
  obtain b zs where ys: "ys = b # zs" using assms(4) by (cases ys) auto
  have "lt k (nd_key (sl_mem sl ! b))"
    using assms(2,3) lt_total [of k "nd_key (sl_mem sl ! b)"] by (auto simp: ys splits_def present_def)
  moreover have "a = b \<or> lt (nd_key (sl_mem sl ! b)) (nd_key (sl_mem sl ! a))"
    using sl_invD(9) [OF assms(1)] assms(4) by (auto simp: ys sorted_wrt_append)
  ultimately show ?thesis using lt_trans by blast
qed

end

section \<open>Linking and unlinking a tower\<close>

lemma filter_above:
  "sl_inv lt sl ns \<Longrightarrow> set zs \<subseteq> set ns \<Longrightarrow> sl_currentLevel sl < i \<Longrightarrow> filter (tall (sl_mem sl) i) zs = []"
  by (fastforce simp: filter_empty_conv tall_def dest: sl_invD(8))

lemma link_tower:
  assumes "\<And>i. i < n \<Longrightarrow> i < length upd \<and> upd ! i = Some (p i) \<and> fwd h i (p i) \<noteq> None \<and>
      fwd h i c \<noteq> None \<and> p i \<noteq> c"
  shows "\<exists>h'. sl_link upd c n h = Some h' \<and> same_shape h h' \<and>
    (\<forall>i a. fwd h' i a =
       (if i < n then (if a = c then fwd h i (p i) else if a = p i then Some (Some c) else fwd h i a)
        else fwd h i a))"
  using assms
proof (induction n)
  case (Suc n)
  then obtain h1 where h1: "sl_link upd c n h = Some h1" "same_shape h h1"
    "\<forall>i a. fwd h1 i a =
       (if i < n then (if a = c then fwd h i (p i) else if a = p i then Some (Some c) else fwd h i a)
        else fwd h i a)" by (metis less_Suc_eq)
  from Suc.prems [of n] have n: "n < length upd" "upd ! n = Some (p n)" "p n \<noteq> c"
    "fwd h1 n c \<noteq> None" and "fwd h1 n (p n) \<noteq> None" by (simp_all add: h1(3))
  then obtain x where x: "fwd h1 n (p n) = Some x" by blast
  obtain h2 where h2: "set_fwd h1 n c x = Some h2" using set_fwd_exists [OF n(4)] by blast
  have "fwd h2 n (p n) \<noteq> None" using fwd_set_fwd [OF h2] x by simp
  then obtain h3 where h3: "set_fwd h2 n (p n) (Some c) = Some h3" using set_fwd_exists by blast
  have "sl_link upd c (Suc n) h = Some h3" using h1(1) n x h2 h3 by simp
  moreover have "same_shape h h3"
    using h1(2) set_fwd_shape [OF h2] set_fwd_shape [OF h3] by (blast intro: same_shape_trans)
  moreover have "fwd h3 i a =
       (if i < Suc n then (if a = c then fwd h i (p i) else if a = p i then Some (Some c) else fwd h i a)
        else fwd h i a)" for i a
    using x n(3) h1(3) fwd_set_fwd [OF h2, of i a] fwd_set_fwd [OF h3, of i a] by (auto simp: less_Suc_eq)
  ultimately show ?case by blast
qed simp

lemma unlink_tower:
  assumes "j \<le> n"
    and "\<And>i. j \<le> i \<Longrightarrow> i < n \<Longrightarrow> i < length upd \<and> upd ! i = Some (p i) \<and> p i \<noteq> c \<and> fwd h i (p i) \<noteq> None"
    and "\<And>i. j \<le> i \<Longrightarrow> i < n \<Longrightarrow> fwd h i (p i) = Some (Some c) \<longleftrightarrow> i < t"
    and "\<And>i. j \<le> i \<Longrightarrow> i < t \<Longrightarrow> fwd h i c \<noteq> None"
  shows "\<exists>h'. sl_unlink upd c [j..<n] h = Some h' \<and> same_shape h h' \<and>
    (\<forall>i a. fwd h' i a = (if j \<le> i \<and> i < n \<and> i < t \<and> a = p i then fwd h i c else fwd h i a))"
  using assms
proof (induction "n - j" arbitrary: j h)
  case 0
  then show ?case by (intro exI [of _ h]) auto
next
  case (Suc m)
  then have j: "j < n" "[j..<n] = j # [Suc j..<n]" by (simp_all add: upt_conv_Cons)
  from Suc.prems(2) [of j] j have u: "j < length upd" "upd ! j = Some (p j)" "p j \<noteq> c" by auto
  from Suc.prems(2) [of j] j obtain x where x: "fwd h j (p j) = Some x" by auto
  show ?case
  proof (cases "j < t")
    case False
    with Suc.prems(3) [of j] j x have "x \<noteq> Some c" by auto
    then show ?thesis using u x j(2) False by (intro exI [of _ h]) auto
  next
    case True
    with Suc.prems(3) [of j] j x have xc: "x = Some c" by auto
    from Suc.prems(4) [of j] True obtain y where y: "fwd h j c = Some y" by auto
    obtain h1 where h1: "set_fwd h j (p j) y = Some h1" using set_fwd_exists [of h j "p j"] x by blast
    note f1 = fwd_set_fwd [OF h1]
    have "\<exists>h'. sl_unlink upd c [Suc j..<n] h1 = Some h' \<and> same_shape h1 h' \<and>
      (\<forall>i a. fwd h' i a = (if Suc j \<le> i \<and> i < n \<and> i < t \<and> a = p i then fwd h1 i c else fwd h1 i a))"
      by (rule Suc.hyps(1)) (use Suc.hyps(2) Suc.prems j f1 in auto)
    then obtain h' where h': "sl_unlink upd c [Suc j..<n] h1 = Some h'" "same_shape h1 h'"
      "\<forall>i a. fwd h' i a = (if Suc j \<le> i \<and> i < n \<and> i < t \<and> a = p i then fwd h1 i c else fwd h1 i a)"
      by blast
    have "sl_unlink upd c [j..<n] h = Some h'" using u x xc y h1 h'(1) j(2) by simp
    moreover have "same_shape h h'" using set_fwd_shape [OF h1] h'(2) by (rule same_shape_trans)
    moreover have "fwd h' i a = (if j \<le> i \<and> i < n \<and> i < t \<and> a = p i then fwd h i c else fwd h i a)" for i a
      using h'(3) f1 y True j(1) u(3) by (cases "i = j") auto
    ultimately show ?thesis by blast
  qed
qed

lemma shrink_levels:
  "\<forall>i\<le>l. fwd h i head \<noteq> None \<Longrightarrow>
     \<exists>l'. sl_shrink h head l = Some l' \<and> l' \<le> l \<and> (\<forall>i. l' < i \<longrightarrow> i \<le> l \<longrightarrow> fwd h i head = Some None)"
proof (induction l)
  case (Suc l)
  then obtain x where x: "fwd h (Suc l) head = Some x" by auto
  show ?case
  proof (cases x)
    case None
    from Suc obtain l' where "sl_shrink h head l = Some l'" "l' \<le> l"
      "\<forall>i. l' < i \<longrightarrow> i \<le> l \<longrightarrow> fwd h i head = Some None" by auto
    with x None show ?thesis by (intro exI [of _ l']) (auto simp: le_Suc_eq)
  next
    case (Some b)
    with x show ?thesis by (intro exI [of _ "Suc l"]) auto
  qed
qed simp

text \<open>The memory after linking a new tower of height \<open>L\<close> behind the nodes \<open>sl_pred sl xs\<close>.\<close>

definition tower_linked :: "('k, 'v) SkipList \<Rightarrow> nat list \<Rightarrow> 'k \<Rightarrow> 'v \<Rightarrow> nat \<Rightarrow> ('k, 'v) Node list \<Rightarrow> bool" where
  "tower_linked sl xs k v L h \<longleftrightarrow>
     same_shape (sl_mem sl @ [new_node k v L]) h \<and>
     (\<forall>i a. fwd h i a =
       (if i \<le> L then (if a = length (sl_mem sl) then fwd (sl_mem sl) i (sl_pred sl xs i)
          else if a = sl_pred sl xs i then Some (Some (length (sl_mem sl))) else fwd (sl_mem sl) i a)
        else if a = length (sl_mem sl) then None else fwd (sl_mem sl) i a))"

lemma tower_linkedD:
  assumes "tower_linked sl xs k v L h"
  shows "fwd h i a =
       (if i \<le> L then (if a = length (sl_mem sl) then fwd (sl_mem sl) i (sl_pred sl xs i)
          else if a = sl_pred sl xs i then Some (Some (length (sl_mem sl))) else fwd (sl_mem sl) i a)
        else if a = length (sl_mem sl) then None else fwd (sl_mem sl) i a)"
    "length h = Suc (length (sl_mem sl))"
    "b < length (sl_mem sl) \<Longrightarrow> nd_key (h ! b) = nd_key (sl_mem sl ! b)"
    "b < length (sl_mem sl) \<Longrightarrow> length (nd_forward (h ! b)) = length (nd_forward (sl_mem sl ! b))"
    "nd_key (h ! length (sl_mem sl)) = k" "length (nd_forward (h ! length (sl_mem sl))) = L + 1"
    "nd_value (h ! length (sl_mem sl)) = v"
    "b < length (sl_mem sl) \<Longrightarrow> nd_value (h ! b) = nd_value (sl_mem sl ! b)"
  using assms
  by (auto simp: tower_linked_def same_shape_def new_node_def nth_append less_Suc_eq)

lemma flip_loop_bound: "lvl \<le> maxLevel \<Longrightarrow> fst (flip_loop coins maxLevel flips lvl) \<le> maxLevel"
  by (induction coins maxLevel flips lvl rule: flip_loop.induct) (subst flip_loop.simps, auto)

lemma fill_heads:
  "sl_fill head cl nl upd = map (\<lambda>i. if cl < i \<and> i \<le> nl then Some head else upd ! i) [0..<length upd]"
proof -
  have "fold (\<lambda>i upd. upd[i := Some head]) is upd =
      map (\<lambda>i. if i \<in> set is then Some head else upd ! i) [0..<length upd]" for "is" and upd :: "nat option list"
  proof (induction "is" arbitrary: upd)
    case Nil
    then show ?case by (simp add: map_nth)
  next
    case (Cons i "is")
    then show ?case by (auto simp: nth_list_update intro!: nth_equalityI)
  qed
  from this [of "[cl + 1..<nl + 1]" upd] show ?thesis unfolding sl_fill_def by (auto intro!: map_cong)
qed

lemma pred_old: "sl_inv lt sl (xs @ ys) \<Longrightarrow> sl_pred sl xs i < length (sl_mem sl)"
  using sl_pred_in [of sl xs i] by (auto dest: sl_invD(1,6))

lemma link_new:
  assumes inv: "sl_inv lt sl (xs @ ys)" and L: "L \<le> sl_maxLevel sl"
    and upd: "length upd = sl_maxLevel sl + 1" "\<forall>i\<le> sl_currentLevel sl. upd ! i = Some (sl_pred sl xs i)"
  shows "\<exists>h. sl_link (sl_fill (sl_head sl) (sl_currentLevel sl) L upd) (length (sl_mem sl)) (L + 1)
      (sl_mem sl @ [new_node k v L]) = Some h \<and> tower_linked sl xs k v L h"
proof -
  let ?m = "sl_mem sl" and ?n = "length (sl_mem sl)"
  let ?upd = "sl_fill (sl_head sl) (sl_currentLevel sl) L upd"
  let ?h = "?m @ [new_node k v L]"
  have old: "fwd ?h i a = (if a = ?n then if i \<le> L then Some None else None else fwd ?m i a)" for i a
    by (auto simp: fwd_def nth_append new_node_def simp del: replicate_Suc)
  have u: "?upd ! i = Some (sl_pred sl xs i)" if "i \<le> L" for i
  proof (cases "i \<le> sl_currentLevel sl")
    case False
    then have "sl_pred sl xs i = sl_head sl" using filter_above [OF inv, of xs i] by (simp add: sl_pred_def)
    with False that L upd(1) show ?thesis by (simp add: fill_heads del: upt_Suc)
  qed (use that L upd in \<open>simp add: fill_heads del: upt_Suc\<close>)
  have "\<exists>h'. sl_link ?upd ?n (L + 1) ?h = Some h' \<and> same_shape ?h h' \<and>
    (\<forall>i a. fwd h' i a =
       (if i < L + 1 then (if a = ?n then fwd ?h i (sl_pred sl xs i) else if a = sl_pred sl xs i then Some (Some ?n) else fwd ?h i a)
        else fwd ?h i a))"
  proof (rule link_tower)
    fix i assume "i < L + 1"
    moreover have "i < length ?upd" using calculation L upd(1) by (simp add: fill_heads)
    ultimately show "i < length ?upd \<and> ?upd ! i = Some (sl_pred sl xs i) \<and> fwd ?h i (sl_pred sl xs i) \<noteq> None \<and>
        fwd ?h i ?n \<noteq> None \<and> sl_pred sl xs i \<noteq> ?n"
      using u [of i] pred_next [OF inv, of i] pred_old [OF inv, of i] L by (simp add: old)
  qed
  then obtain h' where h': "sl_link ?upd ?n (L + 1) ?h = Some h'" "same_shape ?h h'"
    "\<forall>i a. fwd h' i a =
       (if i < L + 1 then (if a = ?n then fwd ?h i (sl_pred sl xs i) else if a = sl_pred sl xs i then Some (Some ?n) else fwd ?h i a)
        else fwd ?h i a)" by blast
  have "tower_linked sl xs k v L h'"
    using h'(2,3) less_imp_neq [OF pred_old [OF inv]] by (auto simp: tower_linked_def old less_Suc_eq_le)
  with h'(1) show ?thesis by blast
qed

lemma unlink_node:
  assumes inv: "sl_inv lt sl (xs @ b # zs)"
    and upd: "length upd = sl_maxLevel sl + 1" "\<forall>i\<le> sl_currentLevel sl. upd ! i = Some (sl_pred sl xs i)"
  shows "\<exists>h. sl_unlink upd b [0..<sl_currentLevel sl + 1] (sl_mem sl) = Some h \<and> same_shape (sl_mem sl) h \<and>
    (\<forall>i a. fwd h i a = (if i < length (nd_forward (sl_mem sl ! b)) \<and> a = sl_pred sl xs i
       then fwd (sl_mem sl) i b else fwd (sl_mem sl) i a))"
proof -
  let ?m = "sl_mem sl" and ?t = "length (nd_forward (sl_mem sl ! b))"
  have b: "b < length ?m" "?t \<le> sl_currentLevel sl + 1" using sl_invD(6,8) [OF inv, of b] by auto
  have next_b: "fwd ?m i (sl_pred sl xs i) = Some (Some b) \<longleftrightarrow> i < ?t" if "i \<le> sl_currentLevel sl" for i
  proof -
    have "b \<notin> set zs" using sl_invD(4) [OF inv] by simp
    then show ?thesis
      using pred_next [OF inv, of i] that sl_invD(3) [OF inv]
      by (auto simp: tall_def split: list.splits) (metis filter_eq_ConsD in_set_conv_decomp)
  qed
  have "\<exists>h. sl_unlink upd b [0..<sl_currentLevel sl + 1] ?m = Some h \<and> same_shape ?m h \<and>
    (\<forall>i a. fwd h i a = (if 0 \<le> i \<and> i < sl_currentLevel sl + 1 \<and> i < ?t \<and> a = sl_pred sl xs i
       then fwd ?m i b else fwd ?m i a))"
  proof (rule unlink_tower)
    fix i assume i: "i < sl_currentLevel sl + 1"
    have "sl_pred sl xs i \<noteq> b"
      using sl_pred_in [of sl xs i] sl_invD(4,5) [OF inv] by auto
    with i show "i < length upd \<and> upd ! i = Some (sl_pred sl xs i) \<and> sl_pred sl xs i \<noteq> b \<and> fwd ?m i (sl_pred sl xs i) \<noteq> None"
      using upd sl_invD(3) [OF inv] pred_next [OF inv, of i] by simp
  qed (use next_b b in \<open>auto simp: fwd_def\<close>)
  then obtain h where "sl_unlink upd b [0..<sl_currentLevel sl + 1] ?m = Some h" "same_shape ?m h"
    "\<forall>i a. fwd h i a = (if 0 \<le> i \<and> i < sl_currentLevel sl + 1 \<and> i < ?t \<and> a = sl_pred sl xs i
       then fwd ?m i b else fwd ?m i a)" by blast
  with b(2) show ?thesis by (intro exI [of _ h]) (auto simp del: upt_Suc)
qed

section \<open>The operations of a map\<close>

lemma inv_abs_keys: "sl_inv lt sl ns \<Longrightarrow> fst ` set (sl_abs sl) = (\<lambda>a. nd_key (sl_mem sl ! a)) ` set ns"
  by (simp add: sl_inv_abs image_image sl_pair_def)

text \<open>Writing a value through a node pointer changes nothing the invariant looks at.\<close>

lemma set_value_inv:
  assumes inv: "sl_inv lt sl ns" and a: "a < length (sl_mem sl)"
  shows "\<exists>sl'. sl_setValue sl a v = Some sl' \<and> sl_inv lt sl' ns \<and>
    sl_abs sl' = map (\<lambda>x. (nd_key (sl_mem sl ! x), if x = a then v else nd_value (sl_mem sl ! x))) ns"
proof -
  let ?h = "sl_mem sl"
  let ?h' = "?h[a := (?h ! a)\<lparr>nd_value := v\<rparr>]"
  have nth: "nd_key (?h' ! x) = nd_key (?h ! x)" "nd_forward (?h' ! x) = nd_forward (?h ! x)" for x
    using a by (auto simp: nth_list_update)
  have f: "fwd ?h' i = fwd ?h i" "tall ?h' i = tall ?h i" for i
    by (auto simp: fwd_def tall_def nth fun_eq_iff)
  have inv': "sl_inv lt (sl\<lparr>sl_mem := ?h'\<rparr>) ns"
    using inv by (simp add: sl_inv_def f nth)
  moreover have "sl_abs (sl\<lparr>sl_mem := ?h'\<rparr>) =
      map (\<lambda>x. (nd_key (?h ! x), if x = a then v else nd_value (?h ! x))) ns"
    unfolding sl_inv_abs [OF inv'] using sl_invD(6) [OF inv] by (auto simp: sl_pair_def nth nth_list_update)
  ultimately show ?thesis using a by (intro exI [of _ "sl\<lparr>sl_mem := ?h'\<rparr>"]) (simp add: sl_setValue_def)
qed

lemma best_node: "sl_inv lt sl ns \<Longrightarrow> sl_best sl = Some (case ns of [] \<Rightarrow> None | a # _ \<Rightarrow> Some a)"
  using bottom_next [of lt sl "[]" ns] by (simp add: sl_best_def sl_pred_def)

context ordered_keys
begin

lemma inv_map_of:
  assumes "sl_inv lt sl ns" "a \<in> set ns"
  shows "map_of (sl_abs sl) (nd_key (sl_mem sl ! a)) = Some (nd_value (sl_mem sl ! a))"
proof (rule map_of_is_SomeI)
  show "distinct (map fst (sl_abs sl))"
    by (rule sorted_distinct, rule sl_ok_sorted, rule sl_inv_ok [OF assms(1)])
qed (use assms in \<open>auto simp: sl_inv_abs sl_pair_def\<close>)

lemma absent_iff:
  assumes inv: "sl_inv lt sl (xs @ ys)" and sp: "splits lt (sl_mem sl) k xs ys"
  shows "map_of (sl_abs sl) k = None \<longleftrightarrow> \<not> present (sl_mem sl) k ys"
proof (cases "present (sl_mem sl) k ys")
  case True
  then show ?thesis by (auto simp: map_of_eq_None_iff inv_abs_keys [OF inv] present_def split: list.splits)
next
  case False
  have "k \<noteq> nd_key (sl_mem sl ! a)" if "a \<in> set (xs @ ys)" for a
  proof (cases "a \<in> set xs")
    case True
    then show ?thesis using sp lt_irrefl by (auto simp: splits_def)
  next
    case a: False
    then show ?thesis using split_absent [OF inv sp False, of a] that lt_irrefl by auto
  qed
  then show ?thesis using False by (auto simp: map_of_eq_None_iff inv_abs_keys [OF inv])
qed

lemma link_abs:
  assumes inv: "sl_inv lt sl (xs @ ys)" and sp: "splits lt (sl_mem sl) k xs ys"
    and absent: "\<not> present (sl_mem sl) k ys" and tower: "tower_linked sl xs k v L h"
  shows "map (sl_pair (sl_mem (sl\<lparr>sl_flips := fl, sl_currentLevel := cl, sl_mem := h, sl_size := sz\<rparr>)))
      (xs @ length (sl_mem sl) # ys) = std_put lt k v (map (sl_pair (sl_mem sl)) (xs @ ys))"
proof -
  let ?m = "sl_mem sl"
  have old: "map (sl_pair h) zs = map (sl_pair ?m) zs" if "set zs \<subseteq> set (xs @ ys)" for zs
    using that sl_invD(6) [OF inv] tower_linkedD(3,8) [OF tower] by (auto simp: sl_pair_def)
  have "std_put lt k v (map (sl_pair ?m) xs @ map (sl_pair ?m) ys) = map (sl_pair ?m) xs @ (k, v) # map (sl_pair ?m) ys"
    by (rule put_split) (use sp split_absent [OF inv sp absent] in \<open>auto simp: splits_def sl_pair_def\<close>)
  then show ?thesis using tower_linkedD(5,7) [OF tower] old [of xs] old [of ys] by (simp add: sl_pair_def)
qed

lemma find_refines:
  assumes inv: "sl_inv lt sl ns"
  shows "(sl_find lt sl k = Some None \<and> map_of (sl_abs sl) k = None) \<or>
    (\<exists>a\<in>set ns. sl_find lt sl k = Some (Some a) \<and> nd_key (sl_mem sl ! a) = k)"
proof -
  obtain xs ys where ns: "ns = xs @ ys" and sp: "splits lt (sl_mem sl) k xs ys"
    by (rule inv_splits [OF inv])
  note inv' = inv [unfolded ns]
  have "sl_seek lt (sl_mem sl) k (sl_currentLevel sl) (sl_head sl) = Some (sl_pred sl xs 0)"
    by (rule seek_pred [OF inv' sp sl_invD(3) [OF inv]]) simp
  moreover have "\<forall>a\<in>set ys. a < length (sl_mem sl)" using sl_invD(6) [OF inv] ns by auto
  ultimately have find: "sl_find lt sl k =
      Some (if present (sl_mem sl) k ys then (case ys of [] \<Rightarrow> None | b # _ \<Rightarrow> Some b) else None)"
    using split_hit [OF sp] by (simp add: sl_find_def bottom_next [OF inv'])
  then show ?thesis using absent_iff [OF inv' sp] ns by (auto simp: present_def split: list.splits)
qed

lemma set_value_refines:
  assumes inv: "sl_inv lt sl ns" and a: "a \<in> set ns"
  shows "\<exists>sl'. sl_setValue sl a v = Some sl' \<and> sl_inv lt sl' ns \<and>
    sl_abs sl' = std_put lt (nd_key (sl_mem sl ! a)) v (sl_abs sl)"
proof -
  obtain sl' where sl': "sl_setValue sl a v = Some sl'" "sl_inv lt sl' ns"
    "sl_abs sl' = map (\<lambda>x. (nd_key (sl_mem sl ! x), if x = a then v else nd_value (sl_mem sl ! x))) ns"
    using set_value_inv [OF inv sl_invD(6) [OF inv a]] by blast
  from a obtain us vs where ns: "ns = us @ a # vs" by (auto dest: split_list)
  have "a \<notin> set us" "a \<notin> set vs" using sl_invD(4) [OF inv] ns by auto
  then have abs': "sl_abs sl' = map (sl_pair (sl_mem sl)) us @ (nd_key (sl_mem sl ! a), v) # map (sl_pair (sl_mem sl)) vs"
    by (auto simp: sl'(3) ns sl_pair_def)
  have "\<forall>k\<in>fst ` set (map (sl_pair (sl_mem sl)) us). lt k (nd_key (sl_mem sl ! a))"
    using sl_invD(9) [OF inv] by (auto simp: ns sorted_wrt_append sl_pair_def)
  from put_replace [OF this] have "sl_abs sl' = std_put lt (nd_key (sl_mem sl ! a)) v (sl_abs sl)"
    by (simp add: abs' sl_inv_abs [OF inv] ns sl_pair_def)
  with sl' show ?thesis by blast
qed

lemma trace_update:
  assumes inv: "sl_inv lt sl (xs @ ys)" and sp: "splits lt (sl_mem sl) k xs ys"
  obtains upd where
    "sl_trace lt (sl_mem sl) k (sl_currentLevel sl) (sl_head sl) (replicate (sl_maxLevel sl + 1) None) =
       Some (sl_pred sl xs 0, upd)"
    "length upd = sl_maxLevel sl + 1" "\<forall>i\<le> sl_currentLevel sl. upd ! i = Some (sl_pred sl xs i)"
    "sl_hit lt (sl_mem sl) k (case ys of [] \<Rightarrow> None | b # _ \<Rightarrow> Some b) = Some (present (sl_mem sl) k ys)"
proof -
  have "\<forall>a\<in>set ys. a < length (sl_mem sl)" using sl_invD(6) [OF inv] by auto
  from split_hit [OF sp this] show thesis
    using trace_pred [OF inv sp sl_invD(3) [OF inv], of "sl_head sl" "replicate (sl_maxLevel sl + 1) None"]
      sl_invD(3) [OF inv] that by fastforce
qed

text \<open>Linking a new tower behind the split.\<close>

lemma link_chain:
  assumes inv: "sl_inv lt sl (xs @ ys)" and tower: "tower_linked sl xs k v L h" and i: "i \<le> sl_maxLevel sl"
  shows "linked (fwd h i) (sl_head sl) (filter (tall h i) (xs @ length (sl_mem sl) # ys))"
proof -
  let ?m = "sl_mem sl" and ?n = "length (sl_mem sl)"
  note f = tower_linkedD(1) [OF tower]
  have old: "a < ?n" if "a \<in> set (sl_head sl # xs @ ys)" for a
    using that sl_invD(1,6) [OF inv] by auto
  then have new_addr: "?n \<notin> set (sl_head sl # xs @ ys)" by blast
  have tall: "filter (tall h i) zs = filter (tall ?m i) zs" if "set zs \<subseteq> set (xs @ ys)" for zs
    using that old tower_linkedD(4) [OF tower] by (intro filter_cong) (auto simp: tall_def)
  have tall_new: "tall h i ?n \<longleftrightarrow> i \<le> L" by (auto simp: tall_def tower_linkedD(6) [OF tower])
  show ?thesis
  proof (cases "i \<le> L")
    case True
    have "linked (fwd h i) (sl_head sl) (filter (tall ?m i) xs @ ?n # filter (tall ?m i) ys)"
    proof (rule linked_insert)
      show "linked (fwd ?m i) (sl_head sl) (filter (tall ?m i) xs @ filter (tall ?m i) ys)"
        using sl_invD(10) [OF inv i] by simp
      show "distinct (sl_head sl # filter (tall ?m i) xs @ filter (tall ?m i) ys)"
        using sl_invD(4,5) [OF inv] by auto
      show "?n \<notin> set (sl_head sl # filter (tall ?m i) xs @ filter (tall ?m i) ys)" using new_addr by auto
      show "fwd h i (last (sl_head sl # filter (tall ?m i) xs)) = Some (Some ?n)"
        "fwd h i ?n = fwd ?m i (last (sl_head sl # filter (tall ?m i) xs))"
        unfolding sl_pred_def [symmetric] using True pred_old [OF inv, of i] by (simp_all add: f)
      show "fwd h i x = fwd ?m i x" if "x \<in> set (sl_head sl # filter (tall ?m i) xs @ filter (tall ?m i) ys)"
        "x \<noteq> last (sl_head sl # filter (tall ?m i) xs)" for x
      proof -
        have "x < ?n" by (rule old) (use that(1) in auto)
        with that(2) show ?thesis unfolding sl_pred_def [symmetric] by (simp add: f)
      qed
    qed
    with True show ?thesis by (simp add: tall tall_new)
  next
    case False
    then have "linked (fwd h i) (sl_head sl) (filter (tall ?m i) (xs @ ys)) =
        linked (fwd ?m i) (sl_head sl) (filter (tall ?m i) (xs @ ys))"
      by (intro linked_cong) (use False old in \<open>auto simp: f\<close>)
    with False sl_invD(10) [OF inv i] show ?thesis by (simp add: tall tall_new)
  qed
qed

lemma link_inv:
  assumes inv: "sl_inv lt sl (xs @ ys)" and sp: "splits lt (sl_mem sl) k xs ys"
    and absent: "\<not> present (sl_mem sl) k ys" and L: "L \<le> sl_maxLevel sl"
    and tower: "tower_linked sl xs k v L h"
  shows "sl_inv lt (sl\<lparr>sl_flips := fl, sl_currentLevel := max L (sl_currentLevel sl), sl_mem := h, sl_size := sl_size sl + 1\<rparr>)
    (xs @ length (sl_mem sl) # ys)"
proof -
  let ?m = "sl_mem sl" and ?n = "length (sl_mem sl)"
  note T = tower_linkedD [OF tower]
  have old: "a < ?n" if "a \<in> set (sl_head sl # xs @ ys)" for a
    using that sl_invD(1,6) [OF inv] by auto
  then have new_addr: "?n \<notin> set (sl_head sl # xs @ ys)" by blast
  have "map (\<lambda>a. nd_key (h ! a)) xs = map (\<lambda>a. nd_key (?m ! a)) xs"
    "map (\<lambda>a. nd_key (h ! a)) ys = map (\<lambda>a. nd_key (?m ! a)) ys" using old T(3) by auto
  then have "sorted_wrt lt (map (\<lambda>a. nd_key (h ! a)) (xs @ ?n # ys))"
    using sl_invD(9) [OF inv] sp split_absent [OF inv sp absent] T(5)
    by (auto simp: sorted_wrt_append splits_def simp del: map_eq_conv)
  moreover have "a < length h \<and> nd_forward (h ! a) \<noteq> [] \<and> length (nd_forward (h ! a)) \<le> max L (sl_currentLevel sl) + 1"
    if "a \<in> set (xs @ ?n # ys)" for a
  proof (cases "a = ?n")
    case True
    then show ?thesis using T(2,6) by auto
  next
    case False
    with that have "a \<in> set (xs @ ys)" by auto
    then show ?thesis
      using sl_invD(7,8) [OF inv, of a] T(4) [of a] old [of a] T(2) by (fastforce simp flip: length_greater_0_conv)
  qed
  moreover have "distinct (sl_head sl # xs @ ?n # ys)"
    using sl_invD(4,5) [OF inv] new_addr by auto
  ultimately show ?thesis
    using link_chain [OF inv tower] sl_invD(1,2,3,11) [OF inv] L T(4) [of "sl_head sl"] T(2) by (simp add: sl_inv_def)
qed

lemma insert_refines:
  assumes ok: "sl_ok lt sl"
  shows "\<exists>sl'. sl_insert lt sl k v = Some (map_of (sl_abs sl) k = None, sl') \<and> sl_ok lt sl' \<and>
    sl_abs sl' = (if map_of (sl_abs sl) k = None then std_put lt k v (sl_abs sl) else sl_abs sl)"
proof -
  obtain xs ys where ns: "sl_addrs sl = xs @ ys" and sp: "splits lt (sl_mem sl) k xs ys"
    by (rule inv_splits [OF ok [unfolded sl_ok_def]])
  have inv: "sl_inv lt sl (xs @ ys)" using ok ns by (simp add: sl_ok_def)
  obtain upd where upd: "sl_trace lt (sl_mem sl) k (sl_currentLevel sl) (sl_head sl)
      (replicate (sl_maxLevel sl + 1) None) = Some (sl_pred sl xs 0, upd)"
    "length upd = sl_maxLevel sl + 1" "\<forall>i\<le> sl_currentLevel sl. upd ! i = Some (sl_pred sl xs i)"
    and hit: "sl_hit lt (sl_mem sl) k (case ys of [] \<Rightarrow> None | b # _ \<Rightarrow> Some b) = Some (present (sl_mem sl) k ys)"
    by (rule trace_update [OF inv sp])
  have none: "map_of (sl_abs sl) k = None \<longleftrightarrow> \<not> present (sl_mem sl) k ys" by (rule absent_iff [OF inv sp])
  show ?thesis
  proof (cases "present (sl_mem sl) k ys")
    case True
    then show ?thesis using upd(1) hit ok none by (auto simp: sl_insert_def bottom_next [OF inv])
  next
    case False
    obtain L fl where L: "sl_randomLevel sl = (L, sl\<lparr>sl_flips := fl\<rparr>)" "L \<le> sl_maxLevel sl"
      using flip_loop_bound [of 0 "sl_maxLevel sl" "sl_coins sl" "sl_flips sl"]
      by (simp add: sl_randomLevel_def case_prod_unfold Let_def)
    obtain h where h: "sl_link (sl_fill (sl_head sl) (sl_currentLevel sl) L upd) (length (sl_mem sl)) (L + 1)
        (sl_mem sl @ [new_node k v L]) = Some h" "tower_linked sl xs k v L h"
      using link_new [OF inv L(2) upd(2,3)] by blast
    let ?sl' = "sl\<lparr>sl_flips := fl, sl_currentLevel := max L (sl_currentLevel sl), sl_mem := h, sl_size := sl_size sl + 1\<rparr>"
    have inv': "sl_inv lt ?sl' (xs @ length (sl_mem sl) # ys)"
      by (rule link_inv [OF inv sp False L(2) h(2)])
    have "sl_insert lt sl k v = Some (True, ?sl')"
      using upd(1) hit False L(1) h(1) by (simp add: sl_insert_def bottom_next [OF inv] del: sl_link.simps)
    moreover have "sl_abs ?sl' = std_put lt k v (sl_abs sl)"
      unfolding sl_inv_abs [OF inv'] sl_inv_abs [OF inv] by (rule link_abs [OF inv sp False h(2)])
    ultimately show ?thesis using sl_inv_ok [OF inv'] none False by auto
  qed
qed

text \<open>Unlinking the node after the split.\<close>

lemma unlink_chain:
  assumes inv: "sl_inv lt sl (xs @ b # zs)" and shape: "same_shape (sl_mem sl) h"
    and f: "\<And>i a. fwd h i a =
      (if i < length (nd_forward (sl_mem sl ! b)) \<and> a = sl_pred sl xs i then fwd (sl_mem sl) i b else fwd (sl_mem sl) i a)"
    and i: "i \<le> sl_maxLevel sl"
  shows "linked (fwd h i) (sl_head sl) (filter (tall h i) (xs @ zs))"
proof -
  let ?m = "sl_mem sl"
  have "filter (tall h i) ws = filter (tall ?m i) ws" if "set ws \<subseteq> set (xs @ zs)" for ws
    using that sl_invD(6) [OF inv] same_shape_tall [OF shape] by (intro filter_cong) auto
  then have tall: "filter (tall h i) (xs @ zs) = filter (tall ?m i) xs @ filter (tall ?m i) zs" by simp
  have chain: "linked (fwd ?m i) (sl_head sl) (filter (tall ?m i) (xs @ b # zs))" by (rule sl_invD(10) [OF inv i])
  show ?thesis
  proof (cases "tall ?m i b")
    case True
    have "linked (fwd h i) (sl_head sl) (filter (tall ?m i) xs @ filter (tall ?m i) zs)"
    proof (rule linked_remove)
      show "linked (fwd ?m i) (sl_head sl) (filter (tall ?m i) xs @ b # filter (tall ?m i) zs)"
        using chain True by simp
      show "distinct (sl_head sl # filter (tall ?m i) xs @ b # filter (tall ?m i) zs)"
        using sl_invD(4,5) [OF inv] by auto
      show "fwd h i (last (sl_head sl # filter (tall ?m i) xs)) = fwd ?m i b"
        unfolding sl_pred_def [symmetric] using True by (simp add: f tall_def)
      show "fwd h i x = fwd ?m i x" if "x \<noteq> last (sl_head sl # filter (tall ?m i) xs)" for x
        using that unfolding sl_pred_def [symmetric] by (simp add: f)
    qed
    then show ?thesis unfolding tall .
  next
    case False
    then have "fwd h i = fwd ?m i" by (auto simp: f tall_def fun_eq_iff)
    with chain False show ?thesis unfolding tall by simp
  qed
qed

lemma unlink_inv:
  assumes inv: "sl_inv lt sl (xs @ b # zs)" and shape: "same_shape (sl_mem sl) h"
    and chain: "\<And>i. i \<le> sl_maxLevel sl \<Longrightarrow> linked (fwd h i) (sl_head sl) (filter (tall h i) (xs @ zs))"
    and l: "l \<le> sl_currentLevel sl" "\<And>i. l < i \<Longrightarrow> i \<le> sl_currentLevel sl \<Longrightarrow> fwd h i (sl_head sl) = Some None"
  shows "sl_inv lt (sl\<lparr>sl_currentLevel := l, sl_mem := h, sl_size := sl_size sl - 1\<rparr>) (xs @ zs)"
    "sl_abs (sl\<lparr>sl_currentLevel := l, sl_mem := h, sl_size := sl_size sl - 1\<rparr>) = std_erase (nd_key (sl_mem sl ! b)) (sl_abs sl)"
proof -
  let ?m = "sl_mem sl" and ?sl' = "sl\<lparr>sl_currentLevel := l, sl_mem := h, sl_size := sl_size sl - 1\<rparr>"
  have old: "a < length ?m" if "a \<in> set (sl_head sl # xs @ b # zs)" for a
    using that sl_invD(1,6) [OF inv] by auto
  have same: "length h = length ?m" "\<And>a. a < length ?m \<Longrightarrow> length (nd_forward (h ! a)) = length (nd_forward (?m ! a))"
    using shape by (auto simp: same_shape_def)
  have pairs: "map (sl_pair h) ws = map (sl_pair ?m) ws" "map (\<lambda>a. nd_key (h ! a)) ws = map (\<lambda>a. nd_key (?m ! a)) ws"
    if "set ws \<subseteq> set (xs @ b # zs)" for ws
    using that old shape by (auto simp: same_shape_def sl_pair_def)
  have height: "length (nd_forward (h ! a)) \<le> l + 1" if a: "a \<in> set (xs @ zs)" for a
  proof (rule ccontr)
    assume high: "\<not> ?thesis"
    let ?i = "length (nd_forward (h ! a)) - 1"
    have i: "l < ?i" "?i \<le> sl_currentLevel sl" "?i \<le> sl_maxLevel sl"
      using high sl_invD(8) [OF inv, of a] sl_invD(3) [OF inv] same(2) [of a] old [of a] a by auto
    have "a \<in> set (filter (tall h ?i) (xs @ zs))" using a high by (auto simp: tall_def)
    then show False using chain [OF i(3)] l(2) [OF i(1,2)]
      by (cases "filter (tall h ?i) (xs @ zs)") (auto simp: filter_empty_conv)
  qed
  have "sorted_wrt lt (map (\<lambda>a. nd_key (h ! a)) (xs @ zs))"
    by (subst pairs(2)) (use sl_invD(9) [OF inv] in \<open>auto simp: sorted_wrt_append\<close>)
  moreover have "a < length h \<and> nd_forward (h ! a) \<noteq> []" if "a \<in> set (xs @ zs)" for a
    using that same(1) same(2) [of a] sl_invD(6,7) [OF inv, of a] by (auto simp flip: length_greater_0_conv)
  ultimately show inv': "sl_inv lt ?sl' (xs @ zs)"
    using chain height sl_invD(1,2,3,4,5,11) [OF inv] l(1) same by (auto simp: sl_inv_def)
  have srt: "std_sorted lt (sl_abs sl)" by (rule sl_ok_sorted [OF sl_inv_ok [OF inv]])
  have "sl_pair ?m b = (nd_key (?m ! b), nd_value (?m ! b))" by (simp add: sl_pair_def)
  moreover have "map (sl_pair h) xs = map (sl_pair ?m) xs" "map (sl_pair h) zs = map (sl_pair ?m) zs"
    by (rule pairs(1); auto)+
  ultimately show "sl_abs ?sl' = std_erase (nd_key (?m ! b)) (sl_abs sl)"
    using erase_split [of "map (sl_pair ?m) xs" "nd_key (?m ! b)" "nd_value (?m ! b)" "map (sl_pair ?m) zs"] srt
    unfolding sl_inv_abs [OF inv'] sl_inv_abs [OF inv] by (simp del: map_eq_conv)
qed

lemma remove_refines:
  assumes ok: "sl_ok lt sl"
  shows "\<exists>sl'. sl_remove lt sl k = Some (map_of (sl_abs sl) k \<noteq> None, sl') \<and> sl_ok lt sl' \<and>
    sl_abs sl' = std_erase k (sl_abs sl)"
proof -
  obtain xs ys where ns: "sl_addrs sl = xs @ ys" and sp: "splits lt (sl_mem sl) k xs ys"
    by (rule inv_splits [OF ok [unfolded sl_ok_def]])
  have inv: "sl_inv lt sl (xs @ ys)" using ok ns by (simp add: sl_ok_def)
  obtain upd where upd: "sl_trace lt (sl_mem sl) k (sl_currentLevel sl) (sl_head sl)
      (replicate (sl_maxLevel sl + 1) None) = Some (sl_pred sl xs 0, upd)"
    "length upd = sl_maxLevel sl + 1" "\<forall>i\<le> sl_currentLevel sl. upd ! i = Some (sl_pred sl xs i)"
    and hit: "sl_hit lt (sl_mem sl) k (case ys of [] \<Rightarrow> None | b # _ \<Rightarrow> Some b) = Some (present (sl_mem sl) k ys)"
    by (rule trace_update [OF inv sp])
  note none = absent_iff [OF inv sp]
  show ?thesis
  proof (cases "present (sl_mem sl) k ys")
    case False
    then have "std_erase k (sl_abs sl) = sl_abs sl" using none by (intro std_erase_id) (simp add: map_of_eq_None_iff)
    then show ?thesis using upd(1) hit ok none False by (simp add: sl_remove_def bottom_next [OF inv])
  next
    case True
    then obtain b zs where ys: "ys = b # zs" "nd_key (sl_mem sl ! b) = k" by (auto simp: present_def split: list.splits)
    note inv' = inv [unfolded ys]
    obtain h where h: "sl_unlink upd b [0..<sl_currentLevel sl + 1] (sl_mem sl) = Some h" "same_shape (sl_mem sl) h"
      "\<forall>i a. fwd h i a = (if i < length (nd_forward (sl_mem sl ! b)) \<and> a = sl_pred sl xs i
         then fwd (sl_mem sl) i b else fwd (sl_mem sl) i a)"
      using unlink_node [OF inv' upd(2,3)] by blast
    have chain: "linked (fwd h i) (sl_head sl) (filter (tall h i) (xs @ zs))" if "i \<le> sl_maxLevel sl" for i
      by (rule unlink_chain [OF inv' h(2) _ that]) (use h(3) in blast)
    have "\<forall>i\<le> sl_currentLevel sl. fwd h i (sl_head sl) \<noteq> None"
      using sl_invD(3) [OF inv] linked_head [OF chain] le_trans by blast
    from shrink_levels [OF this] obtain l where l: "sl_shrink h (sl_head sl) (sl_currentLevel sl) = Some l"
      "l \<le> sl_currentLevel sl" "\<forall>i. l < i \<longrightarrow> i \<le> sl_currentLevel sl \<longrightarrow> fwd h i (sl_head sl) = Some None" by blast
    note inv_l = unlink_inv [OF inv' h(2) chain l(2) l(3) [rule_format]]
    have "sl_remove lt sl k = Some (True, sl\<lparr>sl_currentLevel := l, sl_mem := h, sl_size := sl_size sl - 1\<rparr>)"
      using upd(1) hit True h(1) l(1) bottom_next [OF inv] by (simp add: sl_remove_def ys(1) del: upt_Suc)
    then show ?thesis using inv_l sl_inv_ok none True ys(2) by auto
  qed
qed

text \<open>What a client does with \<open>find\<close>: miss, or read and overwrite the value of the node found.\<close>

lemma find_cases:
  assumes ok: "sl_ok lt sl"
  obtains (miss) "sl_find lt sl k = Some None" "map_of (sl_abs sl) k = None"
  | (hit) a nd where "sl_find lt sl k = Some (Some a)" "node_at (sl_mem sl) a = Some nd" "nd_key nd = k"
      "map_of (sl_abs sl) k = Some (nd_value nd)"
      "\<And>v. \<exists>sl'. sl_setValue sl a v = Some sl' \<and> sl_ok lt sl' \<and> sl_abs sl' = std_put lt k v (sl_abs sl)"
proof -
  have inv: "sl_inv lt sl (sl_addrs sl)" using ok by (simp add: sl_ok_def)
  from find_refines [OF inv, of k] show thesis
  proof
    assume "\<exists>a\<in>set (sl_addrs sl). sl_find lt sl k = Some (Some a) \<and> nd_key (sl_mem sl ! a) = k"
    then obtain a where a: "a \<in> set (sl_addrs sl)" "sl_find lt sl k = Some (Some a)" "nd_key (sl_mem sl ! a) = k"
      by blast
    show thesis
    proof (rule hit [OF a(2)])
      show "node_at (sl_mem sl) a = Some (sl_mem sl ! a)" using sl_invD(6) [OF inv a(1)] by (simp add: node_at_def)
      show "map_of (sl_abs sl) k = Some (nd_value (sl_mem sl ! a))" using inv_map_of [OF inv a(1)] a(3) by simp
      show "\<exists>sl'. sl_setValue sl a v = Some sl' \<and> sl_ok lt sl' \<and> sl_abs sl' = std_put lt k v (sl_abs sl)" for v
        using set_value_refines [OF inv a(1), of v] a(3) sl_inv_ok by blast
    qed (rule a(3))
  qed (use miss in blast)
qed

text \<open>The same for the first node.\<close>

lemma best_cases:
  assumes ok: "sl_ok lt sl"
  obtains (empty) "sl_best sl = Some None" "sl_abs sl = []"
  | (first) a nd m where "sl_best sl = Some (Some a)" "node_at (sl_mem sl) a = Some nd"
      "sl_abs sl = (nd_key nd, nd_value nd) # m"
      "\<And>v. \<exists>sl'. sl_setValue sl a v = Some sl' \<and> sl_ok lt sl' \<and> sl_abs sl' = (nd_key nd, v) # m"
proof -
  have inv: "sl_inv lt sl (sl_addrs sl)" using ok by (simp add: sl_ok_def)
  show thesis
  proof (cases "sl_addrs sl")
    case Nil
    then show thesis using empty best_node [OF inv] by (simp add: sl_abs_def)
  next
    case (Cons a ns)
    let ?nd = "sl_mem sl ! a" and ?m = "map (sl_pair (sl_mem sl)) ns"
    have a: "a \<in> set (sl_addrs sl)" using Cons by simp
    show thesis
    proof (rule first [of a ?nd ?m])
      show "sl_best sl = Some (Some a)" using best_node [OF inv] Cons by simp
      show "node_at (sl_mem sl) a = Some ?nd" using sl_invD(6) [OF inv a] by (simp add: node_at_def)
      show abs: "sl_abs sl = (nd_key ?nd, nd_value ?nd) # ?m" by (simp add: sl_abs_def Cons sl_pair_def)
      show "\<exists>sl'. sl_setValue sl a v = Some sl' \<and> sl_ok lt sl' \<and> sl_abs sl' = (nd_key ?nd, v) # ?m" for v
        using set_value_refines [OF inv a, of v] sl_inv_ok abs by (auto simp: lt_irrefl)
    qed
  qed
qed

end

end
