(* ===== verification/Order_Book_Interface.thy ===== *)
theory Order_Book_Interface
  imports Order_Book_Types
begin

text \<open>
  The dependency-injection seam of the repository, \<^verbatim>\<open>class IOrderBook\<close>
  (\<^verbatim>\<open>app/statemachine/IOrderBook.h\<close>), as a record of its virtual functions, and the contract
  the state machine relies on, as the locale \<open>order_book\<close>: an abstraction function to the
  abstract book of \<^verbatim>\<open>Order_Book_Types\<close> under which every virtual function implements the
  corresponding abstract operation.

  An operation of an engine may throw, dereference a stale iterator or a null pointer, or loop;
  it returns \<open>None\<close> then. The contract says that this never happens in a reachable book.
\<close>

record 'b IOrderBook =
  ob_newOrder :: "'b \<Rightarrow> u64 \<Rightarrow> Side \<Rightarrow> int \<Rightarrow> int \<Rightarrow> u64 \<Rightarrow> (Fill list \<times> 'b) option"
  ob_cancelOrder :: "'b \<Rightarrow> u64 \<Rightarrow> (bool \<times> 'b) option"
  ob_modifyOrder :: "'b \<Rightarrow> u64 \<Rightarrow> int \<Rightarrow> int \<Rightarrow> u64 \<Rightarrow> (bool \<times> 'b) option"
  ob_getOrder :: "'b \<Rightarrow> u64 \<Rightarrow> Order option option"
  ob_orderCount :: "'b \<Rightarrow> nat"
  ob_symbol :: "'b \<Rightarrow> byte list"
  ob_bids :: "'b \<Rightarrow> nat \<Rightarrow> PriceLevel list option"
  ob_asks :: "'b \<Rightarrow> nat \<Rightarrow> PriceLevel list option"
  ob_bestBid :: "'b \<Rightarrow> int option option"
  ob_bestAsk :: "'b \<Rightarrow> int option option"
  ob_addRestingOrder :: "'b \<Rightarrow> Order \<Rightarrow> 'b option"
  ob_allOrders :: "'b \<Rightarrow> Order list option"
  ob_reset :: "'b \<Rightarrow> byte list \<Rightarrow> 'b"

locale order_book =
  fixes ops :: "'b IOrderBook"
    and absb :: "'b \<Rightarrow> abook"
    and inv :: "'b \<Rightarrow> bool"
  assumes inv_ab_ok: "inv b \<Longrightarrow> ab_ok (absb b)"
    and new_refines: "inv b \<Longrightarrow> \<exists>b'. ob_newOrder ops b i s p q sq = Some (fst (spec_new i s p q sq (absb b)), b') \<and>
          absb b' = snd (spec_new i s p q sq (absb b)) \<and> inv b'"
    and cancel_refines: "inv b \<Longrightarrow> \<exists>b'. ob_cancelOrder ops b i = Some (fst (spec_cancel i (absb b)), b') \<and>
          absb b' = snd (spec_cancel i (absb b)) \<and> inv b'"
    and modify_refines: "inv b \<Longrightarrow> \<exists>b'.
          ob_modifyOrder ops b i p q sq = Some (fst (spec_modify i p q sq (absb b)), b') \<and>
          absb b' = snd (spec_modify i p q sq (absb b)) \<and> inv b'"
    and get_refines: "inv b \<Longrightarrow> ob_getOrder ops b i = Some (ab_find i (absb b))"
    and count_refines: "inv b \<Longrightarrow> ob_orderCount ops b = length (ab_all (absb b))"
    and symbol_refines: "ob_symbol ops b = ab_symbol (absb b)"
    and bids_refines: "inv b \<Longrightarrow> ob_bids ops b n = Some (spec_depth n (ab_bids (absb b)))"
    and asks_refines: "inv b \<Longrightarrow> ob_asks ops b n = Some (spec_depth n (ab_asks (absb b)))"
    and bestBid_refines: "inv b \<Longrightarrow> ob_bestBid ops b = Some (spec_best (ab_bids (absb b)))"
    and bestAsk_refines: "inv b \<Longrightarrow> ob_bestAsk ops b = Some (spec_best (ab_asks (absb b)))"
    and rest_refines: "inv b \<Longrightarrow> ord_quantity x > 0 \<Longrightarrow> ab_find (ord_id x) (absb b) = None \<Longrightarrow>
          \<exists>b'. ob_addRestingOrder ops b x = Some b' \<and> absb b' = spec_rest x (absb b) \<and> inv b'"
    and all_refines: "inv b \<Longrightarrow> ob_allOrders ops b = Some (ab_all (absb b))"
    and reset_refines: "absb (ob_reset ops b name) = spec_reset name \<and> inv (ob_reset ops b name)"

end
