(* ===== verification/Map_Order_Book.thy ===== *)
theory Map_Order_Book
  imports Order_Book_Interface
begin

text \<open>
  The first matching engine, \<^verbatim>\<open>app/statemachine/MapOrderBook.{h,cpp}\<close>: two ordered maps from
  price to a FIFO list of orders, and an index from order id to the location of the order.

  The index holds \<^verbatim>\<open>std::list\<close> iterators. A list node keeps its identity while it is in a list,
  so a node is modelled with an explicit handle, drawn from a counter when the node is pushed;
  an iterator is the handle of its node. Erasing through an iterator removes the node with that
  handle; dereferencing looks the handle up.
\<close>

section \<open>State\<close>

type_synonym level = "(nat \<times> Order) list"

record OrderLocation =
  loc_side :: Side
  loc_price :: int
  loc_it :: nat

type_synonym order_index = "(u64 \<times> OrderLocation) list"

record MapOrderBook =
  mob_symbol :: "byte list"
  mob_bids :: "(int, level) std_map"
  mob_asks :: "(int, level) std_map"
  orderIndex :: order_index
  nextNode :: nat

definition levels :: "Side \<Rightarrow> MapOrderBook \<Rightarrow> (int, level) std_map" where
  "levels s b = (case s of Buy \<Rightarrow> mob_bids b | Sell \<Rightarrow> mob_asks b)"

definition set_levels :: "Side \<Rightarrow> (int, level) std_map \<Rightarrow> MapOrderBook \<Rightarrow> MapOrderBook" where
  "set_levels s m b = (case s of Buy \<Rightarrow> b\<lparr>mob_bids := m\<rparr> | Sell \<Rightarrow> b\<lparr>mob_asks := m\<rparr>)"

definition mob_empty :: "byte list \<Rightarrow> MapOrderBook" where
  "mob_empty name = \<lparr>mob_symbol = name, mob_bids = [], mob_asks = [], orderIndex = [], nextNode = 0\<rparr>"

section \<open>Mutations\<close>

text \<open>The inner loop of \<open>match\<close>: trade against the front of one price level.\<close>

function match_level ::
  "Side \<Rightarrow> u64 \<Rightarrow> int \<Rightarrow> level \<Rightarrow> order_index \<Rightarrow> Fill list \<times> int \<times> level \<times> order_index" where
  "match_level s t rem [] ix = ([], rem, [], ix)"
| "match_level s t rem ((n, maker) # rest) ix =
     (if rem > 0
      then let matchQty = min rem (ord_quantity maker);
               f = \<lparr>makerOrderId = ord_id maker, takerOrderId = t, fill_price = ord_price maker,
                    fill_quantity = matchQty, takerSide = s\<rparr>;
               rem' = rem - matchQty;
               maker' = maker\<lparr>ord_quantity := ord_quantity maker - matchQty\<rparr>;
               (fs, r, l, ix') =
                 (if ord_quantity maker' \<le> 0
                  then match_level s t rem' rest (AList.delete (ord_id maker) ix)
                  else match_level s t rem' ((n, maker') # rest) ix)
           in (f # fs, r, l, ix')
      else ([], rem, (n, maker) # rest, ix))"
  by pat_completeness auto
termination
  by (relation "measures [\<lambda>(s, t, rem, l, ix). length l, \<lambda>(s, t, rem, l, ix). if rem > 0 then 1 else 0]")
    (auto simp: min_def split: if_splits)

lemma match_level_stop:
  "match_level s t rem l ix = (fs, r, l', ix') \<Longrightarrow> l' \<noteq> [] \<Longrightarrow> r \<le> 0"
  by (induction s t rem l ix arbitrary: fs r l' ix' rule: match_level.induct)
    (auto simp: Let_def split: if_splits prod.splits)

text \<open>The outer loop of \<open>match\<close>: sweep the best levels of the opposite side.\<close>

function match_levels ::
  "Side \<Rightarrow> int \<Rightarrow> u64 \<Rightarrow> int \<Rightarrow> (int, level) std_map \<Rightarrow> order_index \<Rightarrow>
     Fill list \<times> int \<times> (int, level) std_map \<times> order_index" where
  "match_levels s p t rem [] ix = ([], rem, [], ix)"
| "match_levels s p t rem ((bestPrice, level) # m) ix =
     (if rem > 0 \<and> crosses s p bestPrice
      then let (fs, r, l, ix1) = match_level s t rem level ix;
               m1 = (if l = [] then std_erase bestPrice ((bestPrice, l) # m) else (bestPrice, l) # m);
               (fs2, r2, m2, ix2) = match_levels s p t r m1 ix1
           in (fs @ fs2, r2, m2, ix2)
      else ([], rem, (bestPrice, level) # m, ix))"
  by pat_completeness auto
termination
proof (relation "measures [\<lambda>(s, p, t, rem, m, ix). length m, \<lambda>(s, p, t, rem, m, ix). if rem > 0 then 1 else 0]",
    goal_cases)
  case (2 s p t rem bestPrice level m ix x fs y r z l ix1 m1)
  have "length (std_erase bestPrice m) < Suc (length m)"
    using length_std_erase [of bestPrice m] by simp
  moreover have "r \<le> 0" if "l \<noteq> []"
    using match_level_stop [of s t rem level ix fs r l ix1] that 2(2-5) by simp
  ultimately show ?case using 2 by (cases "l = []") simp_all
qed simp

definition mob_match ::
  "MapOrderBook \<Rightarrow> Side \<Rightarrow> int \<Rightarrow> int \<Rightarrow> u64 \<Rightarrow> Fill list \<times> int \<times> MapOrderBook" where
  "mob_match b side takerPrice remainingQty takerId =
     (let (fs, r, m, ix) = match_levels side takerPrice takerId remainingQty
                             (levels (opposite side) b) (orderIndex b)
      in (fs, r, set_levels (opposite side) m (b\<lparr>orderIndex := ix\<rparr>)))"

definition mob_addResting :: "MapOrderBook \<Rightarrow> Order \<Rightarrow> MapOrderBook" where
  "mob_addResting b x =
     (let s = ord_side x;
          m = levels s b;
          level = (case map_of m (ord_price x) of None \<Rightarrow> [] | Some l \<Rightarrow> l);
          n = nextNode b
      in (set_levels s (std_put (price_before s) (ord_price x) (level @ [(n, x)]) m) b)
           \<lparr>orderIndex := AList.update (ord_id x)
              \<lparr>loc_side = s, loc_price = ord_price x, loc_it = n\<rparr> (orderIndex b),
            nextNode := n + 1\<rparr>)"

definition mob_newOrder ::
  "MapOrderBook \<Rightarrow> u64 \<Rightarrow> Side \<Rightarrow> int \<Rightarrow> int \<Rightarrow> u64 \<Rightarrow> Fill list \<times> MapOrderBook" where
  "mob_newOrder b orderId side price quantity sequence =
     (if quantity \<le> 0 then ([], b)
      else if map_of (orderIndex b) orderId \<noteq> None then ([], b)
      else let (fills, remaining, b') = mob_match b side price quantity orderId
           in if remaining > 0
              then (fills, mob_addResting b' \<lparr>ord_id = orderId, ord_side = side, ord_price = price,
                             ord_quantity = remaining, ord_sequence = sequence\<rparr>)
              else (fills, b'))"

text \<open>\<open>level.erase(listIt)\<close>: \<open>None\<close> when no node of the list has this handle.\<close>

definition erase_node :: "nat \<Rightarrow> level \<Rightarrow> level option" where
  "erase_node n l = (if n \<in> fst ` set l then Some (filter (\<lambda>(k, _). k \<noteq> n) l) else None)"

text \<open>\<open>bids_.at(price)\<close> throws when the level is absent.\<close>

definition mob_cancelOrder :: "MapOrderBook \<Rightarrow> u64 \<Rightarrow> (bool \<times> MapOrderBook) option" where
  "mob_cancelOrder b orderId =
     (case map_of (orderIndex b) orderId of
        None \<Rightarrow> Some (False, b)
      | Some loc \<Rightarrow>
          do {
            level \<leftarrow> map_of (levels (loc_side loc) b) (loc_price loc);
            l \<leftarrow> erase_node (loc_it loc) level;
            let m = (if l = [] then std_erase (loc_price loc) (levels (loc_side loc) b)
                     else std_put (price_before (loc_side loc)) (loc_price loc) l (levels (loc_side loc) b));
            Some (True, (set_levels (loc_side loc) m b)
                          \<lparr>orderIndex := AList.delete orderId (orderIndex b)\<rparr>)
          })"

definition mob_modifyOrder ::
  "MapOrderBook \<Rightarrow> u64 \<Rightarrow> int \<Rightarrow> int \<Rightarrow> u64 \<Rightarrow> (bool \<times> MapOrderBook) option" where
  "mob_modifyOrder b orderId newPrice newQuantity newSequence =
     (case map_of (orderIndex b) orderId of
        None \<Rightarrow> Some (False, b)
      | Some loc \<Rightarrow>
          do {
            (_, b') \<leftarrow> mob_cancelOrder b orderId;
            Some (True,
              if newQuantity > 0
              then mob_addResting b' \<lparr>ord_id = orderId, ord_side = loc_side loc, ord_price = newPrice,
                                      ord_quantity = newQuantity, ord_sequence = newSequence\<rparr>
              else b')
          })"

section \<open>Queries and snapshot support\<close>

text \<open>\<open>None\<close>: the stored iterator is dangling; \<open>Some None\<close>: the null pointer.\<close>

definition mob_getOrder :: "MapOrderBook \<Rightarrow> u64 \<Rightarrow> Order option option" where
  "mob_getOrder b orderId =
     (case map_of (orderIndex b) orderId of
        None \<Rightarrow> Some None
      | Some loc \<Rightarrow>
          do {
            level \<leftarrow> map_of (levels (loc_side loc) b) (loc_price loc);
            x \<leftarrow> map_of level (loc_it loc);
            Some (Some x)
          })"

definition mob_orderCount :: "MapOrderBook \<Rightarrow> nat" where
  "mob_orderCount b = length (orderIndex b)"

fun depth_loop :: "nat \<Rightarrow> PriceLevel list \<Rightarrow> (int, level) std_map \<Rightarrow> PriceLevel list" where
  "depth_loop maxLevels out [] = out"
| "depth_loop maxLevels out ((price, level) # m) =
     (let out' = out @ [level_of price (map snd level)]
      in if maxLevels \<noteq> 0 \<and> length out' \<ge> maxLevels then out'
         else depth_loop maxLevels out' m)"

definition mob_bids_view :: "MapOrderBook \<Rightarrow> nat \<Rightarrow> PriceLevel list" where
  "mob_bids_view b maxLevels = depth_loop maxLevels [] (mob_bids b)"

definition mob_asks_view :: "MapOrderBook \<Rightarrow> nat \<Rightarrow> PriceLevel list" where
  "mob_asks_view b maxLevels = depth_loop maxLevels [] (mob_asks b)"

definition mob_bestBid :: "MapOrderBook \<Rightarrow> int option" where
  "mob_bestBid b = (case mob_bids b of [] \<Rightarrow> None | (p, _) # _ \<Rightarrow> Some p)"

definition mob_bestAsk :: "MapOrderBook \<Rightarrow> int option" where
  "mob_bestAsk b = (case mob_asks b of [] \<Rightarrow> None | (p, _) # _ \<Rightarrow> Some p)"

definition level_orders :: "(int, level) std_map \<Rightarrow> Order list" where
  "level_orders m = concat (map (\<lambda>(p, l). map snd l) m)"

definition mob_allOrders :: "MapOrderBook \<Rightarrow> Order list" where
  "mob_allOrders b = level_orders (mob_bids b) @ level_orders (mob_asks b)"

definition mob_addRestingOrder :: "MapOrderBook \<Rightarrow> Order \<Rightarrow> MapOrderBook" where
  "mob_addRestingOrder b x = mob_addResting b x"

definition mob_reset :: "MapOrderBook \<Rightarrow> byte list \<Rightarrow> MapOrderBook" where
  "mob_reset b name = b\<lparr>mob_bids := [], mob_asks := [], orderIndex := [], mob_symbol := name\<rparr>"

definition map_book_ops :: "MapOrderBook IOrderBook" where
  "map_book_ops =
     \<lparr>ob_newOrder = (\<lambda>b i s p q sq. Some (mob_newOrder b i s p q sq)),
      ob_cancelOrder = mob_cancelOrder, ob_modifyOrder = mob_modifyOrder,
      ob_getOrder = mob_getOrder, ob_orderCount = mob_orderCount, ob_symbol = mob_symbol,
      ob_bids = (\<lambda>b n. Some (mob_bids_view b n)), ob_asks = (\<lambda>b n. Some (mob_asks_view b n)),
      ob_bestBid = (\<lambda>b. Some (mob_bestBid b)), ob_bestAsk = (\<lambda>b. Some (mob_bestAsk b)),
      ob_addRestingOrder = (\<lambda>b x. Some (mob_addRestingOrder b x)),
      ob_allOrders = (\<lambda>b. Some (mob_allOrders b)), ob_reset = mob_reset\<rparr>"

section \<open>Invariant and abstraction\<close>

text \<open>The index entry that belongs to a list node.\<close>

fun ekey :: "nat \<times> Order \<Rightarrow> u64 \<times> OrderLocation" where
  "ekey (n, x) = (ord_id x, \<lparr>loc_side = ord_side x, loc_price = ord_price x, loc_it = n\<rparr>)"

definition entries :: "(int, level) std_map \<Rightarrow> (nat \<times> Order) list" where
  "entries m = concat (map snd m)"

definition level_ok :: "Side \<Rightarrow> int \<Rightarrow> level \<Rightarrow> bool" where
  "level_ok s p l \<longleftrightarrow> l \<noteq> [] \<and>
     (\<forall>(n, x)\<in>set l. ord_price x = p \<and> ord_side x = s \<and> ord_quantity x > 0)"

definition levels_ok :: "Side \<Rightarrow> (int, level) std_map \<Rightarrow> bool" where
  "levels_ok s m \<longleftrightarrow> std_sorted (price_before s) m \<and> (\<forall>(p, l)\<in>set m. level_ok s p l)"

definition all_entries :: "MapOrderBook \<Rightarrow> (nat \<times> Order) list" where
  "all_entries b = entries (mob_bids b) @ entries (mob_asks b)"

definition mob_ok :: "MapOrderBook \<Rightarrow> bool" where
  "mob_ok b \<longleftrightarrow>
     levels_ok Buy (mob_bids b) \<and> levels_ok Sell (mob_asks b) \<and>
     distinct (map fst (map ekey (all_entries b))) \<and>
     distinct (map fst (all_entries b)) \<and>
     (\<forall>(n, x)\<in>set (all_entries b). n < nextNode b) \<and>
     distinct (map fst (orderIndex b)) \<and>
     set (orderIndex b) = ekey ` set (all_entries b)"

definition mob_abs :: "MapOrderBook \<Rightarrow> abook" where
  "mob_abs b = \<lparr>ab_bids = level_orders (mob_bids b), ab_asks = level_orders (mob_asks b),
                ab_symbol = mob_symbol b\<rparr>"

section \<open>Matching refines the abstract sweep\<close>

lemma match_level_spec:
  "match_level s t rem lv ix = (fs, r, l, ix') \<Longrightarrow>
     \<forall>(n, x)\<in>set lv. crosses s p (ord_price x) \<Longrightarrow>
     spec_match s p t rem (map snd lv @ os) =
       (if l = [] then (let (fs2, r2, os2) = spec_match s p t r os in (fs @ fs2, r2, os2))
        else (fs, r, map snd l @ os))"
proof (induction s t rem lv ix arbitrary: fs r l ix' rule: match_level.induct)
  case (2 s t rem n maker rest ix)
  show ?case
  proof (cases "rem > 0")
    case False
    with "2.prems" show ?thesis by auto
  next
    case True
    let ?q = "min rem (ord_quantity maker)"
    let ?mk = "maker\<lparr>ord_quantity := ord_quantity maker - ?q\<rparr>"
    show ?thesis
    proof (cases "ord_quantity ?mk \<le> 0")
      case full: True
      obtain fs1 r1 l1 ix1 where
        rec: "match_level s t (rem - ?q) rest (AList.delete (ord_id maker) ix) = (fs1, r1, l1, ix1)"
        by (cases "match_level s t (rem - ?q) rest (AList.delete (ord_id maker) ix)")
      have "spec_match s p t (rem - ?q) (map snd rest @ os) =
          (if l1 = [] then (let (fs2, r2, os2) = spec_match s p t r1 os in (fs1 @ fs2, r2, os2))
           else (fs1, r1, map snd l1 @ os))"
        by (rule "2.IH"(1) [OF True refl refl refl refl full rec]) (use "2.prems"(2) in auto)
      with "2.prems" True full rec show ?thesis
        by (auto simp: Let_def split: prod.splits)
    next
      case part: False
      then have "?q = rem" by (auto simp: min_def split: if_splits)
      with "2.prems" True part show ?thesis
        by (auto simp: Let_def)
    qed
  qed
qed auto

lemma match_level_index:
  "match_level s t rem lv ix = (fs, r, l, ix') \<Longrightarrow>
     \<exists>rm. map ekey lv = rm @ map ekey l \<and> ix' = filter (\<lambda>e. fst e \<notin> fst ` set rm) ix"
proof (induction s t rem lv ix arbitrary: fs r l ix' rule: match_level.induct)
  case (2 s t rem n maker rest ix)
  show ?case
  proof (cases "rem > 0")
    case False
    with "2.prems" show ?thesis by (intro exI [of _ "[]"]) auto
  next
    case True
    let ?q = "min rem (ord_quantity maker)"
    let ?mk = "maker\<lparr>ord_quantity := ord_quantity maker - ?q\<rparr>"
    show ?thesis
    proof (cases "ord_quantity ?mk \<le> 0")
      case full: True
      obtain fs1 r1 l1 ix1 where
        rec: "match_level s t (rem - ?q) rest (AList.delete (ord_id maker) ix) = (fs1, r1, l1, ix1)"
        by (cases "match_level s t (rem - ?q) rest (AList.delete (ord_id maker) ix)")
      from "2.IH"(1) [OF True refl refl refl refl full rec] obtain rm where
        rm: "map ekey rest = rm @ map ekey l1"
          "ix1 = filter (\<lambda>e. fst e \<notin> fst ` set rm) (AList.delete (ord_id maker) ix)"
        by blast
      from "2.prems" True full rec have "l = l1" "ix' = ix1" by (auto simp: Let_def)
      with rm show ?thesis
        by (intro exI [of _ "ekey (n, maker) # rm"])
          (auto simp: AList.delete_eq intro!: filter_cong)
    next
      case part: False
      then have "?q = rem" by (auto simp: min_def split: if_splits)
      with "2.prems" True part show ?thesis
        by (intro exI [of _ "[]"]) (auto simp: Let_def)
    qed
  qed
qed auto

lemma match_level_ok:
  assumes "match_level s t rem lv ix = (fs, r, l, ix')" "level_ok k p lv" "l \<noteq> []"
  shows "level_ok k p l"
  using assms
proof (induction s t rem lv ix arbitrary: fs r l ix' rule: match_level.induct)
  case (2 s t rem n maker rest ix)
  show ?case
  proof (cases "rem > 0")
    case False
    with "2.prems" show ?thesis by auto
  next
    case True
    let ?q = "min rem (ord_quantity maker)"
    let ?mk = "maker\<lparr>ord_quantity := ord_quantity maker - ?q\<rparr>"
    show ?thesis
    proof (cases "ord_quantity ?mk \<le> 0")
      case full: True
      obtain fs1 r1 l1 ix1 where
        rec: "match_level s t (rem - ?q) rest (AList.delete (ord_id maker) ix) = (fs1, r1, l1, ix1)"
        by (cases "match_level s t (rem - ?q) rest (AList.delete (ord_id maker) ix)")
      from "2.prems" True full rec have "l = l1" by (auto simp: Let_def)
      with "2.prems" rec have "rest \<noteq> []" by auto
      with "2.prems" have "level_ok k p rest" by (auto simp: level_ok_def)
      from "2.IH"(1) [OF True refl refl refl refl full rec this] \<open>l = l1\<close> "2.prems"
      show ?thesis by simp
    next
      case part: False
      then have "?q = rem" by (auto simp: min_def split: if_splits)
      with "2.prems" True part show ?thesis by (auto simp: Let_def level_ok_def)
    qed
  qed
qed auto

lemma entries_simps [simp]:
  "entries [] = []" "entries ((p, l) # m) = l @ entries m" "entries (m1 @ m2) = entries m1 @ entries m2"
  by (simp_all add: entries_def)

lemma level_orders_simps [simp]:
  "level_orders [] = []" "level_orders ((p, l) # m) = map snd l @ level_orders m"
  "level_orders (m1 @ m2) = level_orders m1 @ level_orders m2"
  by (simp_all add: level_orders_def)

lemma level_orders_entries: "level_orders m = map snd (entries m)"
  by (induction m) auto

lemma levels_ok_Cons:
  "levels_ok s ((p, l) # m) \<longleftrightarrow>
     (\<forall>k\<in>fst ` set m. price_before s p k) \<and> level_ok s p l \<and> levels_ok s m"
  by (auto simp: levels_ok_def)

lemma levels_ok_erase_head:
  "levels_ok s ((p, l) # m) \<Longrightarrow> std_erase p m = m"
  by (rule std_erase_id) (auto simp: levels_ok_Cons price.lt_irrefl)

lemma match_levels_step:
  assumes "levels_ok k ((p0, lv) # m)" "match_level s t rem lv ix = (fs, r, l, ix1)"
  shows "levels_ok k (if l = [] then std_erase p0 ((p0, l) # m) else (p0, l) # m)"
  using assms match_level_ok [OF assms(2)] levels_ok_erase_head [OF assms(1)]
  by (auto simp: levels_ok_Cons)

lemma match_levels_skip:
  "\<not> (rem > 0 \<and> crosses s p p0) \<Longrightarrow> match_levels s p t rem ((p0, lv) # m) ix = ([], rem, (p0, lv) # m, ix)"
  by (subst match_levels.simps) auto

lemma match_levels_sweepE:
  assumes "match_levels s p t rem ((p0, lv) # m) ix = (fs, r, m', ix')" "rem > 0 \<and> crosses s p p0"
  obtains fs1 r1 l1 ix1 fs2 where
    "match_level s t rem lv ix = (fs1, r1, l1, ix1)"
    "match_levels s p t r1 (if l1 = [] then std_erase p0 ((p0, l1) # m) else (p0, l1) # m) ix1 =
       (fs2, r, m', ix')"
    "fs = fs1 @ fs2"
proof -
  obtain fs1 r1 l1 ix1 where lv: "match_level s t rem lv ix = (fs1, r1, l1, ix1)"
    by (cases "match_level s t rem lv ix")
  obtain fs2 r2 m2 ix2 where rec: "match_levels s p t r1
      (if l1 = [] then std_erase p0 ((p0, l1) # m) else (p0, l1) # m) ix1 = (fs2, r2, m2, ix2)"
    by (cases "match_levels s p t r1 (if l1 = [] then std_erase p0 ((p0, l1) # m) else (p0, l1) # m) ix1")
  from assms(1) have "fs = fs1 @ fs2 \<and> r = r2 \<and> m' = m2 \<and> ix' = ix2"
    by (subst (asm) match_levels.simps(2)) (simp only: assms(2) lv rec Let_def if_True simp_thms prod.case prod.inject)
  with lv rec that show thesis by blast
qed

declare match_levels.simps(2) [simp del]

lemma match_levels_ok:
  "match_levels s p t rem m ix = (fs, r, m', ix') \<Longrightarrow> levels_ok k m \<Longrightarrow> levels_ok k m'"
proof (induction s p t rem m ix arbitrary: fs r m' ix' rule: match_levels.induct)
  case (2 s p t rem p0 lv m ix)
  show ?case
  proof (cases "rem > 0 \<and> crosses s p p0")
    case False
    with "2.prems" show ?thesis by (simp add: match_levels_skip)
  next
    case True
    obtain fs1 r1 l1 ix1 fs2 where
      lv: "match_level s t rem lv ix = (fs1, r1, l1, ix1)" and
      rec: "match_levels s p t r1 (if l1 = [] then std_erase p0 ((p0, l1) # m) else (p0, l1) # m) ix1 =
        (fs2, r, m', ix')" and out: "fs = fs1 @ fs2"
      by (rule match_levels_sweepE [OF "2.prems"(1) True])
    from "2.IH" [OF True refl lv [symmetric] refl refl refl rec match_levels_step [OF "2.prems"(2) lv]]
    show ?thesis .
  qed
qed simp

lemma match_levels_index:
  "match_levels s p t rem m ix = (fs, r, m', ix') \<Longrightarrow> levels_ok k m \<Longrightarrow>
     \<exists>rm. map ekey (entries m) = rm @ map ekey (entries m') \<and>
          ix' = filter (\<lambda>e. fst e \<notin> fst ` set rm) ix"
proof (induction s p t rem m ix arbitrary: fs r m' ix' rule: match_levels.induct)
  case (2 s p t rem p0 lv m ix)
  show ?case
  proof (cases "rem > 0 \<and> crosses s p p0")
    case False
    with "2.prems" show ?thesis by (intro exI [of _ "[]"]) (auto simp: match_levels_skip)
  next
    case True
    obtain fs1 r1 l1 ix1 fs2 where
      lv: "match_level s t rem lv ix = (fs1, r1, l1, ix1)" and
      rec: "match_levels s p t r1 (if l1 = [] then std_erase p0 ((p0, l1) # m) else (p0, l1) # m) ix1 =
        (fs2, r, m', ix')" and out: "fs = fs1 @ fs2"
      by (rule match_levels_sweepE [OF "2.prems"(1) True])
    let ?m1 = "if l1 = [] then std_erase p0 ((p0, l1) # m) else (p0, l1) # m"
    from match_level_index [OF lv] obtain rm1 where
      rm1: "map ekey lv = rm1 @ map ekey l1" "ix1 = filter (\<lambda>e. fst e \<notin> fst ` set rm1) ix" by blast
    from "2.IH" [OF True refl lv [symmetric] refl refl refl rec match_levels_step [OF "2.prems"(2) lv]]
    obtain rm2 where rm2: "map ekey (entries ?m1) = rm2 @ map ekey (entries m')"
      "ix' = filter (\<lambda>e. fst e \<notin> fst ` set rm2) ix1" by blast
    have "entries ?m1 = l1 @ entries m"
      using levels_ok_erase_head [OF "2.prems"(2)] by simp
    with rm1 rm2 have "map ekey (entries ((p0, lv) # m)) = (rm1 @ rm2) @ map ekey (entries m')"
      by simp
    moreover have "ix' = filter (\<lambda>e. fst e \<notin> fst ` set (rm1 @ rm2)) ix"
      using rm1 rm2 by (auto intro!: filter_cong)
    ultimately show ?thesis by blast
  qed
qed simp

lemma match_levels_spec:
  "match_levels s p t rem m ix = (fs, r, m', ix') \<Longrightarrow> levels_ok k m \<Longrightarrow>
     spec_match s p t rem (level_orders m) = (fs, r, level_orders m')"
proof (induction s p t rem m ix arbitrary: fs r m' ix' rule: match_levels.induct)
  case (2 s p t rem p0 lv m ix)
  from "2.prems"(2) have price: "\<forall>(n, x)\<in>set lv. ord_price x = p0" and "lv \<noteq> []"
    by (auto simp: levels_ok_Cons level_ok_def)
  then obtain n0 x0 lv' where lv_eq: "lv = (n0, x0) # lv'" "ord_price x0 = p0"
    by (cases lv) auto
  show ?case
  proof (cases "rem > 0 \<and> crosses s p p0")
    case False
    with "2.prems" lv_eq show ?thesis by (auto simp: match_levels_skip)
  next
    case True
    obtain fs1 r1 l1 ix1 fs2 where
      lv: "match_level s t rem lv ix = (fs1, r1, l1, ix1)" and
      rec: "match_levels s p t r1 (if l1 = [] then std_erase p0 ((p0, l1) # m) else (p0, l1) # m) ix1 =
        (fs2, r, m', ix')" and out: "fs = fs1 @ fs2"
      by (rule match_levels_sweepE [OF "2.prems"(1) True])
    let ?m1 = "if l1 = [] then std_erase p0 ((p0, l1) # m) else (p0, l1) # m"
    from True price have cr: "\<forall>(n, x)\<in>set lv. crosses s p (ord_price x)" by auto
    note step = match_level_spec [OF lv cr, of "level_orders m"]
    from "2.IH" [OF True refl lv [symmetric] refl refl refl rec match_levels_step [OF "2.prems"(2) lv]]
    have IH: "spec_match s p t r1 (level_orders ?m1) = (fs2, r, level_orders m')" .
    show ?thesis
    proof (cases "l1 = []")
      case True
      with step IH out levels_ok_erase_head [OF "2.prems"(2)] show ?thesis by simp
    next
      case False
      with match_level_stop [OF lv] have "r1 \<le> 0" by simp
      with False rec have "fs2 = []" "r = r1" "m' = (p0, l1) # m"
        by (simp_all add: match_levels_skip)
      with False step out show ?thesis by simp
    qed
  qed
qed simp

end
