(* ===== verification/Map_Book_Refinement.thy ===== *)
theory Map_Book_Refinement
  imports Map_Order_Book
begin

text \<open>
  The \<^verbatim>\<open>MapOrderBook\<close> engine implements the abstract book: every operation keeps the index, the
  lists and the price maps consistent, no iterator it stores is ever dangling, and the result is
  the one of the abstract operation. The theory ends with the interpretation of the interface
  locale on the engine.
\<close>

section \<open>Resting and removing an order\<close>

lemma update_nonkey: "k \<notin> fst ` set al \<Longrightarrow> AList.update k v al = al @ [(k, v)]"
  by (induction al) auto

lemma set_delete_filter: "set (AList.delete k al) = {e \<in> set al. fst e \<noteq> k}"
  by (auto simp: AList.delete_eq)

lemma levels_simps [simp]:
  "levels s (set_levels s m b) = m" "s \<noteq> s' \<Longrightarrow> levels s' (set_levels s m b) = levels s' b"
  "levels Buy b = mob_bids b" "levels Sell b = mob_asks b"
  "levels s (b\<lparr>orderIndex := ix\<rparr>) = levels s b" "levels s (b\<lparr>nextNode := n\<rparr>) = levels s b"
  by (cases s; cases s'; simp add: levels_def set_levels_def)+

lemma levels_set_if: "levels s' (set_levels s m b) = (if s' = s then m else levels s' b)"
  by (cases s; cases s'; simp add: levels_def set_levels_def)

lemma ab_of_set_if: "ab_of s' (ab_set s os a) = (if s' = s then os else ab_of s' a)"
  by (cases s; cases s'; simp add: ab_of_def ab_set_def)

lemma ab_symbol_set [simp]: "ab_symbol (ab_set s os a) = ab_symbol a"
  by (cases s; simp add: ab_set_def)

lemma set_levels_simps [simp]:
  "orderIndex (set_levels s m b) = orderIndex b" "nextNode (set_levels s m b) = nextNode b"
  "mob_symbol (set_levels s m b) = mob_symbol b"
  by (cases s; simp add: set_levels_def)+

lemma ab_of_mob_abs [simp]:
  "ab_of s (mob_abs b) = level_orders (levels s b)" "ab_symbol (mob_abs b) = mob_symbol b"
  by (cases s; simp add: mob_abs_def)+

lemma abook_eqI: "\<forall>s. ab_of s a = ab_of s a' \<Longrightarrow> ab_symbol a = ab_symbol a' \<Longrightarrow> a = a'"
  by (metis ab_of_simps(1,2) abook.equality old.unit.exhaust)

definition nodes :: "Side \<Rightarrow> MapOrderBook \<Rightarrow> (nat \<times> Order) list" where
  "nodes s b = entries (levels s b)"

lemma mob_ok_iff:
  "mob_ok b \<longleftrightarrow>
     levels_ok s (levels s b) \<and> levels_ok (opposite s) (levels (opposite s) b) \<and>
     distinct (map fst (map ekey (nodes s b @ nodes (opposite s) b))) \<and>
     distinct (map fst (nodes s b @ nodes (opposite s) b)) \<and>
     (\<forall>(n, x)\<in>set (nodes s b @ nodes (opposite s) b). n < nextNode b) \<and>
     distinct (map fst (orderIndex b)) \<and>
     set (orderIndex b) = ekey ` set (nodes s b @ nodes (opposite s) b)"
  by (cases s) (auto simp: mob_ok_def all_entries_def nodes_def)

lemma fst_ekey [simp]: "fst (ekey e) = ord_id (snd e)"
  by (cases e) simp

lemma entries_levels_ok:
  "levels_ok s m \<Longrightarrow> (n, x) \<in> set (entries m) \<Longrightarrow>
     ord_side x = s \<and> ord_quantity x > 0 \<and> (\<exists>l. map_of m (ord_price x) = Some l \<and> (n, x) \<in> set l)"
proof -
  assume ok: "levels_ok s m" and "(n, x) \<in> set (entries m)"
  then obtain p l where pl: "(p, l) \<in> set m" "(n, x) \<in> set l" by (auto simp: entries_def)
  with ok have "ord_price x = p" "ord_side x = s" "ord_quantity x > 0"
    by (auto simp: levels_ok_def level_ok_def)
  moreover have "map_of m p = Some l"
    using pl(1) ok price.sorted_distinct [of s m] by (simp add: levels_ok_def)
  ultimately show ?thesis using pl by auto
qed

lemma levels_ok_append:
  "levels_ok s (xs @ ys) \<longleftrightarrow> levels_ok s xs \<and> levels_ok s ys \<and>
     (\<forall>a\<in>fst ` set xs. \<forall>b\<in>fst ` set ys. price_before s a b)"
  by (auto simp: levels_ok_def std_sorted_def sorted_wrt_append)

text \<open>A price splits the map of a side into the better levels, its own level and the worse ones.\<close>

lemma level_split:
  assumes "levels_ok s m"
  obtains l xs ys where
    "l = (case map_of m p of None \<Rightarrow> [] | Some l \<Rightarrow> l)"
    "m = xs @ (if l = [] then [] else [(p, l)]) @ ys"
    "\<forall>a\<in>fst ` set xs. price_before s a p" "\<forall>a\<in>fst ` set ys. price_before s p a"
    "\<forall>v. std_put (price_before s) p v m = xs @ (p, v) # ys"
    "l \<noteq> [] \<longrightarrow> std_erase p m = xs @ ys"
    "l \<noteq> [] \<longrightarrow> level_ok s p l" "levels_ok s xs" "levels_ok s ys"
proof -
  from assms have sorted: "std_sorted (price_before s) m" by (simp add: levels_ok_def)
  then obtain xs zs where m: "m = xs @ zs" and xs: "\<forall>a\<in>fst ` set xs. price_before s a p"
    and zs: "\<forall>a\<in>fst ` set zs. \<not> price_before s a p"
    by (rule price.position_exists)
  have pxs: "p \<notin> fst ` set xs" using xs price.lt_irrefl by blast
  show thesis
  proof (cases "zs \<noteq> [] \<and> fst (hd zs) = p")
    case True
    then obtain l ys where zs_eq: "zs = (p, l) # ys" by (cases zs) auto
    have ys: "\<forall>a\<in>fst ` set ys. price_before s p a"
      using price.sorted_append_lt [of s xs p l ys] sorted m zs_eq by blast
    have lok: "level_ok s p l" using assms m zs_eq by (auto simp: levels_ok_def)
    have "map_of xs p = None" using pxs by (simp add: map_of_eq_None_iff)
    then have "map_of m p = Some l" using m zs_eq by (simp add: map_add_def)
    moreover from lok have "l \<noteq> []" by (simp add: level_ok_def)
    moreover have "std_put (price_before s) p v m = xs @ (p, v) # ys" for v
      using price.put_replace [OF xs] m zs_eq by simp
    moreover have "std_erase p m = xs @ ys"
      using price.erase_split [of s xs p l ys] sorted m zs_eq by simp
    ultimately show thesis
      using that [of l xs ys] assms m zs_eq xs ys lok
      by (simp add: levels_ok_append levels_ok_Cons)
  next
    case False
    have ys: "\<forall>a\<in>fst ` set zs. price_before s p a"
    proof
      fix a assume a: "a \<in> fst ` set zs"
      then obtain q l ys where z: "zs = (q, l) # ys" by (cases zs) auto
      with False zs have "price_before s p q" using price.lt_total [of s p q] by auto
      moreover have "a = q \<or> price_before s q a"
        using a z sorted m by (auto simp: std_sorted_def sorted_wrt_append)
      ultimately show "price_before s p a" using price.lt_trans by blast
    qed
    then have "p \<notin> fst ` set zs" using price.lt_irrefl by blast
    with pxs have "map_of xs p = None" "map_of zs p = None" by (simp_all add: map_of_eq_None_iff)
    with m have "(case map_of m p of None \<Rightarrow> [] | Some l \<Rightarrow> l) = []" by (simp add: map_add_def)
    moreover have "std_put (price_before s) p v m = xs @ (p, v) # zs" for v
      using price.put_split [OF xs ys] m by simp
    ultimately show thesis
      using that [of "[]" xs zs] assms m xs ys by (simp add: levels_ok_append)
  qed
qed

lemma spec_insert_split:
  assumes "\<forall>y\<in>set os1. \<not> price_before s (ord_price x) (ord_price y)"
    and "\<forall>y\<in>set os2. price_before s (ord_price x) (ord_price y)"
  shows "spec_insert s x (os1 @ os2) = os1 @ x # os2"
proof -
  let ?P = "\<lambda>y. \<not> price_before s (ord_price x) (ord_price y)"
  have "takeWhile ?P (os1 @ os2) = os1 @ takeWhile ?P os2"
    "dropWhile ?P (os1 @ os2) = dropWhile ?P os2"
    using assms(1) by (simp_all add: takeWhile_append2 dropWhile_append2)
  moreover have "takeWhile ?P os2 = []" "dropWhile ?P os2 = os2"
    using assms(2) by (cases os2; simp)+
  ultimately show ?thesis by (simp add: spec_insert_def)
qed

lemma level_orders_price:
  "levels_ok s m \<Longrightarrow> y \<in> set (level_orders m) \<Longrightarrow> ord_price y \<in> fst ` set m"
  by (force simp: level_orders_def levels_ok_def level_ok_def)

lemma put_level_refines:
  fixes n :: nat
  assumes "levels_ok s m" "ord_side x = s" "ord_quantity x > 0"
  defines "m' \<equiv> std_put (price_before s) (ord_price x)
    ((case map_of m (ord_price x) of None \<Rightarrow> [] | Some l \<Rightarrow> l) @ [(n, x)]) m"
  shows "levels_ok s m'" "level_orders m' = spec_insert s x (level_orders m)"
    "\<exists>es1 es2. entries m = es1 @ es2 \<and> entries m' = es1 @ (n, x) # es2"
proof -
  obtain l xs ys where sp: "l = (case map_of m (ord_price x) of None \<Rightarrow> [] | Some l \<Rightarrow> l)"
    "m = xs @ (if l = [] then [] else [(ord_price x, l)]) @ ys"
    and xs: "\<forall>a\<in>fst ` set xs. price_before s a (ord_price x)"
    and ys: "\<forall>a\<in>fst ` set ys. price_before s (ord_price x) a"
    and put: "\<forall>v. std_put (price_before s) (ord_price x) v m = xs @ (ord_price x, v) # ys"
    and "l \<noteq> [] \<longrightarrow> std_erase (ord_price x) m = xs @ ys"
    and l: "l \<noteq> [] \<longrightarrow> level_ok s (ord_price x) l" and ok: "levels_ok s xs" "levels_ok s ys"
    by (rule level_split [OF assms(1), of "ord_price x"])
  have m': "m' = xs @ (ord_price x, l @ [(n, x)]) # ys" by (simp add: m'_def sp(1) [symmetric] put)
  have "level_ok s (ord_price x) (l @ [(n, x)])"
    using l assms(2,3) by (cases "l = []") (auto simp: level_ok_def)
  with m' ok xs ys show "levels_ok s m'"
    by (auto simp: levels_ok_append levels_ok_Cons intro: price.lt_trans)
  have e: "entries m = (entries xs @ l) @ entries ys" by (subst sp(2)) simp
  moreover have "entries m' = (entries xs @ l) @ (n, x) # entries ys" by (simp add: m')
  ultimately show "\<exists>es1 es2. entries m = es1 @ es2 \<and> entries m' = es1 @ (n, x) # es2" by blast
  have "\<forall>y\<in>set (level_orders xs @ map snd l). \<not> price_before s (ord_price x) (ord_price y)"
    using level_orders_price [OF ok(1)] xs l price.lt_asym price.lt_irrefl
    by (cases "l = []") (fastforce simp: level_ok_def)+
  moreover have "\<forall>y\<in>set (level_orders ys). price_before s (ord_price x) (ord_price y)"
    using level_orders_price [OF ok(2)] ys by blast
  ultimately have "spec_insert s x ((level_orders xs @ map snd l) @ level_orders ys) =
      (level_orders xs @ map snd l) @ x # level_orders ys"
    by (rule spec_insert_split)
  with e m' show "level_orders m' = spec_insert s x (level_orders m)"
    by (simp add: level_orders_entries)
qed

lemma erase_level_refines:
  fixes n :: nat
  assumes "levels_ok s m" "map_of m p = Some l" "n \<in> fst ` set l" "distinct (map fst (entries m))"
  defines "l' \<equiv> filter (\<lambda>(k, _). k \<noteq> n) l"
  defines "m' \<equiv> if l' = [] then std_erase p m else std_put (price_before s) p l' m"
  shows "levels_ok s m'" "entries m' = filter (\<lambda>e. fst e \<noteq> n) (entries m)"
proof -
  obtain l0 xs ys where sp: "l0 = (case map_of m p of None \<Rightarrow> [] | Some l \<Rightarrow> l)"
    "m = xs @ (if l0 = [] then [] else [(p, l0)]) @ ys"
    and xs: "\<forall>a\<in>fst ` set xs. price_before s a p" and ys: "\<forall>a\<in>fst ` set ys. price_before s p a"
    and put: "\<forall>v. std_put (price_before s) p v m = xs @ (p, v) # ys"
    and er: "l0 \<noteq> [] \<longrightarrow> std_erase p m = xs @ ys"
    and l: "l0 \<noteq> [] \<longrightarrow> level_ok s p l0" and ok: "levels_ok s xs" "levels_ok s ys"
    by (rule level_split [OF assms(1), of p])
  from sp(1) assms(2,3) have l0: "l0 = l" "l0 \<noteq> []" by auto
  have m': "m' = (if l' = [] then xs @ ys else xs @ (p, l') # ys)"
    using er l0 by (simp add: m'_def put)
  have "level_ok s p l'" if "l' \<noteq> []"
    using that l l0 by (auto simp: level_ok_def l'_def)
  with m' ok xs ys show "levels_ok s m'"
    by (auto simp: levels_ok_append levels_ok_Cons intro: price.lt_trans)
  have e: "entries m = entries xs @ l @ entries ys" using l0 by (subst sp(2)) simp
  with assms(3,4) have out: "\<forall>e\<in>set (entries xs) \<union> set (entries ys). fst e \<noteq> n"
    by (auto simp: disjoint_iff)
  have "entries m' = entries xs @ l' @ entries ys" using m' by simp
  with e out show "entries m' = filter (\<lambda>e. fst e \<noteq> n) (entries m)"
    by (simp add: l'_def case_prod_unfold filter_id_conv)
qed

text \<open>The index and the lists describe the same orders.\<close>

lemma level_orders_nodes: "level_orders (levels s b) = map snd (nodes s b)"
  by (simp add: level_orders_entries nodes_def)

lemma ab_all_nodes: "set (ab_all (mob_abs b)) = snd ` set (nodes s b @ nodes (opposite s) b)"
  unfolding set_ab_all [where s = s] by (simp add: level_orders_nodes image_Un)

lemma mob_ok_levels: "mob_ok b \<Longrightarrow> levels_ok s (levels s b)"
  by (simp only: mob_ok_iff [of b s])

lemma nodes_ok:
  "mob_ok b \<Longrightarrow> (n, x) \<in> set (nodes s b) \<Longrightarrow>
     ord_side x = s \<and> ord_quantity x > 0 \<and>
     (\<exists>l. map_of (levels s b) (ord_price x) = Some l \<and> (n, x) \<in> set l)"
  unfolding nodes_def by (rule entries_levels_ok [OF mob_ok_levels])

lemma levels_ok_side_ok: "levels_ok s m \<Longrightarrow> side_ok s (level_orders m)"
proof (induction m)
  case (Cons e m)
  obtain p l where e: "e = (p, l)" by (cases e)
  from Cons.prems have l: "\<forall>x\<in>snd ` set l. ord_price x = p \<and> ord_side x = s \<and> ord_quantity x > 0"
    and m: "levels_ok s m" "\<forall>q\<in>fst ` set m. price_before s p q"
    by (auto simp: e levels_ok_Cons level_ok_def)
  have "sorted_wrt (\<lambda>x y. \<not> price_before s (ord_price y) (ord_price x)) (map snd l)"
    using l price.lt_irrefl by (induction l) auto
  moreover have "\<not> price_before s (ord_price y) (ord_price x)"
    if "x \<in> snd ` set l" "y \<in> set (level_orders m)" for x y
    using that l m(2) level_orders_price [OF m(1) that(2)] price.lt_asym by metis
  ultimately show ?case using l Cons.IH [OF m(1)] by (auto simp: e side_ok_def sorted_wrt_append)
qed (simp add: side_ok_def)

lemma mob_ok_ab_ok: "mob_ok b \<Longrightarrow> ab_ok (mob_abs b)"
proof -
  assume ok: "mob_ok b"
  have "side_ok s (level_orders (levels s b))" for s
    by (rule levels_ok_side_ok [OF mob_ok_levels [OF ok]])
  moreover have "map fst (map ekey (all_entries b)) = map ord_id (ab_all (mob_abs b))"
    by (simp add: all_entries_def ab_all_def mob_abs_def level_orders_entries)
  moreover have "distinct (map fst (map ekey (all_entries b)))" using ok by (simp add: mob_ok_def)
  ultimately show ?thesis
    unfolding ab_ok_def by (metis ab_of_mob_abs(1) ab_of_simps(1,2))
qed

lemma index_None_iff: "mob_ok b \<Longrightarrow> map_of (orderIndex b) i = None \<longleftrightarrow> ab_find i (mob_abs b) = None"
proof -
  assume "mob_ok b"
  then have "fst ` set (orderIndex b) = ord_id ` set (ab_all (mob_abs b))"
    unfolding mob_ok_iff [of b Buy] ab_all_nodes [of b Buy] by (simp add: image_image)
  then show ?thesis by (auto simp: map_of_eq_None_iff ab_find_None)
qed

lemma index_SomeE:
  assumes "mob_ok b" "map_of (orderIndex b) i = Some loc"
  obtains n x where "(n, x) \<in> set (nodes (loc_side loc) b)" "ord_id x = i" "ord_side x = loc_side loc"
    "ord_price x = loc_price loc" "loc_it loc = n" "ab_find i (mob_abs b) = Some x"
proof -
  from assms(1) have "set (orderIndex b) = ekey ` (set (nodes Buy b) \<union> set (nodes Sell b))"
    by (simp add: mob_ok_iff [of b Buy])
  with map_of_SomeD [OF assms(2)] have "(i, loc) \<in> ekey ` (set (nodes Buy b) \<union> set (nodes Sell b))"
    by simp
  then obtain e where k: "(i, loc) = ekey e" and "e \<in> set (nodes Buy b) \<union> set (nodes Sell b)"
    by (rule imageE)
  then obtain s where e: "e \<in> set (nodes s b)" by (metis Un_iff)
  obtain n x where nx: "e = (n, x)" by (cases e)
  have "x \<in> set (ab_all (mob_abs b))"
    unfolding ab_all_nodes [of b s] using e nx by (metis UnI1 image_eqI set_append snd_conv)
  then have "ab_find (ord_id x) (mob_abs b) = Some x"
    by (rule ab_find_unique [OF mob_ok_ab_ok [OF assms(1)]])
  moreover from nodes_ok [OF assms(1), of n x s] e nx have "ord_side x = s" by simp
  moreover from k nx have "i = ord_id x" "loc = \<lparr>loc_side = ord_side x, loc_price = ord_price x, loc_it = n\<rparr>"
    by simp_all
  ultimately show thesis using e nx by (intro that [of n x]) simp_all
qed

lemma spec_remove_simps [simp]:
  "ab_of s (spec_remove i a) = filter (\<lambda>x. ord_id x \<noteq> i) (ab_of s a)"
  "ab_symbol (spec_remove i a) = ab_symbol a"
  by (cases s; simp add: spec_remove_def)+

section \<open>The operations refine the abstract ones\<close>

lemma addResting_refines:
  assumes ok: "mob_ok b" and q: "ord_quantity x > 0" and new: "ab_find (ord_id x) (mob_abs b) = None"
  shows "mob_abs (mob_addResting b x) = spec_rest x (mob_abs b)" "mob_ok (mob_addResting b x)"
proof -
  define s where "s = ord_side x"
  define n where "n = nextNode b"
  define m' where "m' = std_put (price_before s) (ord_price x)
    ((case map_of (levels s b) (ord_price x) of None \<Rightarrow> [] | Some l \<Rightarrow> l) @ [(n, x)]) (levels s b)"
  note put = put_level_refines [OF mob_ok_levels [OF ok] s_def [symmetric] q, of n, folded m'_def]
  have b': "mob_addResting b x = (set_levels s m' b)\<lparr>orderIndex := AList.update (ord_id x)
      \<lparr>loc_side = s, loc_price = ord_price x, loc_it = n\<rparr> (orderIndex b), nextNode := n + 1\<rparr>"
    by (simp add: mob_addResting_def Let_def s_def n_def m'_def)
  from new index_None_iff [OF ok] have out: "ord_id x \<notin> fst ` set (orderIndex b)"
    by (simp add: map_of_eq_None_iff)
  show "mob_abs (mob_addResting b x) = spec_rest x (mob_abs b)"
    by (rule abook_eqI) (simp_all add: b' spec_rest_def put(2) s_def [symmetric] ab_of_set_if levels_set_if)
  from put(3) obtain es1 es2 where es: "nodes s b = es1 @ es2" "entries m' = es1 @ (n, x) # es2"
    unfolding nodes_def by blast
  let ?E = "es1 @ es2 @ nodes (opposite s) b"
  note facts = ok [unfolded mob_ok_iff [of b s] es(1) append.assoc]
  from facts have "fst ` set (orderIndex b) = (ord_id \<circ> snd) ` set ?E"
    by (simp add: image_Un image_image)
  with out have new_id: "ord_id x \<notin> (ord_id \<circ> snd) ` set ?E" by simp
  from facts have "\<forall>e\<in>set ?E. fst e < n" by (simp add: n_def case_prod_unfold)
  then have new_node: "n \<notin> fst ` set ?E" by blast
  have "AList.update (ord_id x) \<lparr>loc_side = s, loc_price = ord_price x, loc_it = n\<rparr> (orderIndex b) =
      orderIndex b @ [ekey (n, x)]"
    using out by (simp add: update_nonkey s_def)
  moreover have "nodes s (mob_addResting b x) = es1 @ (n, x) # es2"
    "nodes (opposite s) (mob_addResting b x) = nodes (opposite s) b"
    by (simp_all add: b' nodes_def es(2))
  ultimately show "mob_ok (mob_addResting b x)"
    using facts put(1) new_id new_node out
    unfolding mob_ok_iff [of _ s] by (auto simp: b' n_def less_Suc_eq)
qed

lemma filter_node_id:
  assumes "distinct (map fst es)" "distinct (map (ord_id \<circ> snd) es)" "(n, x) \<in> set es"
  shows "filter (\<lambda>e. fst e \<noteq> n) es = filter (\<lambda>e. ord_id (snd e) \<noteq> ord_id x) es"
proof (rule filter_cong [OF refl])
  fix e assume e: "e \<in> set es"
  have "fst e = n \<longleftrightarrow> e = (n, x)"
    using assms(1,3) e by (metis distinct_map fst_conv inj_on_def)
  also have "\<dots> \<longleftrightarrow> ord_id (snd e) = ord_id x"
    using assms(2,3) e by (metis comp_apply distinct_map inj_on_def snd_conv)
  finally show "fst e \<noteq> n \<longleftrightarrow> ord_id (snd e) \<noteq> ord_id x" by simp
qed

lemma cancel_found:
  assumes ok: "mob_ok b" and ix: "map_of (orderIndex b) i = Some loc"
  shows "\<exists>b'. mob_cancelOrder b i = Some (True, b') \<and> mob_abs b' = spec_remove i (mob_abs b) \<and> mob_ok b'"
proof -
  obtain n x where nx: "(n, x) \<in> set (nodes (loc_side loc) b)" and x: "ord_id x = i"
    "ord_side x = loc_side loc" "ord_price x = loc_price loc" and n: "loc_it loc = n"
    by (rule index_SomeE [OF ok ix])
  define s where "s = loc_side loc"
  from nodes_ok [OF ok nx] x obtain l where l: "map_of (levels s b) (loc_price loc) = Some l" "(n, x) \<in> set l"
    by (auto simp: s_def)
  then have nl: "n \<in> fst ` set l" by force
  define l' where "l' = filter (\<lambda>(k, _). k \<noteq> n) l"
  define m' where "m' = (if l' = [] then std_erase (loc_price loc) (levels s b)
    else std_put (price_before s) (loc_price loc) l' (levels s b))"
  define b' where "b' = (set_levels s m' b)\<lparr>orderIndex := AList.delete i (orderIndex b)\<rparr>"
  note facts = ok [unfolded mob_ok_iff [of b s]]
  then have dist: "distinct (map fst (entries (levels s b)))" by (simp add: nodes_def)
  note er = erase_level_refines [OF mob_ok_levels [OF ok] l(1) nl dist, folded l'_def, folded m'_def]
  have res: "mob_cancelOrder b i = Some (True, b')"
    using ix l nl n by (simp add: mob_cancelOrder_def erase_node_def s_def l'_def m'_def b'_def Let_def)
  let ?keep = "filter (\<lambda>e. ord_id (snd e) \<noteq> i)"
  have ids: "distinct (map (ord_id \<circ> snd) (nodes s b @ nodes (opposite s) b))"
    using facts by (simp add: comp_def)
  then have "distinct (map (ord_id \<circ> snd) (nodes s b))" by simp
  then have n1: "nodes s b' = ?keep (nodes s b)"
    using er(2) filter_node_id [of "nodes s b" n x] dist nx x(1) by (simp add: nodes_def b'_def s_def)
  have "i \<in> (ord_id \<circ> snd) ` set (nodes s b)" using nx x(1) by (force simp: s_def)
  with ids have "i \<notin> (ord_id \<circ> snd) ` set (nodes (opposite s) b)" by auto
  then have "?keep (nodes (opposite s) b) = nodes (opposite s) b" by (force simp: filter_id_conv)
  then have n2: "nodes (opposite s) b' = ?keep (nodes (opposite s) b)"
    by (simp add: b'_def nodes_def)
  have "level_orders (levels s' b') = filter (\<lambda>x. ord_id x \<noteq> i) (level_orders (levels s' b))" for s'
  proof -
    have "nodes s' b' = ?keep (nodes s' b)" using n1 n2 by (cases s; cases s') simp_all
    then show ?thesis by (simp add: level_orders_nodes filter_map comp_def)
  qed
  then have "mob_abs b' = spec_remove i (mob_abs b)"
    by (intro abook_eqI) (simp_all, simp add: b'_def)
  moreover have "mob_ok b'"
    unfolding mob_ok_iff [of b' s] n1 n2 filter_append [symmetric]
    using facts er(1) by (intro conjI) (auto simp: b'_def set_delete_filter distinct_map_filter
        AList.distinct_delete simp flip: filter_append)
  ultimately show ?thesis using res by blast
qed

lemma loc_it_ekey [simp]: "loc_it (snd (ekey e)) = fst e"
  by (cases e) simp

text \<open>The invariant in terms of the keys of the nodes, which matching only removes.\<close>

lemma mob_ok_keys:
  "mob_ok b \<longleftrightarrow>
     levels_ok s (levels s b) \<and> levels_ok (opposite s) (levels (opposite s) b) \<and>
     (let ks = map ekey (nodes s b) @ map ekey (nodes (opposite s) b)
      in distinct (map fst ks) \<and> distinct (map (loc_it \<circ> snd) ks) \<and>
         (\<forall>k\<in>set ks. loc_it (snd k) < nextNode b) \<and>
         distinct (map fst (orderIndex b)) \<and> set (orderIndex b) = set ks)"
  unfolding mob_ok_iff [of b s] Let_def by (simp add: comp_def case_prod_unfold image_Un ball_Un)

lemma drop_keys:
  assumes "distinct (map fst (xs @ rm @ ys))"
  shows "{e \<in> set (xs @ rm @ ys). fst e \<notin> fst ` set rm} = set (xs @ ys)"
proof -
  from assms have "fst ` set xs \<inter> fst ` set rm = {}" "fst ` set rm \<inter> fst ` set ys = {}" by auto
  then show ?thesis by (auto simp: disjoint_iff)
qed

lemma distinct_drop_middle: "distinct (map f (xs @ rm @ ys)) \<Longrightarrow> distinct (map f (xs @ ys))"
  by auto

lemma match_refines:
  assumes ok: "mob_ok b" and match: "mob_match b s p q i = (fs, r, b')"
  shows "spec_match s p i q (ab_of (opposite s) (mob_abs b)) = (fs, r, ab_of (opposite s) (mob_abs b'))"
    "mob_abs b' = ab_set (opposite s) (ab_of (opposite s) (mob_abs b')) (mob_abs b)"
    "mob_ok b'"
proof -
  let ?o = "opposite s"
  obtain m ix where ml: "match_levels s p i q (levels ?o b) (orderIndex b) = (fs, r, m, ix)"
    and b': "b' = set_levels ?o m (b\<lparr>orderIndex := ix\<rparr>)"
    using match by (auto simp: mob_match_def split: prod.splits)
  note lok = mob_ok_levels [OF ok, of ?o]
  show "spec_match s p i q (ab_of ?o (mob_abs b)) = (fs, r, ab_of ?o (mob_abs b'))"
    using match_levels_spec [OF ml lok] by (simp add: b')
  show "mob_abs b' = ab_set ?o (ab_of ?o (mob_abs b')) (mob_abs b)"
    by (rule abook_eqI) (simp_all add: b' ab_of_set_if levels_set_if)
  obtain rm where keys: "map ekey (nodes ?o b) = rm @ map ekey (nodes ?o b')"
    and ix: "ix = filter (\<lambda>e. fst e \<notin> fst ` set rm) (orderIndex b)"
    using match_levels_index [OF ml lok] by (auto simp: nodes_def b')
  have same: "nodes s b' = nodes s b" "levels s b' = levels s b" by (simp_all add: b' nodes_def)
  note facts = ok [unfolded mob_ok_keys [of b s] keys Let_def]
  from facts have ids: "distinct (map fst (map ekey (nodes s b) @ rm @ map ekey (nodes ?o b')))"
    and idx: "set (orderIndex b) = set (map ekey (nodes s b) @ rm @ map ekey (nodes ?o b'))"
    and its: "distinct (map (loc_it \<circ> snd) (map ekey (nodes s b) @ rm @ map ekey (nodes ?o b')))"
    and bound: "\<forall>k\<in>set (map ekey (nodes s b) @ rm @ map ekey (nodes ?o b')). loc_it (snd k) < nextNode b"
    and dix: "distinct (map fst (orderIndex b))" and lv: "levels_ok s (levels s b)"
    by blast+
  have "set ix = set (map ekey (nodes s b) @ map ekey (nodes ?o b'))"
    using drop_keys [OF ids] unfolding ix set_filter idx .
  then have "set (orderIndex b') = set (map ekey (nodes s b) @ map ekey (nodes ?o b'))" by (simp add: b')
  moreover have "distinct (map fst (orderIndex b'))" using dix by (simp add: b' ix distinct_map_filter)
  moreover have "levels_ok ?o (levels ?o b')" using match_levels_ok [OF ml lok] by (simp add: b')
  moreover have "nextNode b' = nextNode b" by (simp add: b')
  moreover have "distinct (map (loc_it \<circ> snd) (map ekey (nodes s b) @ map ekey (nodes ?o b')))"
    by (rule distinct_drop_middle [OF its])
  moreover have "\<forall>k\<in>set (map ekey (nodes s b) @ map ekey (nodes ?o b')). loc_it (snd k) < nextNode b"
    using bound unfolding ball_Un set_append by blast
  moreover have "distinct (map fst (map ekey (nodes s b) @ map ekey (nodes ?o b')))"
    by (rule distinct_drop_middle [OF ids])
  ultimately show "mob_ok b'"
    unfolding mob_ok_keys [of b' s] Let_def same using lv by simp
qed

theorem newOrder_refines:
  assumes ok: "mob_ok b" and run: "mob_newOrder b i s p q sq = (fs, b')"
  shows "spec_new i s p q sq (mob_abs b) = (fs, mob_abs b') \<and> mob_ok b'"
proof (cases "q \<le> 0 \<or> map_of (orderIndex b) i \<noteq> None")
  case True
  with run ok index_None_iff [OF ok] show ?thesis
    by (auto simp: mob_newOrder_def spec_new_def split: if_splits)
next
  case False
  then have free: "ab_find i (mob_abs b) = None" using index_None_iff [OF ok] by simp
  obtain fs1 r b1 where m: "mob_match b s p q i = (fs1, r, b1)" by (metis prod_cases3)
  note mr = match_refines [OF ok m]
  define x where "x = \<lparr>ord_id = i, ord_side = s, ord_price = p, ord_quantity = r, ord_sequence = sq\<rparr>"
  have "ab_find (ord_id x) (mob_abs b1) = None"
    using ab_find_swept [OF free mr(1)] mr(2) by (simp add: x_def)
  then have rest: "r > 0 \<Longrightarrow> mob_abs (mob_addResting b1 x) = spec_rest x (mob_abs b1)"
    "r > 0 \<Longrightarrow> mob_ok (mob_addResting b1 x)"
    using addResting_refines [OF mr(3), of x] by (simp_all add: x_def)
  have new: "fs = fs1" "b' = (if r > 0 then mob_addResting b1 x else b1)"
    using False run m by (auto simp: mob_newOrder_def x_def split: if_splits)
  have "spec_new i s p q sq (mob_abs b) = (fs1, if r > 0 then spec_rest x (mob_abs b1) else mob_abs b1)"
    using False free mr(1) mr(2) [symmetric] by (simp add: spec_new_def x_def)
  with rest mr(3) new show ?thesis by auto
qed

theorem cancelOrder_refines:
  assumes "mob_ok b"
  shows "\<exists>b'. mob_cancelOrder b i = Some (fst (spec_cancel i (mob_abs b)), b') \<and>
    mob_abs b' = snd (spec_cancel i (mob_abs b)) \<and> mob_ok b'"
proof (cases "map_of (orderIndex b) i")
  case None
  moreover from None have "ab_find i (mob_abs b) = None" using index_None_iff [OF assms] by blast
  ultimately show ?thesis using assms by (simp add: mob_cancelOrder_def spec_cancel_def)
next
  case (Some loc)
  moreover from index_None_iff [OF assms, of i] Some have "ab_find i (mob_abs b) \<noteq> None" by simp
  ultimately show ?thesis using cancel_found [OF assms Some] by (auto simp: spec_cancel_def)
qed

theorem modifyOrder_refines:
  assumes "mob_ok b"
  shows "\<exists>b'. mob_modifyOrder b i p q sq = Some (fst (spec_modify i p q sq (mob_abs b)), b') \<and>
    mob_abs b' = snd (spec_modify i p q sq (mob_abs b)) \<and> mob_ok b'"
proof (cases "map_of (orderIndex b) i")
  case None
  moreover from None have "ab_find i (mob_abs b) = None" using index_None_iff [OF assms] by blast
  ultimately show ?thesis using assms by (simp add: mob_modifyOrder_def spec_modify_def)
next
  case (Some loc)
  from cancel_found [OF assms Some] obtain b1 where b1: "mob_cancelOrder b i = Some (True, b1)"
    "mob_abs b1 = spec_remove i (mob_abs b)" "mob_ok b1" by blast
  obtain n x where x: "ord_side x = loc_side loc" "ab_find i (mob_abs b) = Some x"
    by (rule index_SomeE [OF assms Some])
  define y where "y = \<lparr>ord_id = i, ord_side = loc_side loc, ord_price = p, ord_quantity = q, ord_sequence = sq\<rparr>"
  have "q > 0 \<Longrightarrow> mob_abs (mob_addResting b1 y) = spec_rest y (mob_abs b1)"
    "q > 0 \<Longrightarrow> mob_ok (mob_addResting b1 y)"
    using addResting_refines [OF b1(3), of y] ab_find_spec_remove by (simp_all add: y_def b1(2))
  with b1 x Some show ?thesis
    by (cases "q > 0") (simp_all add: mob_modifyOrder_def spec_modify_def y_def)
qed

section \<open>Queries\<close>

lemma depth_loop_eq:
  "n = 0 \<or> length out < n \<Longrightarrow>
     depth_loop n out m =
       out @ (let ls = map (\<lambda>(p, l). level_of p (map snd l)) m in if n = 0 then ls else take (n - length out) ls)"
proof (induction m arbitrary: out)
  case (Cons e m)
  obtain p l where e: "e = (p, l)" by (cases e)
  show ?case
  proof (cases "n \<noteq> 0 \<and> n \<le> length out + 1")
    case True
    with Cons.prems have "n = length out + 1" by auto
    then show ?thesis by (simp add: e)
  next
    case False
    with Cons.prems have "n = 0 \<or> length (out @ [level_of p (map snd l)]) < n" by auto
    moreover from False have "n \<noteq> 0 \<Longrightarrow> n - length out = Suc (n - Suc (length out))" by simp
    ultimately show ?thesis using Cons.IH False by (cases "n = 0") (simp_all add: e Let_def)
  qed
qed simp

lemma remdups_adj_run:
  "xs \<noteq> [] \<Longrightarrow> \<forall>x\<in>set xs. x = p \<Longrightarrow> p \<notin> set ys \<Longrightarrow> remdups_adj (xs @ ys) = p # remdups_adj ys"
proof (induction xs)
  case (Cons x xs)
  show ?case
  proof (cases xs)
    case Nil
    with Cons.prems show ?thesis by (cases ys) auto
  next
    case (Cons y zs)
    with Cons.IH Cons.prems show ?thesis by simp
  qed
qed simp

lemma level_runs:
  "levels_ok s m \<Longrightarrow>
     map (\<lambda>p. level_of p (filter (\<lambda>x. ord_price x = p) (level_orders m)))
         (remdups_adj (map ord_price (level_orders m))) =
     map (\<lambda>(p, l). level_of p (map snd l)) m"
proof (induction m)
  case (Cons e m)
  obtain p l where e: "e = (p, l)" by (cases e)
  from Cons.prems have l: "l \<noteq> []" "\<forall>x\<in>snd ` set l. ord_price x = p" and m: "levels_ok s m"
    and lt: "\<forall>q\<in>fst ` set m. price_before s p q"
    by (auto simp: e levels_ok_Cons level_ok_def)
  have out: "\<forall>y\<in>set (level_orders m). ord_price y \<noteq> p"
    using level_orders_price [OF m] lt price.lt_irrefl by metis
  have "map ord_price (map snd l) \<noteq> []" "\<forall>x\<in>set (map ord_price (map snd l)). x = p"
    "p \<notin> set (map ord_price (level_orders m))"
    using l out by auto
  from remdups_adj_run [OF this]
  have "remdups_adj (map ord_price (level_orders (e # m))) = p # remdups_adj (map ord_price (level_orders m))"
    by (simp add: e)
  moreover have "filter (\<lambda>x. ord_price x = p) (level_orders (e # m)) = map snd l"
    using l(2) out by (simp add: e filter_id_conv filter_empty_conv)
  moreover have "filter (\<lambda>x. ord_price x = q) (level_orders (e # m)) =
      filter (\<lambda>x. ord_price x = q) (level_orders m)" if "q \<in> ord_price ` set (level_orders m)" for q
    using l(2) out that by (auto simp: e filter_empty_conv)
  then have "map (\<lambda>q. level_of q (filter (\<lambda>x. ord_price x = q) (level_orders (e # m))))
        (remdups_adj (map ord_price (level_orders m))) = map (\<lambda>(p, l). level_of p (map snd l)) m"
    unfolding Cons.IH [OF m, symmetric] by (intro map_cong refl) (simp only: remdups_adj_set set_map)
  ultimately show ?case by (simp only: list.map e prod.case)
qed simp

lemma depth_refines: "levels_ok s m \<Longrightarrow> depth_loop n [] m = spec_depth n (level_orders m)"
  by (simp add: depth_loop_eq spec_depth_def level_runs cut_levels_def Let_def)

lemma best_refines:
  "levels_ok s m \<Longrightarrow> (case m of [] \<Rightarrow> None | (p, _) # _ \<Rightarrow> Some p) = spec_best (level_orders m)"
  by (cases m) (auto simp: spec_best_def levels_ok_Cons level_ok_def neq_Nil_conv)

lemma distinct_level:
  "(p, l) \<in> set m \<Longrightarrow> distinct (map fst (entries m)) \<Longrightarrow> distinct (map fst l)"
  by (induction m) auto

lemma getOrder_refines:
  assumes ok: "mob_ok b" shows "mob_getOrder b i = Some (ab_find i (mob_abs b))"
proof (cases "map_of (orderIndex b) i")
  case None
  moreover from None have "ab_find i (mob_abs b) = None" using index_None_iff [OF ok] by blast
  ultimately show ?thesis by (simp add: mob_getOrder_def)
next
  case (Some loc)
  obtain n x where x: "(n, x) \<in> set (nodes (loc_side loc) b)" "ord_price x = loc_price loc"
    "loc_it loc = n" "ab_find i (mob_abs b) = Some x"
    by (rule index_SomeE [OF ok Some])
  from nodes_ok [OF ok x(1)] x(2) obtain l where
    l: "map_of (levels (loc_side loc) b) (loc_price loc) = Some l" "(n, x) \<in> set l" by auto
  have "distinct (map fst l)"
    using distinct_level [OF map_of_SomeD [OF l(1)]] ok [unfolded mob_ok_iff [of b "loc_side loc"]]
    by (simp add: nodes_def)
  with l have "map_of l n = Some x" by simp
  with Some x l show ?thesis by (simp add: mob_getOrder_def)
qed

lemma orderCount_refines:
  assumes ok: "mob_ok b" shows "mob_orderCount b = length (ab_all (mob_abs b))"
proof -
  have "set (map fst (orderIndex b)) = set (map ord_id (ab_all (mob_abs b)))"
    using index_None_iff [OF ok] by (auto simp: map_of_eq_None_iff ab_find_None set_eq_iff)
  moreover have "distinct (map fst (orderIndex b))" using ok by (simp add: mob_ok_def)
  moreover have "distinct (map ord_id (ab_all (mob_abs b)))"
    using mob_ok_ab_ok [OF ok] by (simp add: ab_ok_def)
  ultimately show ?thesis unfolding mob_orderCount_def by (metis distinct_card length_map)
qed

section \<open>The engine meets the interface\<close>

lemma mob_ok_empty: "mob_ok (mob_empty n)"
  by (simp add: mob_empty_def mob_ok_def all_entries_def entries_def levels_ok_def std_sorted_def)

interpretation map_book: order_book map_book_ops mob_abs mob_ok
proof (unfold_locales, goal_cases)
  case (1 b) then show ?case by (rule mob_ok_ab_ok)
next
  case (2 b i s p q sq)
  then show ?case using newOrder_refines [of b i s p q sq] by (cases "mob_newOrder b i s p q sq") (simp add: map_book_ops_def)
next
  case (3 b i) then show ?case using cancelOrder_refines by (simp add: map_book_ops_def)
next
  case (4 b i p q sq) then show ?case using modifyOrder_refines by (simp add: map_book_ops_def)
next
  case (5 b i) then show ?case by (simp add: map_book_ops_def getOrder_refines)
next
  case (6 b) then show ?case by (simp add: map_book_ops_def orderCount_refines)
next
  case (7 b) show ?case by (simp add: map_book_ops_def)
next
  case (8 b n) then show ?case
    using depth_refines [OF mob_ok_levels [of b Buy]]
    by (simp add: map_book_ops_def mob_bids_view_def mob_abs_def)
next
  case (9 b n) then show ?case
    using depth_refines [OF mob_ok_levels [of b Sell]]
    by (simp add: map_book_ops_def mob_asks_view_def mob_abs_def)
next
  case (10 b) then show ?case
    using best_refines [OF mob_ok_levels [of b Buy]]
    by (simp add: map_book_ops_def mob_bestBid_def mob_abs_def)
next
  case (11 b) then show ?case
    using best_refines [OF mob_ok_levels [of b Sell]]
    by (simp add: map_book_ops_def mob_bestAsk_def mob_abs_def)
next
  case (12 b x) then show ?case by (simp add: map_book_ops_def mob_addRestingOrder_def addResting_refines)
next
  case (13 b) show ?case by (simp add: map_book_ops_def mob_allOrders_def ab_all_def mob_abs_def)
next
  case (14 b name) show ?case
    by (simp add: map_book_ops_def mob_reset_def mob_abs_def spec_reset_def mob_ok_def all_entries_def
        entries_def levels_ok_def std_sorted_def level_orders_def)
qed

end
