(* ===== verification/Skip_List_Order_Book.thy ===== *)
theory Skip_List_Order_Book
  imports Skip_List Map_Book_Refinement
begin

text \<open>
  The second matching engine, \<^verbatim>\<open>app/statemachine/SkipListOrderBook.{h,cpp}\<close>: the price levels live in
  two skip lists instead of two \<^verbatim>\<open>std::map\<close>s. List iterators are node handles as in the first engine;
  the inner matching loop is the same code, so \<open>match_level\<close> is shared.

  Reading a skip list as the map along its bottom level (\<open>skb_map\<close>) turns the engine into the first one:
  every operation returns, with the answer of the first engine and the state of the first engine. The
  contract of the interface follows, so everything proved for an engine holds for this one.
\<close>

section \<open>State\<close>

record SkipListOrderBook =
  skb_symbol :: "byte list"
  skb_bids :: "(int, level) SkipList"
  skb_asks :: "(int, level) SkipList"
  skb_orderIndex :: order_index
  skb_nextNode :: nat
  skb_device :: "nat \<Rightarrow> nat \<Rightarrow> bool"
  skb_seeds :: nat

text \<open>\<open>skb_device\<close> is the random device: each new skip list draws a fresh sequence of coins from it.\<close>

definition skb_levels :: "Side \<Rightarrow> SkipListOrderBook \<Rightarrow> (int, level) SkipList" where
  "skb_levels s b = (case s of Buy \<Rightarrow> skb_bids b | Sell \<Rightarrow> skb_asks b)"

definition skb_set :: "Side \<Rightarrow> (int, level) SkipList \<Rightarrow> SkipListOrderBook \<Rightarrow> SkipListOrderBook" where
  "skb_set s m b = (case s of Buy \<Rightarrow> b\<lparr>skb_bids := m\<rparr> | Sell \<Rightarrow> b\<lparr>skb_asks := m\<rparr>)"

definition skb_new :: "byte list \<Rightarrow> (nat \<Rightarrow> nat \<Rightarrow> bool) \<Rightarrow> SkipListOrderBook" where
  "skb_new name device =
     \<lparr>skb_symbol = name, skb_bids = sl_new 0 [] 65536 (device 0), skb_asks = sl_new 0 [] 65536 (device 1),
      skb_orderIndex = [], skb_nextNode = 0, skb_device = device, skb_seeds = 2\<rparr>"

section \<open>Mutations\<close>

text \<open>A level that has become empty is removed from its skip list.\<close>

definition drop_if_empty :: "Side \<Rightarrow> int \<Rightarrow> level \<Rightarrow> (int, level) SkipList \<Rightarrow> (int, level) SkipList option" where
  "drop_if_empty s price l sl =
     (if l = [] then do { (_, sl) \<leftarrow> sl_remove (price_before s) sl price; Some sl } else Some sl)"

definition skb_cancelOrder :: "SkipListOrderBook \<Rightarrow> u64 \<Rightarrow> (bool \<times> SkipListOrderBook) option" where
  "skb_cancelOrder b orderId =
     (case map_of (skb_orderIndex b) orderId of
        None \<Rightarrow> Some (False, b)
      | Some loc \<Rightarrow>
          do {
            let s = loc_side loc;
            let sl = skb_levels s b;
            found \<leftarrow> sl_find (price_before s) sl (loc_price loc);
            sl \<leftarrow> (case found of
                None \<Rightarrow> Some sl
              | Some a \<Rightarrow> do {
                  nd \<leftarrow> node_at (sl_mem sl) a;
                  l \<leftarrow> erase_node (loc_it loc) (nd_value nd);
                  sl \<leftarrow> sl_setValue sl a l;
                  drop_if_empty s (loc_price loc) l sl
                });
            Some (True, (skb_set s sl b)\<lparr>skb_orderIndex := AList.delete orderId (skb_orderIndex b)\<rparr>)
          })"

definition skb_addResting :: "SkipListOrderBook \<Rightarrow> Order \<Rightarrow> SkipListOrderBook option" where
  "skb_addResting b x =
     do {
       let s = ord_side x;
       let sl = skb_levels s b;
       let n = skb_nextNode b;
       found \<leftarrow> sl_find (price_before s) sl (ord_price x);
       (found, sl) \<leftarrow> (case found of
           Some a \<Rightarrow> Some (Some a, sl)
         | None \<Rightarrow> do {
             (_, sl) \<leftarrow> sl_insert (price_before s) sl (ord_price x) [];
             found \<leftarrow> sl_find (price_before s) sl (ord_price x);
             Some (found, sl)
           });
       a \<leftarrow> found;
       nd \<leftarrow> node_at (sl_mem sl) a;
       sl \<leftarrow> sl_setValue sl a (nd_value nd @ [(n, x)]);
       Some ((skb_set s sl b)
               \<lparr>skb_orderIndex := AList.update (ord_id x)
                  \<lparr>loc_side = s, loc_price = ord_price x, loc_it = n\<rparr> (skb_orderIndex b),
                skb_nextNode := n + 1\<rparr>)
     }"

partial_function (option) skb_match_loop ::
  "Side \<Rightarrow> int \<Rightarrow> u64 \<Rightarrow> int \<Rightarrow> (int, level) SkipList \<Rightarrow> order_index \<Rightarrow>
     (Fill list \<times> int \<times> (int, level) SkipList \<times> order_index) option" where
  "skb_match_loop s p t rem sl ix =
     (if rem > 0
      then do {
        best \<leftarrow> sl_best sl;
        case best of
          None \<Rightarrow> Some ([], rem, sl, ix)
        | Some a \<Rightarrow> do {
            nd \<leftarrow> node_at (sl_mem sl) a;
            if \<not> crosses s p (nd_key nd) then Some ([], rem, sl, ix)
            else do {
              let (fs, r, l, ix1) = match_level s t rem (nd_value nd) ix;
              sl \<leftarrow> sl_setValue sl a l;
              sl \<leftarrow> drop_if_empty (opposite s) (nd_key nd) l sl;
              (fs2, r2, sl2, ix2) \<leftarrow> skb_match_loop s p t r sl ix1;
              Some (fs @ fs2, r2, sl2, ix2)
            }
          }
      }
      else Some ([], rem, sl, ix))"

definition skb_match ::
  "SkipListOrderBook \<Rightarrow> Side \<Rightarrow> int \<Rightarrow> int \<Rightarrow> u64 \<Rightarrow> (Fill list \<times> int \<times> SkipListOrderBook) option" where
  "skb_match b side takerPrice remainingQty takerId =
     do {
       (fs, r, sl, ix) \<leftarrow> skb_match_loop side takerPrice takerId remainingQty
                           (skb_levels (opposite side) b) (skb_orderIndex b);
       Some (fs, r, skb_set (opposite side) sl (b\<lparr>skb_orderIndex := ix\<rparr>))
     }"

definition skb_newOrder ::
  "SkipListOrderBook \<Rightarrow> u64 \<Rightarrow> Side \<Rightarrow> int \<Rightarrow> int \<Rightarrow> u64 \<Rightarrow> (Fill list \<times> SkipListOrderBook) option" where
  "skb_newOrder b orderId side price quantity sequence =
     (if quantity \<le> 0 then Some ([], b)
      else if map_of (skb_orderIndex b) orderId \<noteq> None then Some ([], b)
      else do {
        (fills, remaining, b') \<leftarrow> skb_match b side price quantity orderId;
        if remaining > 0
        then do {
          b' \<leftarrow> skb_addResting b' \<lparr>ord_id = orderId, ord_side = side, ord_price = price,
                                   ord_quantity = remaining, ord_sequence = sequence\<rparr>;
          Some (fills, b')
        }
        else Some (fills, b')
      })"

definition skb_modifyOrder ::
  "SkipListOrderBook \<Rightarrow> u64 \<Rightarrow> int \<Rightarrow> int \<Rightarrow> u64 \<Rightarrow> (bool \<times> SkipListOrderBook) option" where
  "skb_modifyOrder b orderId newPrice newQuantity newSequence =
     (case map_of (skb_orderIndex b) orderId of
        None \<Rightarrow> Some (False, b)
      | Some loc \<Rightarrow>
          do {
            (_, b') \<leftarrow> skb_cancelOrder b orderId;
            if newQuantity > 0
            then do {
              b' \<leftarrow> skb_addResting b' \<lparr>ord_id = orderId, ord_side = loc_side loc, ord_price = newPrice,
                                       ord_quantity = newQuantity, ord_sequence = newSequence\<rparr>;
              Some (True, b')
            }
            else Some (True, b')
          })"

definition skb_addRestingOrder :: "SkipListOrderBook \<Rightarrow> Order \<Rightarrow> SkipListOrderBook option" where
  "skb_addRestingOrder b x = skb_addResting b x"

fun skb_rebuild :: "SkipListOrderBook \<Rightarrow> Order list \<Rightarrow> SkipListOrderBook option" where
  "skb_rebuild b [] = Some b"
| "skb_rebuild b (x # xs) = do { b \<leftarrow> skb_addRestingOrder b x; skb_rebuild b xs }"

definition skb_reset :: "SkipListOrderBook \<Rightarrow> byte list \<Rightarrow> SkipListOrderBook" where
  "skb_reset b name =
     b\<lparr>skb_symbol := name, skb_orderIndex := [],
       skb_bids := sl_new 0 [] 65536 (skb_device b (skb_seeds b)),
       skb_asks := sl_new 0 [] 65536 (skb_device b (skb_seeds b + 1)), skb_seeds := skb_seeds b + 2\<rparr>"

section \<open>Queries\<close>

text \<open>The loops \<open>while (n) { ...; n = n->forward[0]; }\<close>.\<close>

partial_function (option) skb_orders :: "(int, level) Node list \<Rightarrow> nat option \<Rightarrow> Order list option" where
  "skb_orders h n =
     (case n of
        None \<Rightarrow> Some []
      | Some a \<Rightarrow> do {
          nd \<leftarrow> node_at h a;
          next \<leftarrow> fwd h 0 a;
          out \<leftarrow> skb_orders h next;
          Some (map snd (nd_value nd) @ out)
        })"

definition skb_allOrders :: "SkipListOrderBook \<Rightarrow> Order list option" where
  "skb_allOrders b =
     do {
       n \<leftarrow> sl_best (skb_bids b);
       bids \<leftarrow> skb_orders (sl_mem (skb_bids b)) n;
       m \<leftarrow> sl_best (skb_asks b);
       asks \<leftarrow> skb_orders (sl_mem (skb_asks b)) m;
       Some (bids @ asks)
     }"

partial_function (option) skb_depth ::
  "(int, level) Node list \<Rightarrow> nat \<Rightarrow> nat option \<Rightarrow> PriceLevel list \<Rightarrow> PriceLevel list option" where
  "skb_depth h maxLevels n out =
     (case n of
        None \<Rightarrow> Some out
      | Some a \<Rightarrow> do {
          nd \<leftarrow> node_at h a;
          out \<leftarrow> Some (out @ [level_of (nd_key nd) (map snd (nd_value nd))]);
          if maxLevels \<noteq> 0 \<and> length out \<ge> maxLevels then Some out
          else do { next \<leftarrow> fwd h 0 a; skb_depth h maxLevels next out }
        })"

definition skb_bids_view :: "SkipListOrderBook \<Rightarrow> nat \<Rightarrow> PriceLevel list option" where
  "skb_bids_view b maxLevels =
     do { n \<leftarrow> sl_best (skb_bids b); skb_depth (sl_mem (skb_bids b)) maxLevels n [] }"

definition skb_asks_view :: "SkipListOrderBook \<Rightarrow> nat \<Rightarrow> PriceLevel list option" where
  "skb_asks_view b maxLevels =
     do { n \<leftarrow> sl_best (skb_asks b); skb_depth (sl_mem (skb_asks b)) maxLevels n [] }"

definition best_key :: "(int, level) SkipList \<Rightarrow> int option option" where
  "best_key sl =
     do {
       n \<leftarrow> sl_best sl;
       case n of None \<Rightarrow> Some None | Some a \<Rightarrow> do { nd \<leftarrow> node_at (sl_mem sl) a; Some (Some (nd_key nd)) }
     }"

definition skb_bestBid :: "SkipListOrderBook \<Rightarrow> int option option" where
  "skb_bestBid b = best_key (skb_bids b)"

definition skb_bestAsk :: "SkipListOrderBook \<Rightarrow> int option option" where
  "skb_bestAsk b = best_key (skb_asks b)"

text \<open>A list node is alive while the skip-list node that owns its list is reachable from the head; a
  stored iterator dereferences such a node or is dangling (\<open>None\<close>).\<close>

definition skb_getOrder :: "SkipListOrderBook \<Rightarrow> u64 \<Rightarrow> Order option option" where
  "skb_getOrder b orderId =
     (case map_of (skb_orderIndex b) orderId of
        None \<Rightarrow> Some None
      | Some loc \<Rightarrow>
          do {
            x \<leftarrow> map_of (entries (sl_abs (skb_levels (loc_side loc) b))) (loc_it loc);
            Some (Some x)
          })"

definition skb_orderCount :: "SkipListOrderBook \<Rightarrow> nat" where
  "skb_orderCount b = length (skb_orderIndex b)"

definition skip_book_ops :: "SkipListOrderBook IOrderBook" where
  "skip_book_ops =
     \<lparr>ob_newOrder = skb_newOrder, ob_cancelOrder = skb_cancelOrder, ob_modifyOrder = skb_modifyOrder,
      ob_getOrder = skb_getOrder, ob_orderCount = skb_orderCount, ob_symbol = skb_symbol,
      ob_bids = skb_bids_view, ob_asks = skb_asks_view, ob_bestBid = skb_bestBid,
      ob_bestAsk = skb_bestAsk, ob_addRestingOrder = skb_addRestingOrder,
      ob_allOrders = skb_allOrders, ob_reset = skb_reset\<rparr>"

section \<open>The engine simulates the first one\<close>

definition skb_map :: "SkipListOrderBook \<Rightarrow> MapOrderBook" where
  "skb_map b =
     \<lparr>mob_symbol = skb_symbol b, mob_bids = sl_abs (skb_bids b), mob_asks = sl_abs (skb_asks b),
      orderIndex = skb_orderIndex b, nextNode = skb_nextNode b\<rparr>"

definition skb_lists_ok :: "SkipListOrderBook \<Rightarrow> bool" where
  "skb_lists_ok b \<longleftrightarrow> sl_ok (price_before Buy) (skb_bids b) \<and> sl_ok (price_before Sell) (skb_asks b)"

interpretation skip: ordered_keys "price_before s"
  by unfold_locales

lemma skb_map_simps [simp]:
  "mob_symbol (skb_map b) = skb_symbol b" "mob_bids (skb_map b) = sl_abs (skb_bids b)"
  "mob_asks (skb_map b) = sl_abs (skb_asks b)" "orderIndex (skb_map b) = skb_orderIndex b"
  "nextNode (skb_map b) = skb_nextNode b" "levels s (skb_map b) = sl_abs (skb_levels s b)"
  by (cases s; simp add: skb_map_def skb_levels_def)+

lemma skb_map_set:
  "skb_map ((skb_set s sl b)\<lparr>skb_orderIndex := ix\<rparr>) = (set_levels s (sl_abs sl) (skb_map b))\<lparr>orderIndex := ix\<rparr>"
  "skb_map (skb_set s sl (b\<lparr>skb_orderIndex := ix\<rparr>)) = set_levels s (sl_abs sl) ((skb_map b)\<lparr>orderIndex := ix\<rparr>)"
  "skb_map ((skb_set s sl b)\<lparr>skb_orderIndex := ix, skb_nextNode := n\<rparr>) =
     (set_levels s (sl_abs sl) (skb_map b))\<lparr>orderIndex := ix, nextNode := n\<rparr>"
  by (cases s; simp add: skb_map_def skb_set_def set_levels_def)+

lemma lists_okD: "skb_lists_ok b \<Longrightarrow> sl_ok (price_before s) (skb_levels s b)"
  by (cases s) (simp_all add: skb_lists_ok_def skb_levels_def)

lemma lists_ok_set:
  "skb_lists_ok b \<Longrightarrow> sl_ok (price_before s) sl \<Longrightarrow> skb_lists_ok ((skb_set s sl b)\<lparr>skb_orderIndex := ix\<rparr>)"
  "skb_lists_ok b \<Longrightarrow> sl_ok (price_before s) sl \<Longrightarrow> skb_lists_ok (skb_set s sl (b\<lparr>skb_orderIndex := ix\<rparr>))"
  "skb_lists_ok b \<Longrightarrow> sl_ok (price_before s) sl \<Longrightarrow>
     skb_lists_ok ((skb_set s sl b)\<lparr>skb_orderIndex := ix, skb_nextNode := n\<rparr>)"
  by (cases s; simp add: skb_lists_ok_def skb_set_def)+

lemma drop_if_empty_refines:
  assumes "sl_ok (price_before s) sl"
  shows "\<exists>sl'. drop_if_empty s p l sl = Some sl' \<and> sl_ok (price_before s) sl' \<and>
    sl_abs sl' = (if l = [] then std_erase p (sl_abs sl) else sl_abs sl)"
  using assms skip.remove_refines [OF assms, of p] by (auto simp: drop_if_empty_def)

lemma cancel_simulates:
  assumes ok: "skb_lists_ok b" and run: "mob_cancelOrder (skb_map b) i = Some (r, m)"
  shows "\<exists>b'. skb_cancelOrder b i = Some (r, b') \<and> skb_map b' = m \<and> skb_lists_ok b'"
proof (cases "map_of (skb_orderIndex b) i")
  case None
  then show ?thesis using assms by (simp add: mob_cancelOrder_def skb_cancelOrder_def)
next
  case (Some loc)
  let ?s = "loc_side loc" and ?p = "loc_price loc"
  note okl = lists_okD [OF ok, of ?s]
  from okl show ?thesis
  proof (cases rule: skip.find_cases [where k = ?p])
    case miss
    then show ?thesis using run Some by (simp add: mob_cancelOrder_def)
  next
    case (hit a nd)
    obtain l where l: "erase_node (loc_it loc) (nd_value nd) = Some l"
      using run Some hit(4) by (auto simp: mob_cancelOrder_def bind_eq_Some_conv)
    obtain sl1 where sl1: "sl_setValue (skb_levels ?s b) a l = Some sl1" "sl_ok (price_before ?s) sl1"
      "sl_abs sl1 = std_put (price_before ?s) ?p l (sl_abs (skb_levels ?s b))" using hit(5) by blast
    obtain sl2 where sl2: "drop_if_empty ?s ?p l sl1 = Some sl2" "sl_ok (price_before ?s) sl2"
      "sl_abs sl2 = (if l = [] then std_erase ?p (sl_abs sl1) else sl_abs sl1)"
      using drop_if_empty_refines [OF sl1(2)] by blast
    show ?thesis
      using run Some hit(1,2,4) l sl1 sl2(1) lists_ok_set(1) [OF ok sl2(2)]
      by (auto simp: mob_cancelOrder_def skb_cancelOrder_def skb_map_set sl2(3) price.erase_put)
  qed
qed

lemma addResting_simulates:
  assumes ok: "skb_lists_ok b"
  shows "\<exists>b'. skb_addResting b x = Some b' \<and> skb_map b' = mob_addResting (skb_map b) x \<and> skb_lists_ok b'"
proof -
  let ?s = "ord_side x" and ?p = "ord_price x" and ?n = "skb_nextNode b"
  let ?sl = "skb_levels ?s b"
  note okl = lists_okD [OF ok, of ?s]
  from okl show ?thesis
  proof (cases rule: skip.find_cases [where k = ?p])
    case (hit a nd)
    obtain sl1 where sl1: "sl_setValue ?sl a (nd_value nd @ [(?n, x)]) = Some sl1" "sl_ok (price_before ?s) sl1"
      "sl_abs sl1 = std_put (price_before ?s) ?p (nd_value nd @ [(?n, x)]) (sl_abs ?sl)" using hit(5) by blast
    show ?thesis
      using hit(1,2,4) sl1(1,3) lists_ok_set(3) [OF ok sl1(2)]
      by (simp add: skb_addResting_def mob_addResting_def skb_map_set Let_def)
  next
    case miss
    obtain sl0 where sl0: "sl_insert (price_before ?s) ?sl ?p [] = Some (True, sl0)" "sl_ok (price_before ?s) sl0"
      "sl_abs sl0 = std_put (price_before ?s) ?p [] (sl_abs ?sl)"
      using skip.insert_refines [OF okl, of ?p "[]"] miss(2) by auto
    have at: "map_of (sl_abs sl0) ?p = Some []"
      using price.put_map_of [OF sl_ok_sorted [OF okl], of ?p "[]"] sl0(3) by simp
    from sl0(2) show ?thesis
    proof (cases rule: skip.find_cases [where k = ?p])
      case (hit a nd)
      obtain sl1 where sl1: "sl_setValue sl0 a [(?n, x)] = Some sl1" "sl_ok (price_before ?s) sl1"
        "sl_abs sl1 = std_put (price_before ?s) ?p [(?n, x)] (sl_abs sl0)" using hit(5) by blast
      show ?thesis
        using miss hit(1,2,4) at sl0(1,3) sl1(1,3) lists_ok_set(3) [OF ok sl1(2)]
        by (simp add: skb_addResting_def mob_addResting_def skb_map_set price.put_put Let_def)
    qed (use at in simp)
  qed
qed

lemma match_simulates:
  "match_levels s p t rem m ix = (fs, r, m', ix') \<Longrightarrow> sl_ok (price_before (opposite s)) sl \<Longrightarrow> sl_abs sl = m \<Longrightarrow>
     \<exists>sl'. skb_match_loop s p t rem sl ix = Some (fs, r, sl', ix') \<and> sl_ok (price_before (opposite s)) sl' \<and> sl_abs sl' = m'"
proof (induction s p t rem m ix arbitrary: fs r m' ix' sl rule: match_levels.induct)
  case (1 s p t rem ix)
  from "1.prems"(2) show ?case
  proof (cases rule: skip.best_cases)
    case empty
    then show ?thesis using "1.prems" by (auto simp: skb_match_loop.simps)
  qed (use "1.prems" in simp)
next
  case (2 s p t rem p0 lv m ix)
  from "2.prems"(2) show ?case
  proof (cases rule: skip.best_cases)
    case (first a nd m0)
    with "2.prems"(3) have nd: "nd_key nd = p0" "nd_value nd = lv" "m0 = m" by auto
    show ?thesis
    proof (cases "rem > 0 \<and> crosses s p p0")
      case False
      then show ?thesis
        using "2.prems" first(1,2) nd by (auto simp: match_levels_skip skb_match_loop.simps)
    next
      case True
      obtain fs1 r1 l1 ix1 fs2 where
        lv: "match_level s t rem lv ix = (fs1, r1, l1, ix1)" and
        rec: "match_levels s p t r1 (if l1 = [] then std_erase p0 ((p0, l1) # m) else (p0, l1) # m) ix1 =
          (fs2, r, m', ix')" and out: "fs = fs1 @ fs2"
        by (rule match_levels_sweepE [OF "2.prems"(1) True])
      obtain sl1 where sl1: "sl_setValue sl a l1 = Some sl1" "sl_ok (price_before (opposite s)) sl1"
        "sl_abs sl1 = (p0, l1) # m" using first(4) [of l1] nd by auto
      obtain sl2 where sl2: "drop_if_empty (opposite s) p0 l1 sl1 = Some sl2" "sl_ok (price_before (opposite s)) sl2"
        "sl_abs sl2 = (if l1 = [] then std_erase p0 ((p0, l1) # m) else (p0, l1) # m)"
        using drop_if_empty_refines [OF sl1(2), of p0 l1] sl1(3) by auto
      from "2.IH" [OF True refl lv [symmetric] refl refl refl rec sl2(2,3)] obtain sl' where
        "skb_match_loop s p t r1 sl2 ix1 = Some (fs2, r, sl', ix')" "sl_ok (price_before (opposite s)) sl'" "sl_abs sl' = m'"
        by blast
      then show ?thesis
        using True first(1,2) nd lv out sl1(1) sl2(1) by (simp add: skb_match_loop.simps [of s p t rem sl])
    qed
  qed (use "2.prems" in simp)
qed

lemma newOrder_simulates:
  assumes ok: "skb_lists_ok b" and run: "mob_newOrder (skb_map b) i s p q sq = (fs, m)"
  shows "\<exists>b'. skb_newOrder b i s p q sq = Some (fs, b') \<and> skb_map b' = m \<and> skb_lists_ok b'"
proof (cases "q \<le> 0 \<or> map_of (skb_orderIndex b) i \<noteq> None")
  case True
  then have "mob_newOrder (skb_map b) i s p q sq = ([], skb_map b)" "skb_newOrder b i s p q sq = Some ([], b)"
    by (auto simp: mob_newOrder_def skb_newOrder_def)
  then show ?thesis using assms by simp
next
  case False
  obtain fs1 r m1 ix1 where ml: "match_levels s p i q (sl_abs (skb_levels (opposite s) b)) (skb_orderIndex b) = (fs1, r, m1, ix1)"
    by (metis prod_cases4)
  from match_simulates [OF ml lists_okD [OF ok] refl] obtain sl where
    sl: "skb_match_loop s p i q (skb_levels (opposite s) b) (skb_orderIndex b) = Some (fs1, r, sl, ix1)"
      "sl_ok (price_before (opposite s)) sl" "sl_abs sl = m1" by blast
  let ?b1 = "skb_set (opposite s) sl (b\<lparr>skb_orderIndex := ix1\<rparr>)"
  have b1: "skb_lists_ok ?b1" by (rule lists_ok_set(2) [OF ok sl(2)])
  have mob: "mob_match (skb_map b) s p q i = (fs1, r, skb_map ?b1)"
    using ml by (simp add: mob_match_def skb_map_set sl(3))
  have skb: "skb_match b s p q i = Some (fs1, r, ?b1)" using sl(1) by (simp add: skb_match_def)
  define x where "x = \<lparr>ord_id = i, ord_side = s, ord_price = p, ord_quantity = r, ord_sequence = sq\<rparr>"
  obtain b2 where b2: "skb_addResting ?b1 x = Some b2" "skb_map b2 = mob_addResting (skb_map ?b1) x" "skb_lists_ok b2"
    using addResting_simulates [OF b1] by blast
  have "(fs, m) = (fs1, if r > 0 then skb_map b2 else skb_map ?b1)"
    using run False mob b2(2) by (simp add: mob_newOrder_def x_def split: if_splits)
  moreover have "skb_newOrder b i s p q sq = Some (fs1, if r > 0 then b2 else ?b1)"
    using False skb b2(1) by (simp add: skb_newOrder_def x_def)
  ultimately show ?thesis using b1 b2(3) by auto
qed

lemma modify_simulates:
  assumes ok: "skb_lists_ok b" and run: "mob_modifyOrder (skb_map b) i p q sq = Some (r, m)"
  shows "\<exists>b'. skb_modifyOrder b i p q sq = Some (r, b') \<and> skb_map b' = m \<and> skb_lists_ok b'"
proof (cases "map_of (skb_orderIndex b) i")
  case None
  then show ?thesis using assms by (simp add: mob_modifyOrder_def skb_modifyOrder_def)
next
  case (Some loc)
  with run obtain r1 m1 where m1: "mob_cancelOrder (skb_map b) i = Some (r1, m1)"
    by (auto simp: mob_modifyOrder_def bind_eq_Some_conv)
  from cancel_simulates [OF ok m1] obtain b1 where
    b1: "skb_cancelOrder b i = Some (r1, b1)" "skb_map b1 = m1" "skb_lists_ok b1" by blast
  define x where "x = \<lparr>ord_id = i, ord_side = loc_side loc, ord_price = p, ord_quantity = q, ord_sequence = sq\<rparr>"
  obtain b2 where b2: "skb_addResting b1 x = Some b2" "skb_map b2 = mob_addResting m1 x" "skb_lists_ok b2"
    using addResting_simulates [OF b1(3)] b1(2) by blast
  have "(r, m) = (True, if q > 0 then skb_map b2 else skb_map b1)"
    using run Some m1 b2(2) b1(2) by (simp add: mob_modifyOrder_def x_def split: if_splits)
  moreover have "skb_modifyOrder b i p q sq = Some (True, if q > 0 then b2 else b1)"
    using Some b1(1) b2(1) by (simp add: skb_modifyOrder_def x_def)
  ultimately show ?thesis using b1(3) b2(3) by auto
qed

lemma depth_chain:
  "linked (fwd h 0) c ns \<Longrightarrow> \<forall>a\<in>set ns. a < length h \<Longrightarrow>
     skb_depth h n (case ns of [] \<Rightarrow> None | a # _ \<Rightarrow> Some a) out = Some (depth_loop n out (map (sl_pair h) ns))"
proof (induction ns arbitrary: c out)
  case (Cons a ns)
  have "fwd h 0 a = Some (case ns of [] \<Rightarrow> None | a # _ \<Rightarrow> Some a)"
    using Cons.prems(1) by (cases ns) auto
  moreover have "skb_depth h n (case ns of [] \<Rightarrow> None | a # _ \<Rightarrow> Some a) out' = Some (depth_loop n out' (map (sl_pair h) ns))" for out'
    using Cons by auto
  ultimately show ?case
    using Cons.prems(2) by (subst skb_depth.simps) (simp add: node_at_def sl_pair_def Let_def)
qed (simp add: skb_depth.simps)

lemma orders_chain:
  "linked (fwd h 0) c ns \<Longrightarrow> \<forall>a\<in>set ns. a < length h \<Longrightarrow>
     skb_orders h (case ns of [] \<Rightarrow> None | a # _ \<Rightarrow> Some a) = Some (level_orders (map (sl_pair h) ns))"
proof (induction ns arbitrary: c)
  case (Cons a ns)
  have "fwd h 0 a = Some (case ns of [] \<Rightarrow> None | a # _ \<Rightarrow> Some a)"
    using Cons.prems(1) by (cases ns) auto
  moreover have "skb_orders h (case ns of [] \<Rightarrow> None | a # _ \<Rightarrow> Some a) = Some (level_orders (map (sl_pair h) ns))"
    using Cons by auto
  ultimately show ?case
    using Cons.prems(2) by (subst skb_orders.simps) (simp add: node_at_def sl_pair_def)
qed (simp add: skb_orders.simps)

lemma bottom_chain:
  assumes "sl_ok lt sl"
  shows "linked (fwd (sl_mem sl) 0) (sl_head sl) (sl_addrs sl)" "\<forall>a\<in>set (sl_addrs sl). a < length (sl_mem sl)"
    "sl_best sl = Some (case sl_addrs sl of [] \<Rightarrow> None | a # _ \<Rightarrow> Some a)"
proof -
  have inv: "sl_inv lt sl (sl_addrs sl)" using assms by (simp add: sl_ok_def)
  show "linked (fwd (sl_mem sl) 0) (sl_head sl) (sl_addrs sl)"
    using sl_invD(10) [OF inv, of 0] tall_0 [OF inv] by simp
  show "\<forall>a\<in>set (sl_addrs sl). a < length (sl_mem sl)" using sl_invD(6) [OF inv] by blast
  show "sl_best sl = Some (case sl_addrs sl of [] \<Rightarrow> None | a # _ \<Rightarrow> Some a)" by (rule best_node [OF inv])
qed

lemma queries_simulate:
  assumes "skb_lists_ok b"
  shows "skb_bids_view b n = Some (mob_bids_view (skb_map b) n)" "skb_asks_view b n = Some (mob_asks_view (skb_map b) n)"
    "skb_bestBid b = Some (mob_bestBid (skb_map b))" "skb_bestAsk b = Some (mob_bestAsk (skb_map b))"
    "skb_allOrders b = Some (mob_allOrders (skb_map b))"
proof -
  have ok: "sl_ok (price_before Buy) (skb_bids b)" "sl_ok (price_before Sell) (skb_asks b)"
    using assms by (simp_all add: skb_lists_ok_def)
  note chains = bottom_chain [OF ok(1)] bottom_chain [OF ok(2)]
  show "skb_bids_view b n = Some (mob_bids_view (skb_map b) n)" "skb_asks_view b n = Some (mob_asks_view (skb_map b) n)"
    "skb_allOrders b = Some (mob_allOrders (skb_map b))"
    using chains depth_chain [OF chains(1,2)] depth_chain [OF chains(4,5)] orders_chain [OF chains(1,2)] orders_chain [OF chains(4,5)]
    by (simp_all add: skb_bids_view_def mob_bids_view_def skb_asks_view_def mob_asks_view_def skb_allOrders_def
        mob_allOrders_def sl_abs_def)
  have key: "best_key sl = Some (case sl_abs sl of [] \<Rightarrow> None | (p, _) # _ \<Rightarrow> Some p)" if "sl_ok (price_before s) sl" for s sl
    using bottom_chain [OF that] by (cases "sl_addrs sl") (simp_all add: best_key_def sl_abs_def node_at_def sl_pair_def)
  show "skb_bestBid b = Some (mob_bestBid (skb_map b))" "skb_bestAsk b = Some (mob_bestAsk (skb_map b))"
    using key ok by (simp_all add: skb_bestBid_def mob_bestBid_def skb_bestAsk_def mob_bestAsk_def)
qed

lemma getOrder_simulates:
  assumes ok: "mob_ok (skb_map b)" and run: "mob_getOrder (skb_map b) i = Some r"
  shows "skb_getOrder b i = Some r"
proof (cases "map_of (skb_orderIndex b) i")
  case None
  then show ?thesis using run by (simp add: mob_getOrder_def skb_getOrder_def)
next
  case (Some loc)
  let ?m = "sl_abs (skb_levels (loc_side loc) b)"
  from run Some obtain l x where l: "map_of ?m (loc_price loc) = Some l" "map_of l (loc_it loc) = Some x" "r = Some x"
    by (auto simp: mob_getOrder_def bind_eq_Some_conv)
  have "(loc_it loc, x) \<in> set (entries ?m)"
    using map_of_SomeD [OF l(1)] map_of_SomeD [OF l(2)] by (force simp: entries_def)
  moreover have "distinct (map fst (entries ?m))"
    using ok by (cases "loc_side loc") (auto simp: mob_ok_def all_entries_def skb_levels_def)
  ultimately show ?thesis using Some l(3) by (simp add: skb_getOrder_def)
qed

section \<open>The engine meets the interface\<close>

definition skb_abs :: "SkipListOrderBook \<Rightarrow> abook" where
  "skb_abs b = mob_abs (skb_map b)"

definition skb_ok :: "SkipListOrderBook \<Rightarrow> bool" where
  "skb_ok b \<longleftrightarrow> skb_lists_ok b \<and> mob_ok (skb_map b)"

lemma skb_new_ok: "skb_ok (skb_new name device)" "skb_abs (skb_new name device) = spec_reset name"
  by (simp_all add: skb_ok_def skb_new_def skb_lists_ok_def sl_new_ok skb_abs_def skb_map_def mob_abs_def spec_reset_def
      mob_ok_def all_entries_def levels_ok_def std_sorted_def)

interpretation skip_book: order_book skip_book_ops skb_abs skb_ok
proof (unfold_locales, goal_cases)
  case (1 b) then show ?case by (simp add: skb_ok_def skb_abs_def map_book.inv_ab_ok)
next
  case (2 b i s p q sq)
  obtain fs m where run: "mob_newOrder (skb_map b) i s p q sq = (fs, m)" by fastforce
  from 2 newOrder_simulates [OF _ run] newOrder_refines [OF _ run] show ?case
    by (fastforce simp: skb_ok_def skb_abs_def skip_book_ops_def)
next
  case (3 b i)
  then obtain m where m: "mob_cancelOrder (skb_map b) i = Some (fst (spec_cancel i (skb_abs b)), m)"
    "mob_abs m = snd (spec_cancel i (skb_abs b))" "mob_ok m"
    using cancelOrder_refines [of "skb_map b" i] by (auto simp: skb_ok_def skb_abs_def)
  from 3 cancel_simulates [OF _ m(1)] m(2,3) show ?case by (auto simp: skb_ok_def skb_abs_def skip_book_ops_def)
next
  case (4 b i p q sq)
  then obtain m where m: "mob_modifyOrder (skb_map b) i p q sq = Some (fst (spec_modify i p q sq (skb_abs b)), m)"
    "mob_abs m = snd (spec_modify i p q sq (skb_abs b))" "mob_ok m"
    using modifyOrder_refines [of "skb_map b" i p q sq] by (auto simp: skb_ok_def skb_abs_def)
  from 4 modify_simulates [OF _ m(1)] m(2,3) show ?case by (auto simp: skb_ok_def skb_abs_def skip_book_ops_def)
next
  case (5 b i) then show ?case
    using getOrder_simulates [OF _ getOrder_refines [of "skb_map b" i]] by (simp add: skb_ok_def skb_abs_def skip_book_ops_def)
next
  case (6 b) then show ?case
    using orderCount_refines [of "skb_map b"] by (simp add: skb_ok_def skb_abs_def skip_book_ops_def skb_orderCount_def mob_orderCount_def)
next
  case (7 b) show ?case by (simp add: skip_book_ops_def skb_abs_def)
next
  case (8 b n) then show ?case
    using map_book.bids_refines [of "skb_map b" n] by (simp add: skb_ok_def skb_abs_def skip_book_ops_def map_book_ops_def queries_simulate)
next
  case (9 b n) then show ?case
    using map_book.asks_refines [of "skb_map b" n] by (simp add: skb_ok_def skb_abs_def skip_book_ops_def map_book_ops_def queries_simulate)
next
  case (10 b) then show ?case
    using map_book.bestBid_refines [of "skb_map b"] by (simp add: skb_ok_def skb_abs_def skip_book_ops_def map_book_ops_def queries_simulate)
next
  case (11 b) then show ?case
    using map_book.bestAsk_refines [of "skb_map b"] by (simp add: skb_ok_def skb_abs_def skip_book_ops_def map_book_ops_def queries_simulate)
next
  case (12 b x)
  then have "mob_abs (mob_addResting (skb_map b) x) = spec_rest x (skb_abs b)" "mob_ok (mob_addResting (skb_map b) x)"
    using addResting_refines [of "skb_map b" x] by (simp_all add: skb_ok_def skb_abs_def)
  with 12(1) addResting_simulates [of b x] show ?case
    by (auto simp: skb_ok_def skb_abs_def skip_book_ops_def skb_addRestingOrder_def)
next
  case (13 b) then show ?case
    using map_book.all_refines [of "skb_map b"] by (simp add: skb_ok_def skb_abs_def skip_book_ops_def map_book_ops_def queries_simulate)
next
  case (14 b name) show ?case
    by (simp add: skip_book_ops_def skb_reset_def skb_ok_def skb_lists_ok_def sl_new_ok skb_abs_def skb_map_def mob_abs_def
        spec_reset_def mob_ok_def all_entries_def levels_ok_def std_sorted_def)
qed

end
