(* ===== verification/LOB_State_Machine.thy ===== *)
theory LOB_State_Machine
  imports Order_Protocol Skip_List_Order_Book
begin

text \<open>
  The replicated state machine of the order book, \<^verbatim>\<open>app/statemachine/LOBStateMachine.{h,cpp}\<close>.

  The engine is injected: every definition takes the record of virtual functions of
  \<^verbatim>\<open>IOrderBook\<close>. The lemmas are proved once in the locale of the interface, so they hold for
  every engine that meets the contract. \<open>spec_apply\<close> is the same machine over the abstract book.
  The mutex only serialises the calls; each operation is one atomic step here.
\<close>

section \<open>State and operations\<close>

record 'b LOBStateMachine =
  lsm_book :: 'b
  lsm_nextSeq :: u64

definition lsm_init :: "'b \<Rightarrow> 'b LOBStateMachine" where
  "lsm_init b = \<lparr>lsm_book = b, lsm_nextSeq = 1\<rparr>"

text \<open>\<open>None\<close>: an operation of the engine threw, used a stale pointer or did not return.\<close>

definition lob_apply ::
  "'b IOrderBook \<Rightarrow> 'b LOBStateMachine \<Rightarrow> byte list \<Rightarrow> (byte list \<times> 'b LOBStateMachine) option" where
  "lob_apply ops st data =
     (if data = [] then Some (encodeSimpleResult False, st)
      else
        let op = hd data;
            seq = lsm_nextSeq st;
            st = st\<lparr>lsm_nextSeq := seq + 1\<rparr>;
            book = lsm_book st;
            fail = Some (encodeSimpleResult False, st)
        in if op = OP_NEW then
             (case decodeNew data of
                None \<Rightarrow> fail
              | Some (orderId, side, price, quantity) \<Rightarrow>
                  if quantity \<le> 0 then fail
                  else do {
                    found \<leftarrow> ob_getOrder ops book orderId;
                    if found \<noteq> None then fail
                    else do {
                      (fills, book') \<leftarrow> ob_newOrder ops book orderId side price quantity seq;
                      let filled = fold (\<lambda>f acc. acc + fill_quantity f) fills 0;
                      let remaining = quantity - filled;
                      let rested = (remaining > 0);
                      Some (encodeNewResult fills rested remaining, st\<lparr>lsm_book := book'\<rparr>)
                    }
                  })
           else if op = OP_CXL then
             (case decodeCancel data of
                None \<Rightarrow> fail
              | Some orderId \<Rightarrow>
                  do {
                    (ok, book') \<leftarrow> ob_cancelOrder ops book orderId;
                    Some (encodeSimpleResult ok, st\<lparr>lsm_book := book'\<rparr>)
                  })
           else if op = OP_MOD then
             (case decodeModify data of
                None \<Rightarrow> fail
              | Some (orderId, newPrice, newQuantity) \<Rightarrow>
                  do {
                    (ok, book') \<leftarrow> ob_modifyOrder ops book orderId newPrice newQuantity seq;
                    Some (encodeSimpleResult ok, st\<lparr>lsm_book := book'\<rparr>)
                  })
           else fail)"

definition putU64raw :: "u64 \<Rightarrow> byte list \<Rightarrow> byte list" where
  "putU64raw v buf = buf @ le_bytes 8 v"

definition putU32raw :: "u32 \<Rightarrow> byte list \<Rightarrow> byte list" where
  "putU32raw v buf = buf @ le_bytes 4 v"

definition getU64raw :: "byte list \<Rightarrow> nat \<Rightarrow> (u64 \<times> nat) option" where
  "getU64raw buf off = get_le 8 buf off"

definition getU32raw :: "byte list \<Rightarrow> nat \<Rightarrow> (u32 \<times> nat) option" where
  "getU32raw buf off = get_le 4 buf off"

definition putOrder :: "Order \<Rightarrow> byte list \<Rightarrow> byte list" where
  "putOrder x buf =
     (let buf = putU64raw (ord_id x) buf;
          buf = buf @ [side_byte (ord_side x)];
          buf = putU64raw (word_of_int (ord_price x)) buf;
          buf = putU64raw (word_of_int (ord_quantity x)) buf
      in putU64raw (ord_sequence x) buf)"

definition lob_snapshot :: "'b IOrderBook \<Rightarrow> 'b LOBStateMachine \<Rightarrow> byte list option" where
  "lob_snapshot ops st =
     do {
       let buf = putU64raw (lsm_nextSeq st) [];
       let name = ob_symbol ops (lsm_book st);
       let buf = putU32raw (word_of_nat (length name)) buf;
       let buf = buf @ name;
       orders \<leftarrow> ob_allOrders ops (lsm_book st);
       let buf = putU32raw (word_of_nat (length orders)) buf;
       Some (fold putOrder orders buf)
     }"

definition getOrder_raw :: "byte list \<Rightarrow> nat \<Rightarrow> (Order \<times> nat) option" where
  "getOrder_raw data off =
     do {
       (orderId, off) \<leftarrow> getU64raw data off;
       (s, off) \<leftarrow> getU8 data off;
       side \<leftarrow> side_of_byte s;
       (priceU, off) \<leftarrow> getU64raw data off;
       (qtyU, off) \<leftarrow> getU64raw data off;
       (seqU, off) \<leftarrow> getU64raw data off;
       Some (\<lparr>ord_id = orderId, ord_side = side, ord_price = sint priceU,
              ord_quantity = sint qtyU, ord_sequence = seqU\<rparr>, off)
     }"

text \<open>The loop of \<open>restore\<close>: it stops at the first malformed order and keeps what it added.\<close>

fun restore_orders :: "'b IOrderBook \<Rightarrow> nat \<Rightarrow> byte list \<Rightarrow> nat \<Rightarrow> 'b \<Rightarrow> 'b option" where
  "restore_orders ops 0 data off book = Some book"
| "restore_orders ops (Suc n) data off book =
     (case getOrder_raw data off of
        None \<Rightarrow> Some book
      | Some (x, off) \<Rightarrow> do { book \<leftarrow> ob_addRestingOrder ops book x; restore_orders ops n data off book })"

definition restore_header :: "byte list \<Rightarrow> nat \<Rightarrow> (byte list \<times> nat \<times> nat) option" where
  "restore_header data off =
     do {
       (symLen, off) \<leftarrow> getU32raw data off;
       if off + unat symLen > length data then None
       else do {
         let name = take (unat symLen) (drop off data);
         (orderCount, off) \<leftarrow> getU32raw data (off + unat symLen);
         Some (name, unat orderCount, off)
       }
     }"

definition lob_restore :: "'b IOrderBook \<Rightarrow> 'b LOBStateMachine \<Rightarrow> byte list \<Rightarrow> 'b LOBStateMachine option" where
  "lob_restore ops st data =
     (case getU64raw data 0 of
        None \<Rightarrow> Some st
      | Some (sq, off) \<Rightarrow>
          let st = st\<lparr>lsm_nextSeq := sq\<rparr>
          in case restore_header data off of
               None \<Rightarrow> Some st
             | Some (name, orderCount, off) \<Rightarrow> do {
                 book \<leftarrow> restore_orders ops orderCount data off (ob_reset ops (lsm_book st) name);
                 Some (st\<lparr>lsm_book := book\<rparr>)
               })"

text \<open>The direct reads delegate to the engine.\<close>

definition lob_bids :: "'b IOrderBook \<Rightarrow> 'b LOBStateMachine \<Rightarrow> nat \<Rightarrow> PriceLevel list option" where
  "lob_bids ops st maxLevels = ob_bids ops (lsm_book st) maxLevels"

definition lob_asks :: "'b IOrderBook \<Rightarrow> 'b LOBStateMachine \<Rightarrow> nat \<Rightarrow> PriceLevel list option" where
  "lob_asks ops st maxLevels = ob_asks ops (lsm_book st) maxLevels"

definition lob_bestBid :: "'b IOrderBook \<Rightarrow> 'b LOBStateMachine \<Rightarrow> int option option" where
  "lob_bestBid ops st = ob_bestBid ops (lsm_book st)"

definition lob_bestAsk :: "'b IOrderBook \<Rightarrow> 'b LOBStateMachine \<Rightarrow> int option option" where
  "lob_bestAsk ops st = ob_bestAsk ops (lsm_book st)"

definition lob_orderCount :: "'b IOrderBook \<Rightarrow> 'b LOBStateMachine \<Rightarrow> nat" where
  "lob_orderCount ops st = ob_orderCount ops (lsm_book st)"

definition lob_symbol :: "'b IOrderBook \<Rightarrow> 'b LOBStateMachine \<Rightarrow> byte list" where
  "lob_symbol ops st = ob_symbol ops (lsm_book st)"

section \<open>The machine over the abstract book\<close>

definition spec_apply :: "abook \<times> u64 \<Rightarrow> byte list \<Rightarrow> byte list \<times> abook \<times> u64" where
  "spec_apply st data =
     (let (a, seq) = st; no = encodeSimpleResult False
      in if data = [] then (no, a, seq)
         else if hd data = OP_NEW then
           (case decodeNew data of
              None \<Rightarrow> (no, a, seq + 1)
            | Some (i, s, p, q) \<Rightarrow>
                if q \<le> 0 \<or> ab_find i a \<noteq> None then (no, a, seq + 1)
                else let (fs, a') = spec_new i s p q seq a;
                         rem = q - sum_list (map fill_quantity fs)
                     in (encodeNewResult fs (rem > 0) rem, a', seq + 1))
         else if hd data = OP_CXL then
           (case decodeCancel data of
              None \<Rightarrow> (no, a, seq + 1)
            | Some i \<Rightarrow> let (ok, a') = spec_cancel i a in (encodeSimpleResult ok, a', seq + 1))
         else if hd data = OP_MOD then
           (case decodeModify data of
              None \<Rightarrow> (no, a, seq + 1)
            | Some (i, p, q) \<Rightarrow>
                let (ok, a') = spec_modify i p q seq a in (encodeSimpleResult ok, a', seq + 1))
         else (no, a, seq + 1))"

fun spec_run :: "abook \<times> u64 \<Rightarrow> byte list list \<Rightarrow> byte list list \<times> abook \<times> u64" where
  "spec_run st [] = ([], st)"
| "spec_run st (d # ds) = (let (r, st) = spec_apply st d; (rs, st) = spec_run st ds in (r # rs, st))"

fun lob_run ::
  "'b IOrderBook \<Rightarrow> 'b LOBStateMachine \<Rightarrow> byte list list \<Rightarrow> (byte list list \<times> 'b LOBStateMachine) option" where
  "lob_run ops st [] = Some ([], st)"
| "lob_run ops st (d # ds) =
     do {
       (r, st) \<leftarrow> lob_apply ops st d;
       (rs, st) \<leftarrow> lob_run ops st ds;
       Some (r # rs, st)
     }"

definition wire_ok :: "abook \<Rightarrow> bool" where
  "wire_ok a \<longleftrightarrow> (\<forall>x\<in>set (ab_all a). i64_ok (ord_price x) \<and> i64_ok (ord_quantity x))"

section \<open>Restoring the orders in priority order\<close>

lemma spec_insert_last: "side_ok s (xs @ [x]) \<Longrightarrow> spec_insert s x xs = xs @ [x]"
  using spec_insert_split [of xs s x "[]"] by (auto simp: side_ok_def sorted_wrt_append)

lemma fold_rest_bids:
  "side_ok Buy (xs @ ys) \<Longrightarrow>
     fold spec_rest ys \<lparr>ab_bids = xs, ab_asks = [], ab_symbol = n\<rparr> = \<lparr>ab_bids = xs @ ys, ab_asks = [], ab_symbol = n\<rparr>"
proof (induction ys arbitrary: xs)
  case (Cons y ys)
  then have "side_ok Buy (xs @ [y])" "ord_side y = Buy" by (auto simp: side_ok_def sorted_wrt_append)
  with Cons show ?case by (simp add: spec_rest_def spec_insert_last ab_set_def)
qed simp

lemma fold_rest_asks:
  "side_ok Sell (xs @ ys) \<Longrightarrow>
     fold spec_rest ys \<lparr>ab_bids = bs, ab_asks = xs, ab_symbol = n\<rparr> = \<lparr>ab_bids = bs, ab_asks = xs @ ys, ab_symbol = n\<rparr>"
proof (induction ys arbitrary: xs)
  case (Cons y ys)
  then have "side_ok Sell (xs @ [y])" "ord_side y = Sell" by (auto simp: side_ok_def sorted_wrt_append)
  with Cons show ?case by (simp add: spec_rest_def spec_insert_last ab_set_def)
qed simp

lemma spec_restore: "ab_ok a \<Longrightarrow> fold spec_rest (ab_all a) (spec_reset (ab_symbol a)) = a"
  using fold_rest_bids [of "[]" "ab_bids a" "ab_symbol a"]
    fold_rest_asks [of "[]" "ab_asks a" "ab_bids a" "ab_symbol a"]
  by (simp add: ab_ok_def ab_all_def spec_reset_def)

section \<open>The wire image of a snapshot\<close>

definition order_bytes :: "Order \<Rightarrow> byte list" where
  "order_bytes x = le_bytes 8 (ord_id x) @ [side_byte (ord_side x)] @
     le_bytes 8 (word_of_int (ord_price x) :: u64) @ le_bytes 8 (word_of_int (ord_quantity x) :: u64) @
     le_bytes 8 (ord_sequence x)"

definition snapshot_bytes :: "abook \<times> u64 \<Rightarrow> byte list" where
  "snapshot_bytes st =
     le_bytes 8 (snd st) @ le_bytes 4 (word_of_nat (length (ab_symbol (fst st))) :: u32) @ ab_symbol (fst st) @
     le_bytes 4 (word_of_nat (length (ab_all (fst st))) :: u32) @ concat (map order_bytes (ab_all (fst st)))"

lemma length_order_bytes [simp]: "length (order_bytes x) = 33"
  by (simp add: order_bytes_def)

lemma raw_getters: "getU64raw = getU64" "getU32raw = getU32"
  by (auto simp: getU64raw_def getU32raw_def getU64_def getU32_def fun_eq_iff)

lemma fold_putOrder: "fold putOrder os buf = buf @ concat (map order_bytes os)"
  by (induction os arbitrary: buf) (simp_all add: putOrder_def putU64raw_def order_bytes_def)

lemma getOrder_raw_bytes:
  assumes "bytes_at data off (order_bytes x)" "i64_ok (ord_price x)" "i64_ok (ord_quantity x)"
  shows "getOrder_raw data off = Some (x, off + 33)"
proof -
  from assms(1) have at: "getU64 data off = Some (ord_id x, off + 8)"
    "getU8 data (off + 8) = Some (side_byte (ord_side x), off + 9)"
    "getU64 data (off + 9) = Some (word_of_int (ord_price x), off + 17)"
    "getU64 data (off + 17) = Some (word_of_int (ord_quantity x), off + 25)"
    "getU64 data (off + 25) = Some (ord_sequence x, off + 33)"
    by (simp_all add: order_bytes_def decode_simps ac_simps)
  have "side_of_byte (side_byte (ord_side x)) = Some (ord_side x)" by (simp add: codec_simps)
  with at assms(2,3) show ?thesis
    by (simp add: getOrder_raw_def raw_getters sint_word_of_int_i64)
qed

lemma restore_header_getStr:
  "restore_header data off =
     do { (n, off) \<leftarrow> getStr data off; (k, off) \<leftarrow> getU32 data off; Some (n, unat k, off) }"
  by (cases "getU32 data off") (auto simp: restore_header_def getStr_def raw_getters)

lemma restore_header_bytes:
  assumes "bytes_at data off (le_bytes 4 (word_of_nat (length n) :: u32) @ n @ le_bytes 4 (word_of_nat k :: u32))"
    and "length n < 2 ^ 32" "k < 2 ^ 32"
  shows "restore_header data off = Some (n, k, off + 4 + length n + 4)"
proof -
  have "bytes_at data off (le_bytes 4 (word_of_nat (length n) :: u32) @ n)"
    "getU32 data (off + 4 + length n) = Some (word_of_nat k, off + 4 + length n + 4)"
    using assms(1) by (simp_all add: decode_simps add.assoc)
  moreover from this(1) assms(2) have "getStr data off = Some (n, off + 4 + length n)"
    by (simp add: getStr_iff)
  ultimately show ?thesis
    using assms(3) by (simp add: restore_header_getStr unat_of_nat)
qed

section \<open>Every engine that meets the contract\<close>

lemma fold_fill_quantity:
  "fold (\<lambda>f acc. acc + fill_quantity f) fs k = k + sum_list (map fill_quantity fs)"
  by (induction fs arbitrary: k) simp_all

definition lsm_abs :: "('b \<Rightarrow> abook) \<Rightarrow> 'b LOBStateMachine \<Rightarrow> abook \<times> u64" where
  "lsm_abs absb st = (absb (lsm_book st), lsm_nextSeq st)"

lemma ab_find_spec_rest: "ab_find i (spec_rest x a) = None \<longleftrightarrow> ord_id x \<noteq> i \<and> ab_find i a = None"
  by (auto simp: ab_find_None set_ab_all [where s = "ord_side x"] spec_rest_def)

context order_book
begin

lemma apply_refines:
  assumes "inv (lsm_book st)"
  shows "\<exists>st'. lob_apply ops st data = Some (fst (spec_apply (lsm_abs absb st) data), st') \<and>
    lsm_abs absb st' = snd (spec_apply (lsm_abs absb st) data) \<and> inv (lsm_book st')"
proof -
  let ?seq = "lsm_nextSeq st" and ?b = "lsm_book st"
  consider "data = []" | "data \<noteq> []" "hd data = OP_NEW" | "data \<noteq> []" "hd data = OP_CXL"
    | "data \<noteq> []" "hd data = OP_MOD" | "data \<noteq> []" "hd data \<notin> {OP_NEW, OP_CXL, OP_MOD}" by blast
  then show ?thesis
  proof cases
    case 2
    show ?thesis
    proof (cases "decodeNew data")
      case None
      with 2 assms show ?thesis by (simp add: lob_apply_def spec_apply_def lsm_abs_def)
    next
      case (Some d)
      obtain i s p q where d: "d = (i, s, p, q)" by (cases d)
      from new_refines [OF assms, of i s p q ?seq] obtain b' where
        "ob_newOrder ops ?b i s p q ?seq = Some (fst (spec_new i s p q ?seq (absb ?b)), b')"
        "absb b' = snd (spec_new i s p q ?seq (absb ?b))" "inv b'" by blast
      with get_refines [OF assms, of i] 2 assms Some d show ?thesis
        by (cases "q \<le> 0 \<or> ab_find i (absb ?b) \<noteq> None")
          (auto simp: lob_apply_def spec_apply_def lsm_abs_def fold_fill_quantity Let_def case_prod_unfold)
    qed
  next
    case 3
    show ?thesis
    proof (cases "decodeCancel data")
      case None
      with 3 assms show ?thesis by (simp add: lob_apply_def spec_apply_def lsm_abs_def OP_NEW_def OP_CXL_def)
    next
      case (Some i)
      from cancel_refines [OF assms, of i] obtain b' where
        "ob_cancelOrder ops ?b i = Some (fst (spec_cancel i (absb ?b)), b')"
        "absb b' = snd (spec_cancel i (absb ?b))" "inv b'" by blast
      with 3 Some show ?thesis
        by (simp add: lob_apply_def spec_apply_def lsm_abs_def OP_NEW_def OP_CXL_def case_prod_unfold Let_def)
    qed
  next
    case 4
    show ?thesis
    proof (cases "decodeModify data")
      case None
      with 4 assms show ?thesis
        by (simp add: lob_apply_def spec_apply_def lsm_abs_def OP_NEW_def OP_CXL_def OP_MOD_def)
    next
      case (Some d)
      obtain i p q where d: "d = (i, p, q)" by (cases d)
      from modify_refines [OF assms, of i p q ?seq] obtain b' where
        "ob_modifyOrder ops ?b i p q ?seq = Some (fst (spec_modify i p q ?seq (absb ?b)), b')"
        "absb b' = snd (spec_modify i p q ?seq (absb ?b))" "inv b'" by blast
      with 4 Some d show ?thesis
        by (simp add: lob_apply_def spec_apply_def lsm_abs_def OP_NEW_def OP_CXL_def OP_MOD_def case_prod_unfold Let_def)
    qed
  qed (use assms in \<open>simp_all add: lob_apply_def spec_apply_def lsm_abs_def\<close>)
qed

lemma run_refines:
  "inv (lsm_book st) \<Longrightarrow> \<exists>st'. lob_run ops st ds = Some (fst (spec_run (lsm_abs absb st) ds), st') \<and>
    lsm_abs absb st' = snd (spec_run (lsm_abs absb st) ds) \<and> inv (lsm_book st')"
proof (induction ds arbitrary: st)
  case (Cons d ds)
  from apply_refines [OF Cons.prems, of d] obtain st1 where st1:
    "lob_apply ops st d = Some (fst (spec_apply (lsm_abs absb st) d), st1)"
    "lsm_abs absb st1 = snd (spec_apply (lsm_abs absb st) d)" "inv (lsm_book st1)" by blast
  from Cons.IH [OF st1(3)] st1 show ?case by (auto simp: case_prod_unfold Let_def)
qed simp

lemma restore_orders_refines:
  "bytes_at data off (concat (map order_bytes os)) \<Longrightarrow> inv b \<Longrightarrow> distinct (map ord_id os) \<Longrightarrow>
     \<forall>x\<in>set os. i64_ok (ord_price x) \<and> i64_ok (ord_quantity x) \<and> ord_quantity x > 0 \<and>
       ab_find (ord_id x) (absb b) = None \<Longrightarrow>
     \<exists>b'. restore_orders ops (length os) data off b = Some b' \<and> absb b' = fold spec_rest os (absb b) \<and> inv b'"
proof (induction os arbitrary: off b)
  case (Cons x os)
  have "getOrder_raw data off = Some (x, off + 33)"
    using Cons.prems by (intro getOrder_raw_bytes) (simp_all add: bytes_at_append)
  moreover have "bytes_at data (off + 33) (concat (map order_bytes os))"
    using Cons.prems(1) by (simp add: bytes_at_append)
  moreover obtain b1 where b1: "ob_addRestingOrder ops b x = Some b1" "absb b1 = spec_rest x (absb b)" "inv b1"
    using rest_refines [of b x] Cons.prems by auto
  moreover from b1(2) Cons.prems(3,4) have "\<forall>y\<in>set os. ab_find (ord_id y) (absb b1) = None"
    by (auto simp: ab_find_spec_rest)
  ultimately show ?case using Cons.IH [of "off + 33" b1] Cons.prems(3,4) by simp
qed simp

lemma snapshot_refines: "inv (lsm_book st) \<Longrightarrow> lob_snapshot ops st = Some (snapshot_bytes (lsm_abs absb st))"
  by (simp add: lob_snapshot_def snapshot_bytes_def lsm_abs_def putU64raw_def putU32raw_def fold_putOrder
      symbol_refines all_refines Let_def)

lemma restore_snapshot:
  assumes ok: "inv (lsm_book st)" "wire_ok (absb (lsm_book st))"
    and size: "length (ob_symbol ops (lsm_book st)) < 2 ^ 32" "ob_orderCount ops (lsm_book st) < 2 ^ 32"
  shows "\<exists>st'. lob_restore ops st0 (snapshot_bytes (lsm_abs absb st)) = Some st' \<and>
    lsm_abs absb st' = lsm_abs absb st \<and> inv (lsm_book st')"
proof -
  define a where "a = absb (lsm_book st)"
  define data where "data = snapshot_bytes (lsm_abs absb st)"
  let ?n = "ab_symbol a" and ?os = "ab_all a"
  let ?b0 = "ob_reset ops (lsm_book st0) ?n"
  have at: "bytes_at data 0 (snapshot_bytes (a, lsm_nextSeq st))"
    unfolding data_def lsm_abs_def a_def bytes_at_0 by (intro exI [of _ "[]"]) simp
  have sz: "length ?n < 2 ^ 32" "length ?os < 2 ^ 32"
    using size count_refines [OF ok(1)] by (simp_all add: symbol_refines a_def)
  from at have u64: "getU64 data 0 = Some (lsm_nextSeq st, 8)"
    and hdr: "bytes_at data 8 (le_bytes 4 (word_of_nat (length ?n) :: u32) @ ?n @ le_bytes 4 (word_of_nat (length ?os) :: u32))"
    and body: "bytes_at data (8 + 4 + length ?n + 4) (concat (map order_bytes ?os))"
    by (simp_all add: snapshot_bytes_def decode_simps ac_simps)
  have aok: "ab_ok a" unfolding a_def by (rule inv_ab_ok [OF ok(1)])
  have "distinct (map ord_id ?os)" "\<forall>x\<in>set ?os. ord_quantity x > 0"
    using aok by (auto simp: ab_ok_def ab_all_def side_ok_def)
  moreover have "absb ?b0 = spec_reset ?n" "inv ?b0" using reset_refines by blast+
  ultimately obtain b' where "restore_orders ops (length ?os) data (8 + 4 + length ?n + 4) ?b0 = Some b'"
      "absb b' = a" "inv b'"
    using restore_orders_refines [OF body, of ?b0] ok(2) spec_restore [OF aok]
    by (auto simp: wire_ok_def a_def [symmetric] ab_find_def spec_reset_def ab_all_def)
  then show ?thesis
    unfolding data_def [symmetric]
    by (simp add: lob_restore_def raw_getters u64 restore_header_bytes [OF hdr sz] lsm_abs_def a_def)
qed

end

section \<open>Values stay in the range of the wire\<close>

lemma spec_match_quantity:
  "spec_match s p t rem os = (fs, r, os') \<Longrightarrow> y \<in> set os' \<Longrightarrow>
     \<exists>x\<in>set os. ord_price y = ord_price x \<and> ord_quantity y \<le> ord_quantity x"
  by (induction s p t rem os arbitrary: fs r os' rule: spec_match.induct)
    (fastforce simp: Let_def min_def split: if_splits prod.splits)+

lemma spec_match_remaining:
  "spec_match s p t rem os = (fs, r, os') \<Longrightarrow> 0 \<le> rem \<Longrightarrow> \<forall>x\<in>set os. ord_quantity x > 0 \<Longrightarrow> 0 \<le> r \<and> r \<le> rem"
  by (induction s p t rem os arbitrary: fs r os' rule: spec_match.induct)
    (fastforce simp: Let_def min_def split: if_splits prod.splits)+

lemma i64_ok_between: "i64_ok q \<Longrightarrow> 0 \<le> r \<Longrightarrow> r \<le> q \<Longrightarrow> i64_ok r"
  by (simp add: i64_ok_def)

lemma wire_ok_spec_rest:
  "wire_ok a \<Longrightarrow> i64_ok (ord_price x) \<Longrightarrow> i64_ok (ord_quantity x) \<Longrightarrow> wire_ok (spec_rest x a)"
  by (auto simp: wire_ok_def spec_rest_def set_ab_all [where s = "ord_side x"])

lemma wire_ok_spec_remove: "wire_ok a \<Longrightarrow> wire_ok (spec_remove i a)"
  by (auto simp: wire_ok_def spec_remove_def ab_all_def)

lemma wire_ok_spec_new:
  assumes "ab_ok a" "wire_ok a" "i64_ok p" "i64_ok q"
  shows "wire_ok (snd (spec_new i s p q sq a))"
proof (cases "q \<le> 0 \<or> ab_find i a \<noteq> None")
  case False
  obtain fs r os where m: "spec_match s p i q (ab_of (opposite s) a) = (fs, r, os)"
    by (metis prod_cases3)
  from assms(1) have pos: "\<forall>x\<in>set (ab_of (opposite s) a). ord_quantity x > 0"
    by (cases s) (simp_all add: ab_ok_def side_ok_def)
  have os: "i64_ok (ord_price y) \<and> i64_ok (ord_quantity y)" if "y \<in> set os" for y
  proof -
    from spec_match_quantity [OF m that] obtain x where x: "x \<in> set (ab_of (opposite s) a)"
      "ord_price y = ord_price x" "ord_quantity y \<le> ord_quantity x" by blast
    moreover have "ord_quantity y > 0" using spec_match_positive [OF m _ pos] False that by auto
    ultimately show ?thesis
      using assms(2) i64_ok_between [of "ord_quantity x" "ord_quantity y"]
      by (auto simp: wire_ok_def set_ab_all [where s = s])
  qed
  then have "wire_ok (ab_set (opposite s) os a)"
    using assms(2) by (auto simp: wire_ok_def set_ab_all [where s = s])
  moreover have "i64_ok r" using spec_match_remaining [OF m _ pos] False assms(4) i64_ok_between by auto
  ultimately show ?thesis
    using m False assms(3) by (auto simp: spec_new_def Let_def intro!: wire_ok_spec_rest)
qed (use assms in \<open>auto simp: spec_new_def\<close>)

lemma spec_apply_ok:
  assumes "ab_ok a" "wire_ok a" "spec_apply (a, seq) data = (out, a', seq')"
  shows "ab_ok a' \<and> wire_ok a'"
proof -
  have new: "ab_ok (snd (spec_new i s p q sq a)) \<and> wire_ok (snd (spec_new i s p q sq a))"
    if "decodeNew data = Some (i, s, p, q)" for i s p q sq
    using assms(1,2) that by (simp add: decode_iffs ab_ok_spec_new wire_ok_spec_new)
  have cxl: "ab_ok (snd (spec_cancel i a)) \<and> wire_ok (snd (spec_cancel i a))" for i
    using assms(1,2) by (auto simp: spec_cancel_def ab_ok_spec_remove wire_ok_spec_remove)
  have mod: "ab_ok (snd (spec_modify i p q sq a)) \<and> wire_ok (snd (spec_modify i p q sq a))"
    if "decodeModify data = Some (i, p, q)" for i p q sq
    using ab_ok_spec_modify [OF assms(1), of i p q sq] assms(2) that
    by (auto simp: decode_iffs spec_modify_def wire_ok_spec_remove intro!: wire_ok_spec_rest split: option.splits)
  show ?thesis
    using assms new cxl mod by (auto simp: spec_apply_def Let_def split: if_splits option.splits prod.splits; metis snd_conv)
qed

end
