(* ===== verification/Order_Book_Properties.thy ===== *)
theory Order_Book_Properties
  imports LOB_State_Machine
begin

text \<open>
  The properties of the matching engine and of the replicated order book that a client relies
  on: price-time priority, conservation of quantity, cancellation, the depth view, and the
  behaviour of the state machine on arbitrary payloads.
\<close>

section \<open>Auxiliary facts\<close>

lemma newOrder_accepted:
  assumes ok: "mob_ok b" and q: "q > 0" and free: "mob_getOrder b i = Some None"
    and run: "mob_newOrder b i s p q sq = (fs, b')"
  obtains r os where
    "spec_match s p i q (ab_of (opposite s) (mob_abs b)) = (fs, r, os)"
    "mob_abs b' = (if r > 0
       then spec_rest \<lparr>ord_id = i, ord_side = s, ord_price = p, ord_quantity = r, ord_sequence = sq\<rparr>
              (ab_set (opposite s) os (mob_abs b))
       else ab_set (opposite s) os (mob_abs b))"
    "ab_find i (mob_abs b) = None" "ab_ok (mob_abs b')" "mob_ok b'"
proof -
  obtain fs1 r os where m: "spec_match s p i q (ab_of (opposite s) (mob_abs b)) = (fs1, r, os)"
    by (metis prod_cases3)
  have free': "ab_find i (mob_abs b) = None" using free getOrder_refines [OF ok] by simp
  have ref: "spec_new i s p q sq (mob_abs b) = (fs, mob_abs b')" "mob_ok b'"
    using newOrder_refines [OF ok run] by simp_all
  have "fs1 = fs"
    "mob_abs b' = (if r > 0
       then spec_rest \<lparr>ord_id = i, ord_side = s, ord_price = p, ord_quantity = r, ord_sequence = sq\<rparr>
              (ab_set (opposite s) os (mob_abs b))
       else ab_set (opposite s) os (mob_abs b))"
    using ref(1) q free' m by (auto simp: spec_new_def Let_def split: if_splits)
  with m show thesis using that free' mob_ok_ab_ok [OF ref(2)] ref(2) by metis
qed

lemma ab_of_rest:
  "ab_of (opposite s) (spec_rest \<lparr>ord_id = i, ord_side = s, ord_price = p, ord_quantity = r, ord_sequence = sq\<rparr> a) =
     ab_of (opposite s) a"
  by (simp add: spec_rest_def)

lemma side_quantities: "ab_ok a \<Longrightarrow> \<forall>x\<in>set (ab_of s a). ord_quantity x > 0"
  by (cases s) (auto simp: ab_ok_def side_ok_def)

lemma side_ok_ab_of: "ab_ok a \<Longrightarrow> side_ok s (ab_of s a)"
  by (cases s) (auto simp: ab_ok_def)

section \<open>Matching\<close>

text \<open>C5. Price-time priority. An accepted order trades with the resting orders of the other side
  from the front of their priority list, each at the maker's price and for a positive quantity,
  never beyond its own limit; what is not filled rests under its id, and then no remaining order
  of the other side could have traded with it.\<close>

theorem price_time_priority:
  assumes "mob_ok b" "q > 0" "mob_getOrder b i = Some None" "mob_newOrder b i s p q sq = (fs, b')"
  defines "filled \<equiv> sum_list (map fill_quantity fs)"
  shows "map (\<lambda>f. (makerOrderId f, fill_price f)) fs =
           map (\<lambda>x. (ord_id x, ord_price x)) (take (length fs) (level_orders (levels (opposite s) b))) \<and>
         (\<forall>f\<in>set fs. takerOrderId f = i \<and> fill_quantity f > 0 \<and> crosses s p (fill_price f)) \<and>
         filled \<le> q \<and>
         mob_getOrder b' i = Some (if filled < q
           then Some \<lparr>ord_id = i, ord_side = s, ord_price = p, ord_quantity = q - filled, ord_sequence = sq\<rparr>
           else None) \<and>
         (filled < q \<longrightarrow>
            (\<forall>x\<in>set (level_orders (levels (opposite s) b')). \<not> crosses s p (ord_price x)))"
proof -
  obtain r os where m: "spec_match s p i q (ab_of (opposite s) (mob_abs b)) = (fs, r, os)"
    and b': "mob_abs b' = (if r > 0
       then spec_rest \<lparr>ord_id = i, ord_side = s, ord_price = p, ord_quantity = r, ord_sequence = sq\<rparr>
              (ab_set (opposite s) os (mob_abs b))
       else ab_set (opposite s) os (mob_abs b))"
    and free: "ab_find i (mob_abs b) = None" and ok': "ab_ok (mob_abs b')" "mob_ok b'"
    by (rule newOrder_accepted [OF assms(1-4)])
  note aok = mob_ok_ab_ok [OF assms(1)]
  have r: "filled + r = q" using spec_match_conserves [OF m] by (simp add: filled_def)
  have pos: "0 \<le> r" "\<forall>f\<in>set fs. fill_quantity f > 0"
    using spec_match_positive [OF m _ side_quantities [OF aok]] assms(2) by auto
  have found: "ab_find i (mob_abs b') = (if r > 0
      then Some \<lparr>ord_id = i, ord_side = s, ord_price = p, ord_quantity = r, ord_sequence = sq\<rparr> else None)"
  proof (cases "r > 0")
    case True
    then have "\<lparr>ord_id = i, ord_side = s, ord_price = p, ord_quantity = r, ord_sequence = sq\<rparr> \<in> set (ab_all (mob_abs b'))"
      by (simp add: b' spec_rest_def set_ab_all [where s = s])
    from ab_find_unique [OF ok'(1) this] True show ?thesis by simp
  next
    case False
    then show ?thesis using ab_find_swept [OF free m] by (simp add: b')
  qed
  have opp: "level_orders (levels (opposite s) b') = os"
    using arg_cong [OF b', of "ab_of (opposite s)"] by (auto simp: ab_of_rest split: if_splits)
  have "r > 0 \<Longrightarrow> \<forall>x\<in>set os. \<not> crosses s p (ord_price x)"
    using spec_match_exhausts [OF m _ side_ok_ab_of [OF aok]] by blast
  moreover have "r = q - filled" using r by simp
  ultimately show ?thesis
    using spec_match_prefix [OF m] spec_match_fill_data [OF m] pos found opp getOrder_refines [OF ok'(2), of i] r
    by (auto simp del: not_less)
qed

text \<open>A small book for the witnesses: two offers, one bid.\<close>

definition demo_book :: MapOrderBook where
  "demo_book =
     (let b = mob_empty [76, 79, 66];
          b = snd (mob_newOrder b 1 Sell 100 5 1);
          b = snd (mob_newOrder b 2 Sell 101 5 2)
      in snd (mob_newOrder b 9 Buy 90 4 3))"

lemma mob_ok_newOrder: "mob_ok b \<Longrightarrow> mob_ok (snd (mob_newOrder b i s p q sq))"
  using newOrder_refines [of b i s p q sq] by (metis prod.collapse)

lemma demo_book_ok: "mob_ok demo_book"
  by (simp add: demo_book_def Let_def mob_ok_newOrder mob_ok_empty)

lemma demo_new:
  "mob_newOrder demo_book 3 Buy 101 7 4 =
     ([\<lparr>makerOrderId = 1, takerOrderId = 3, fill_price = 100, fill_quantity = 5, takerSide = Buy\<rparr>,
       \<lparr>makerOrderId = 2, takerOrderId = 3, fill_price = 101, fill_quantity = 2, takerSide = Buy\<rparr>],
      snd (mob_newOrder demo_book 3 Buy 101 7 4))"
  by code_simp

lemma demo_free: "mob_getOrder demo_book 3 = Some None"
  by code_simp

theorem price_time_priority_witness:
  "mob_ok demo_book \<and> mob_getOrder demo_book 3 = Some None \<and>
   mob_getOrder (snd (mob_newOrder demo_book 3 Buy 101 7 4)) 3 = Some None"
  using price_time_priority [OF demo_book_ok _ demo_free demo_new] demo_book_ok demo_free by simp

lemma spec_match_total:
  "spec_match s p t rem os = (fs, r, os') \<Longrightarrow>
     sum_list (map ord_quantity os) = sum_list (map fill_quantity fs) + sum_list (map ord_quantity os')"
  by (induction s p t rem os arbitrary: fs r os' rule: spec_match.induct)
    (fastforce simp: Let_def min_def split: if_splits prod.splits)+

lemma sum_spec_insert:
  "sum_list (map ord_quantity (spec_insert s x os)) = ord_quantity x + sum_list (map ord_quantity os)"
proof -
  have "sum_list (map ord_quantity os) =
      sum_list (map ord_quantity (takeWhile P os)) + sum_list (map ord_quantity (dropWhile P os))" for P
    by (metis map_append sum_list_append takeWhile_dropWhile_id)
  then show ?thesis by (simp add: spec_insert_def)
qed

text \<open>C16. Conservation of quantity. What the fills report is exactly what leaves the other side of
  the book, and an accepted order adds to its own side exactly what the fills leave over.\<close>

theorem new_order_conserves:
  assumes "mob_ok b" "q > 0" "mob_getOrder b i = Some None" "mob_newOrder b i s p q sq = (fs, b')"
  defines "resting \<equiv> \<lambda>s b. sum_list (map ord_quantity (level_orders (levels s b)))"
  shows "resting (opposite s) b = resting (opposite s) b' + sum_list (map fill_quantity fs) \<and>
         resting s b' = resting s b + q - sum_list (map fill_quantity fs)"
proof -
  obtain r os where m: "spec_match s p i q (ab_of (opposite s) (mob_abs b)) = (fs, r, os)"
    and b': "mob_abs b' = (if r > 0
       then spec_rest \<lparr>ord_id = i, ord_side = s, ord_price = p, ord_quantity = r, ord_sequence = sq\<rparr>
              (ab_set (opposite s) os (mob_abs b))
       else ab_set (opposite s) os (mob_abs b))"
    by (rule newOrder_accepted [OF assms(1-4)])
  have "0 \<le> r"
    using spec_match_positive [OF m _ side_quantities [OF mob_ok_ab_ok [OF assms(1)]]] assms(2) by auto
  moreover have "level_orders (levels (opposite s) b') = os"
    using arg_cong [OF b', of "ab_of (opposite s)"] by (auto simp: ab_of_rest split: if_splits)
  moreover have "resting s b' = resting s b + (if r > 0 then r else 0)"
    using arg_cong [OF b', of "ab_of s"] by (auto simp: resting_def spec_rest_def sum_spec_insert split: if_splits)
  ultimately show ?thesis
    using spec_match_total [OF m] spec_match_conserves [OF m] by (simp add: resting_def split: if_splits)
qed

theorem new_order_conserves_witness:
  "sum_list (map ord_quantity (level_orders (levels Sell demo_book))) =
     sum_list (map ord_quantity (level_orders (levels Sell (snd (mob_newOrder demo_book 3 Buy 101 7 4))))) + 7"
  using new_order_conserves [OF demo_book_ok _ demo_free demo_new] by simp

section \<open>Cancelling and modifying\<close>

lemma mob_allOrders_abs: "mob_allOrders b = ab_all (mob_abs b)"
  by (simp add: mob_allOrders_def ab_all_def mob_abs_def)

lemma ab_all_spec_cancel: "ab_all (snd (spec_cancel i a)) = filter (\<lambda>x. ord_id x \<noteq> i) (ab_all a)"
proof (cases "ab_find i a = None")
  case True
  then have "filter (\<lambda>x. ord_id x \<noteq> i) (ab_all a) = ab_all a"
    by (intro filter_True) (auto simp: ab_find_None)
  with True show ?thesis by (simp add: spec_cancel_def)
qed (auto simp: spec_cancel_def spec_remove_def ab_all_def)

text \<open>C14. Cancelling never fails with a dangling iterator; it answers whether the order rested, and
  removes that order and no other, without reordering the rest.\<close>

theorem cancel_exact:
  assumes "mob_ok b"
  shows "\<exists>b'. mob_cancelOrder b i = Some (\<exists>x\<in>set (mob_allOrders b). ord_id x = i, b') \<and>
    mob_allOrders b' = filter (\<lambda>x. ord_id x \<noteq> i) (mob_allOrders b) \<and>
    mob_getOrder b' i = Some None \<and> mob_ok b'"
proof -
  from cancelOrder_refines [OF assms, of i] obtain b' where
    b': "mob_cancelOrder b i = Some (fst (spec_cancel i (mob_abs b)), b')"
    "mob_abs b' = snd (spec_cancel i (mob_abs b))" "mob_ok b'" by blast
  have "fst (spec_cancel i (mob_abs b)) \<longleftrightarrow> (\<exists>x\<in>set (mob_allOrders b). ord_id x = i)"
    by (auto simp: spec_cancel_def ab_find_None mob_allOrders_abs)
  moreover have all: "mob_allOrders b' = filter (\<lambda>x. ord_id x \<noteq> i) (mob_allOrders b)"
    by (simp add: mob_allOrders_abs b'(2) ab_all_spec_cancel)
  moreover have "mob_getOrder b' i = Some None"
    using getOrder_refines [OF b'(3), of i] all by (auto simp: mob_allOrders_abs ab_find_None)
  ultimately show ?thesis using b' by auto
qed

theorem cancel_exact_witness:
  "\<exists>b'. mob_cancelOrder demo_book 2 = Some (True, b') \<and> map ord_id (mob_allOrders b') = [9, 1]"
proof -
  have "(\<exists>x\<in>set (mob_allOrders demo_book). ord_id x = 2) = True"
    "map ord_id (filter (\<lambda>x. ord_id x \<noteq> 2) (mob_allOrders demo_book)) = [9, 1]" by code_simp+
  with cancel_exact [OF demo_book_ok, of 2] show ?thesis by auto
qed

lemma spec_insert_parts:
  assumes "side_ok s os"
  obtains ahead behind where "os = ahead @ behind" "spec_insert s x os = ahead @ x # behind"
    "\<forall>y\<in>set ahead. \<not> price_before s (ord_price x) (ord_price y)"
    "\<forall>y\<in>set behind. price_before s (ord_price x) (ord_price y)"
proof
  show "\<forall>y\<in>set (dropWhile (\<lambda>y. \<not> price_before s (ord_price x) (ord_price y)) os).
      price_before s (ord_price x) (ord_price y)"
    using dropWhile_insert_worse [OF assms] by blast
  show "\<forall>y\<in>set (takeWhile (\<lambda>y. \<not> price_before s (ord_price x) (ord_price y)) os).
      \<not> price_before s (ord_price x) (ord_price y)"
    by (blast dest: set_takeWhileD)
qed (simp_all add: spec_insert_def)

lemma filter_ab_all_rest:
  assumes "ab_ok a" "ord_id x = i"
  shows "filter (\<lambda>y. ord_id y \<noteq> i) (ab_all (spec_rest x a)) = filter (\<lambda>y. ord_id y \<noteq> i) (ab_all a)"
proof -
  let ?s = "ord_side x"
  obtain ahead behind where "ab_of ?s a = ahead @ behind" "spec_insert ?s x (ab_of ?s a) = ahead @ x # behind"
    "\<forall>y\<in>set ahead. \<not> price_before ?s (ord_price x) (ord_price y)"
    "\<forall>y\<in>set behind. price_before ?s (ord_price x) (ord_price y)"
    by (rule spec_insert_parts [OF side_ok_ab_of [OF assms(1), of ?s], where x = x])
  then show ?thesis using assms(2) by (cases ?s) (simp_all add: ab_all_def spec_rest_def ab_set_def)
qed

text \<open>C15. Modifying a resting order keeps its side, sets the new price, quantity and sequence (a
  quantity that is not positive removes it), leaves every other order alone, and puts the order
  behind all orders that are at least as good: it loses its time priority.\<close>

theorem modify_exact:
  assumes "mob_ok b" "mob_getOrder b i = Some (Some x)"
  shows "\<exists>b'. mob_modifyOrder b i p q sq = Some (True, b') \<and>
    filter (\<lambda>y. ord_id y \<noteq> i) (mob_allOrders b') = filter (\<lambda>y. ord_id y \<noteq> i) (mob_allOrders b) \<and>
    mob_getOrder b' i =
      Some (if q > 0 then Some (x\<lparr>ord_price := p, ord_quantity := q, ord_sequence := sq\<rparr>) else None) \<and>
    (q > 0 \<longrightarrow> (\<exists>ahead behind. level_orders (levels (ord_side x) b') =
        ahead @ x\<lparr>ord_price := p, ord_quantity := q, ord_sequence := sq\<rparr> # behind \<and>
        (\<forall>y\<in>set ahead. \<not> price_before (ord_side x) p (ord_price y)) \<and>
        (\<forall>y\<in>set behind. price_before (ord_side x) p (ord_price y)))) \<and>
    mob_ok b'"
proof -
  define y where "y = x\<lparr>ord_price := p, ord_quantity := q, ord_sequence := sq\<rparr>"
  let ?a = "spec_remove i (mob_abs b)"
  have x: "ab_find i (mob_abs b) = Some x" "ord_id x = i"
    using assms getOrder_refines [OF assms(1), of i] by (auto dest: ab_find_SomeD)
  have y: "y = \<lparr>ord_id = i, ord_side = ord_side x, ord_price = p, ord_quantity = q, ord_sequence = sq\<rparr>"
    using x(2) by (cases x) (simp add: y_def)
  from modifyOrder_refines [OF assms(1), of i p q sq] x obtain b' where
    b': "mob_modifyOrder b i p q sq = Some (True, b')" "mob_ok b'"
    "mob_abs b' = (if q > 0 then spec_rest y ?a else ?a)"
    by (auto simp: spec_modify_def y)
  have aok: "ab_ok ?a" by (rule ab_ok_spec_remove [OF mob_ok_ab_ok [OF assms(1)]])
  have "filter (\<lambda>z. ord_id z \<noteq> i) (mob_allOrders b') = filter (\<lambda>z. ord_id z \<noteq> i) (ab_all ?a)"
    using filter_ab_all_rest [OF aok, of y i] by (simp add: mob_allOrders_abs b'(3) y)
  also have "\<dots> = filter (\<lambda>z. ord_id z \<noteq> i) (mob_allOrders b)"
    by (simp add: mob_allOrders_abs ab_all_def spec_remove_def)
  finally have others: "filter (\<lambda>z. ord_id z \<noteq> i) (mob_allOrders b') = filter (\<lambda>z. ord_id z \<noteq> i) (mob_allOrders b)" .
  have found: "ab_find i (mob_abs b') = (if q > 0 then Some y else None)"
  proof (cases "q > 0")
    case True
    then have "y \<in> set (ab_all (mob_abs b'))" by (simp add: b'(3) spec_rest_def set_ab_all [where s = "ord_side y"])
    from ab_find_unique [OF mob_ok_ab_ok [OF b'(2)] this] True show ?thesis by (simp add: y)
  qed (simp add: b'(3) ab_find_spec_remove)
  have "ord_price y = p" by (simp add: y)
  obtain ahead behind where "ab_of (ord_side x) ?a = ahead @ behind"
    "spec_insert (ord_side x) y (ab_of (ord_side x) ?a) = ahead @ y # behind"
    "\<forall>z\<in>set ahead. \<not> price_before (ord_side x) p (ord_price z)"
    "\<forall>z\<in>set behind. price_before (ord_side x) p (ord_price z)"
    by (rule spec_insert_parts [OF side_ok_ab_of [OF aok, of "ord_side x"], where x = y, unfolded \<open>ord_price y = p\<close>])
  moreover have "q > 0 \<Longrightarrow> level_orders (levels (ord_side x) b') = spec_insert (ord_side x) y (ab_of (ord_side x) ?a)"
    using arg_cong [OF b'(3), of "ab_of (ord_side x)"] by (simp add: spec_rest_def y)
  ultimately show ?thesis
    using b'(1,2) others found getOrder_refines [OF b'(2), of i] unfolding y_def [symmetric] by auto
qed

theorem modify_exact_witness:
  "\<exists>b'. mob_modifyOrder demo_book 1 101 6 7 = Some (True, b') \<and>
     mob_getOrder b' 1 = Some (Some \<lparr>ord_id = 1, ord_side = Sell, ord_price = 101, ord_quantity = 6, ord_sequence = 7\<rparr>)"
proof -
  have "mob_getOrder demo_book 1 =
      Some (Some \<lparr>ord_id = 1, ord_side = Sell, ord_price = 100, ord_quantity = 5, ord_sequence = 1\<rparr>)" by code_simp
  from modify_exact [OF demo_book_ok this, of 101 6 7] show ?thesis by auto
qed

text \<open>C17. Neither a new order nor a cancellation leaves a crossed book: if every bid is below every
  offer before, it is so after.\<close>

theorem new_cancel_uncrossed:
  assumes "mob_ok b" "uncrossed (mob_abs b)"
  shows "uncrossed (mob_abs (snd (mob_newOrder b i s p q sq))) \<and>
    (\<exists>ok b'. mob_cancelOrder b j = Some (ok, b') \<and> uncrossed (mob_abs b'))"
proof
  obtain fs b' where run: "mob_newOrder b i s p q sq = (fs, b')" by fastforce
  from newOrder_refines [OF assms(1) run] uncrossed_spec_new [OF mob_ok_ab_ok [OF assms(1)] assms(2), of i s p q sq]
  show "uncrossed (mob_abs (snd (mob_newOrder b i s p q sq)))" by (simp add: run)
  show "\<exists>ok b'. mob_cancelOrder b j = Some (ok, b') \<and> uncrossed (mob_abs b')"
    using cancelOrder_refines [OF assms(1), of j] uncrossed_spec_cancel [OF assms(2), of j] by auto
qed

theorem new_cancel_uncrossed_witness:
  "uncrossed (mob_abs demo_book) \<and> uncrossed (mob_abs (snd (mob_newOrder demo_book 3 Buy 101 12 4)))"
proof -
  have "uncrossed (mob_abs demo_book)" by code_simp
  with new_cancel_uncrossed [OF demo_book_ok this] show ?thesis by blast
qed

text \<open>Modifying does not match: \<open>modifyOrder\<close> re-adds the order without trading, so a bid can
  be moved above the best offer and rest there, with the book crossed.\<close>

theorem modify_can_cross:
  "\<exists>b i p q sq b'. mob_ok b \<and> uncrossed (mob_abs b) \<and>
     mob_modifyOrder b i p q sq = Some (True, b') \<and> \<not> uncrossed (mob_abs b')"
proof -
  have "uncrossed (mob_abs demo_book)" by code_simp
  moreover have "map_option fst (mob_modifyOrder demo_book 9 105 4 4) = Some True" by code_simp
  moreover have "map_option (\<lambda>r. uncrossed (mob_abs (snd r))) (mob_modifyOrder demo_book 9 105 4 4) = Some False"
    by code_simp
  ultimately obtain b' where "mob_modifyOrder demo_book 9 105 4 4 = Some (True, b')" "\<not> uncrossed (mob_abs b')"
    by (cases "mob_modifyOrder demo_book 9 105 4 4") auto
  with \<open>uncrossed (mob_abs demo_book)\<close> demo_book_ok show ?thesis by blast
qed

section \<open>The depth view\<close>

lemma fold_add_to_level:
  "pl_price (fold add_to_level os pl) = pl_price pl"
  "totalQuantity pl = sint (word_of_int k :: u64) \<Longrightarrow>
     totalQuantity (fold add_to_level os pl) = sint (word_of_int (k + sum_list (map ord_quantity os)) :: u64)"
  "pl_orderCount (fold add_to_level os pl) = pl_orderCount pl + word_of_nat (length os)"
proof (induction os arbitrary: pl k)
  case (Cons x os)
  { case 1 show ?case using Cons(1) by simp
  next
    case 2
    have "word_of_int (sint (word_of_int k :: u64) + ord_quantity x) = (word_of_int (k + ord_quantity x) :: u64)"
      by (simp add: of_int_add)
    with 2 have "totalQuantity (add_to_level x pl) = sint (word_of_int (k + ord_quantity x) :: u64)" by simp
    from Cons(2) [OF this] show ?case by (simp add: add.assoc)
  next
    case 3 show ?case using Cons(3) by simp
  }
qed simp_all

lemma level_of_fields:
  "pl_price (level_of p os) = p"
  "totalQuantity (level_of p os) = sint (word_of_int (sum_list (map ord_quantity os)) :: u64)"
  "pl_orderCount (level_of p os) = word_of_nat (length os)"
  using fold_add_to_level(2) [of _ 0 os] by (simp_all add: level_of_def fold_add_to_level(1,3))

lemma level_filter:
  "levels_ok s m \<Longrightarrow> (p, l) \<in> set m \<Longrightarrow> filter (\<lambda>x. ord_price x = p) (level_orders m) = map snd l"
proof (induction m)
  case (Cons e m)
  obtain p0 l0 where e: "e = (p0, l0)" by (cases e)
  from Cons.prems(1) have l0: "\<forall>x\<in>snd ` set l0. ord_price x = p0" and m: "levels_ok s m"
    and lt: "\<forall>q\<in>fst ` set m. price_before s p0 q"
    by (auto simp: e levels_ok_Cons level_ok_def)
  have out: "\<forall>y\<in>set (level_orders m). ord_price y \<noteq> p0"
    using level_orders_price [OF m] lt price.lt_irrefl by metis
  show ?case
  proof (cases "p = p0")
    case True
    have "p0 \<notin> fst ` set m" using lt price.lt_irrefl by blast
    with True Cons.prems(2) have "l = l0" by (force simp: e)
    with True l0 out show ?thesis by (simp add: e filter_id_conv filter_empty_conv)
  next
    case False
    with Cons.prems(2) have "(p, l) \<in> set m" by (simp add: e)
    with Cons.IH [OF m this] False l0 show ?thesis by (simp add: e filter_empty_conv)
  qed
qed simp

text \<open>The L2 view of a side: prices strictly from best to worst, each with the total quantity (in
  the two's-complement range of its field) and the number of the orders at that price; a limit cuts
  the worst levels only.\<close>

definition depth_ok :: "Side \<Rightarrow> nat \<Rightarrow> Order list \<Rightarrow> PriceLevel list \<Rightarrow> bool" where
  "depth_ok s n os pls \<longleftrightarrow>
     sorted_wrt (price_before s) (map pl_price pls) \<and>
     (\<forall>pl\<in>set pls. let here = filter (\<lambda>x. ord_price x = pl_price pl) os
                   in here \<noteq> [] \<and> totalQuantity pl = sint (word_of_int (sum_list (map ord_quantity here)) :: u64) \<and>
                      pl_orderCount pl = word_of_nat (length here)) \<and>
     (\<forall>x\<in>set os. ord_price x \<in> pl_price ` set pls \<or>
        (n \<noteq> 0 \<and> length pls = n \<and> (\<forall>pl\<in>set pls. price_before s (pl_price pl) (ord_price x))))"

lemma depth_loop_ok:
  assumes "levels_ok s m" shows "depth_ok s n (level_orders m) (depth_loop n [] m)"
proof -
  let ?f = "\<lambda>(p, l). level_of p (map snd l)"
  define v where "v = (if n = 0 then m else take n m)"
  have pls: "depth_loop n [] m = map ?f v" by (simp add: depth_loop_eq v_def take_map Let_def)
  have prices: "map pl_price (map ?f v) = map fst v" by (simp add: level_of_fields case_prod_unfold)
  have split: "m = v @ (if n = 0 then [] else drop n m)" by (simp add: v_def)
  have sorted: "sorted_wrt (\<lambda>a b. price_before s (fst a) (fst b)) m"
    using assms by (simp add: levels_ok_def std_sorted_def sorted_wrt_map)
  have "sorted_wrt (price_before s) (map fst v)"
    using sorted by (subst (asm) split) (simp add: sorted_wrt_append sorted_wrt_map)
  moreover have "let here = filter (\<lambda>x. ord_price x = pl_price pl) (level_orders m)
      in here \<noteq> [] \<and> totalQuantity pl = sint (word_of_int (sum_list (map ord_quantity here)) :: u64) \<and>
         pl_orderCount pl = word_of_nat (length here)" if pl: "pl \<in> set (map ?f v)" for pl
  proof -
    obtain p l where e: "(p, l) \<in> set m" "pl = level_of p (map snd l)"
      using pl split by (metis (no_types, lifting) UnI1 case_prod_conv imageE list.set_map set_append surj_pair)
    moreover have "l \<noteq> []" using assms e(1) by (auto simp: levels_ok_def level_ok_def)
    ultimately show ?thesis using level_filter [OF assms e(1)] by (simp add: level_of_fields)
  qed
  moreover have "ord_price x \<in> fst ` set v \<or>
      (n \<noteq> 0 \<and> length v = n \<and> (\<forall>p\<in>fst ` set v. price_before s p (ord_price x)))"
    if x: "x \<in> set (level_orders m)" for x
  proof (rule ccontr)
    assume no: "\<not> ?thesis"
    from level_orders_price [OF assms x] obtain l where "(ord_price x, l) \<in> set m" by auto
    moreover have "set m = set v \<union> set (if n = 0 then [] else drop n m)" by (subst split) simp
    moreover have "(ord_price x, l) \<notin> set v" using no by force
    ultimately have d: "(ord_price x, l) \<in> set (drop n m)" "n \<noteq> 0" by (auto split: if_splits)
    then have "length v = n" by (cases "n \<le> length m") (simp_all add: v_def)
    moreover have "\<forall>p\<in>fst ` set v. price_before s p (ord_price x)"
      using sorted d by (subst (asm) split) (force simp: sorted_wrt_append)
    ultimately show False using no d by blast
  qed
  ultimately show ?thesis
    unfolding depth_ok_def pls prices using prices by (simp add: image_image level_of_fields case_prod_unfold)
qed

text \<open>C18. The depth views of the book are correct on both sides, for every limit.\<close>

theorem depth_views:
  assumes "mob_ok b"
  shows "depth_ok Buy n (level_orders (mob_bids b)) (mob_bids_view b n) \<and>
         depth_ok Sell n (level_orders (mob_asks b)) (mob_asks_view b n)"
  using depth_loop_ok [OF mob_ok_levels [OF assms, of Buy], of n] depth_loop_ok [OF mob_ok_levels [OF assms, of Sell], of n]
  by (simp add: mob_bids_view_def mob_asks_view_def)

theorem depth_views_witness:
  "mob_ok demo_book \<and> depth_ok Sell 1 (level_orders (mob_asks demo_book)) (mob_asks_view demo_book 1)"
  using depth_views [OF demo_book_ok] demo_book_ok by blast

section \<open>The replicated machine\<close>

lemma lsm_abs_init: "lsm_abs mob_abs (lsm_init (mob_empty n)) = (spec_reset n, 1)"
  by (simp add: lsm_abs_def lsm_init_def mob_empty_def mob_abs_def spec_reset_def level_orders_def)

lemma spec_run_ok:
  "ab_ok a \<Longrightarrow> wire_ok a \<Longrightarrow> spec_run (a, sq) ds = (rs, a', sq') \<Longrightarrow> ab_ok a' \<and> wire_ok a'"
proof (induction ds arbitrary: a sq rs)
  case (Cons d ds)
  obtain r a1 sq1 where r: "spec_apply (a, sq) d = (r, a1, sq1)" by (metis prod_cases3)
  obtain rs2 a2 sq2 where rs: "spec_run (a1, sq1) ds = (rs2, a2, sq2)" by (metis prod_cases3)
  with Cons.prems(3) r have "spec_run (a1, sq1) ds = (rs2, a', sq')" by simp
  from Cons.IH [OF _ _ this] spec_apply_ok [OF Cons.prems(1,2) r] show ?case by simp
qed simp

text \<open>C6. The state machine on the map engine, fed any sequence of payloads (well-formed or not)
  from the empty book, always answers, without a failed lookup or a dangling iterator, and every
  answer and the final book are those of the abstract machine.\<close>

theorem map_machine_run:
  "\<exists>st. lob_run map_book_ops (lsm_init (mob_empty n)) ds = Some (fst (spec_run (spec_reset n, 1) ds), st) \<and>
     lsm_abs mob_abs st = snd (spec_run (spec_reset n, 1) ds) \<and> mob_ok (lsm_book st)"
  using map_book.run_refines [of "lsm_init (mob_empty n)" ds] mob_ok_empty
  unfolding lsm_abs_init by (simp add: lsm_init_def)

lemma run_from_empty:
  assumes "lob_run map_book_ops (lsm_init (mob_empty n)) ds = Some (rs, st)"
  shows "mob_ok (lsm_book st) \<and> wire_ok (mob_abs (lsm_book st))"
proof -
  obtain rs1 a sq where run: "spec_run (spec_reset n, 1) ds = (rs1, a, sq)" by (metis prod_cases3)
  have "ab_ok (spec_reset n)" "wire_ok (spec_reset n)"
    by (simp_all add: ab_ok_def side_ok_def spec_reset_def wire_ok_def ab_all_def)
  from spec_run_ok [OF this run] have "wire_ok a" ..
  moreover have "mob_abs (lsm_book st) = a" "mob_ok (lsm_book st)"
    using map_book.run_refines [of "lsm_init (mob_empty n)" ds] assms run mob_ok_empty
    unfolding lsm_abs_init by (simp_all add: lsm_init_def lsm_abs_def)
  ultimately show ?thesis by simp
qed

text \<open>C7. Snapshot and restore. A replica that restores the snapshot of a reached state, whatever it
  held before, has the same orders in the same priority, the same symbol and the same next sequence
  number, and answers every later sequence of payloads as the original does.\<close>

theorem restored_replica:
  assumes "lob_run map_book_ops (lsm_init (mob_empty n)) ds = Some (rs, st)"
    and "length (mob_symbol (lsm_book st)) < 2 ^ 32" "mob_orderCount (lsm_book st) < 2 ^ 32"
  shows "\<exists>st'. Option.bind (lob_snapshot map_book_ops st) (lob_restore map_book_ops st0) = Some st' \<and>
         lsm_abs mob_abs st' = lsm_abs mob_abs st \<and>
         map_option fst (lob_run map_book_ops st' ds') = map_option fst (lob_run map_book_ops st ds')"
proof -
  have ok: "mob_ok (lsm_book st)" "wire_ok (mob_abs (lsm_book st))"
    using run_from_empty [OF assms(1)] by simp_all
  have "length (ob_symbol map_book_ops (lsm_book st)) < 2 ^ 32" "ob_orderCount map_book_ops (lsm_book st) < 2 ^ 32"
    using assms(2,3) by (simp_all add: map_book_ops_def)
  from map_book.restore_snapshot [OF ok this, of st0] obtain st' where
    st': "lob_restore map_book_ops st0 (snapshot_bytes (lsm_abs mob_abs st)) = Some st'"
      "lsm_abs mob_abs st' = lsm_abs mob_abs st" "mob_ok (lsm_book st')" by blast
  moreover have "map_option fst (lob_run map_book_ops st' ds') = map_option fst (lob_run map_book_ops st ds')"
    using map_book.run_refines [of st ds'] map_book.run_refines [of st' ds'] ok(1) st' by auto
  ultimately show ?thesis using map_book.snapshot_refines [OF ok(1)] by simp
qed

definition demo_log :: "byte list list" where
  "demo_log = [encodeNew 1 Sell 100 5, encodeNew 2 Buy 99 3, encodeNew 3 Buy 100 2, [7, 7], []]"

lemma demo_run:
  "lob_run map_book_ops (lsm_init (mob_empty [76, 79, 66])) demo_log =
     Some (the (map_option fst (lob_run map_book_ops (lsm_init (mob_empty [76, 79, 66])) demo_log)),
           the (map_option snd (lob_run map_book_ops (lsm_init (mob_empty [76, 79, 66])) demo_log)))"
  using map_book.run_refines [of "lsm_init (mob_empty [76, 79, 66])" demo_log] mob_ok_empty
  by (auto simp: lsm_init_def)

theorem restored_replica_witness:
  "let st = the (map_option snd (lob_run map_book_ops (lsm_init (mob_empty [76, 79, 66])) demo_log))
   in \<exists>st'. Option.bind (lob_snapshot map_book_ops st) (lob_restore map_book_ops (lsm_init (mob_empty []))) = Some st' \<and>
        lsm_abs mob_abs st' = lsm_abs mob_abs st"
proof -
  let ?st = "the (map_option snd (lob_run map_book_ops (lsm_init (mob_empty [76, 79, 66])) demo_log))"
  have "length (mob_symbol (lsm_book ?st)) = 3" "mob_orderCount (lsm_book ?st) = 2" by code_simp+
  then have "length (mob_symbol (lsm_book ?st)) < 2 ^ 32" "mob_orderCount (lsm_book ?st) < 2 ^ 32" by simp_all
  from restored_replica [OF demo_run this, of "lsm_init (mob_empty [])" "[]"] show ?thesis unfolding Let_def by blast
qed

text \<open>A payload that is empty, has an unknown opcode, or is too short or malformed for its
  opcode is answered with the single byte 0 and leaves the book of every engine as it was; a
  non-empty one still consumes a sequence number.\<close>

theorem bad_payload:
  assumes "data \<noteq> [] \<longrightarrow>
      (hd data = OP_NEW \<longrightarrow> decodeNew data = None) \<and>
      (hd data = OP_CXL \<longrightarrow> decodeCancel data = None) \<and>
      (hd data = OP_MOD \<longrightarrow> decodeModify data = None)"
  shows "lob_apply ops st data = Some ([0], if data = [] then st else st\<lparr>lsm_nextSeq := lsm_nextSeq st + 1\<rparr>)"
  using assms by (auto simp: lob_apply_def encodeSimpleResult_def Let_def)

theorem bad_payload_witness:
  "lob_apply map_book_ops (lsm_init demo_book) [0x20, 1, 2] = Some ([0], \<lparr>lsm_book = demo_book, lsm_nextSeq = 2\<rparr>)"
  using bad_payload [of "[0x20, 1, 2]" map_book_ops "lsm_init demo_book"]
  by (simp add: OP_NEW_def OP_CXL_def OP_MOD_def lsm_init_def)

lemma apply_sequence:
  "lob_apply ops st d = Some (r, st') \<Longrightarrow>
     lsm_nextSeq st' = lsm_nextSeq st + (if d = [] then 0 else 1)"
  by (auto simp: lob_apply_def Let_def bind_eq_Some_conv split: if_splits option.splits prod.splits)

text \<open>Sequence numbers are deterministic: on every engine the counter advances by one per
  non-empty payload (modulo the width of the counter), whatever the payloads contain.\<close>

theorem run_sequence:
  "lob_run ops st ds = Some (rs, st') \<Longrightarrow>
     lsm_nextSeq st' = lsm_nextSeq st + word_of_nat (length (filter (\<lambda>d. d \<noteq> []) ds)) \<and> length rs = length ds"
  by (induction ds arbitrary: st rs) (auto simp: bind_eq_Some_conv dest: apply_sequence)

theorem run_sequence_witness:
  "lsm_nextSeq (the (map_option snd (lob_run map_book_ops (lsm_init (mob_empty [76, 79, 66])) demo_log))) = 5"
  using run_sequence [OF demo_run] by (simp add: demo_log_def lsm_init_def encode_bytes)

section \<open>The protocol\<close>


text \<open>The result of a new order survives the wire: the client decodes the fills, the rested
  flag and the remaining quantity the machine encoded.\<close>

theorem new_result_roundtrip:
  assumes "\<forall>f\<in>set fs. i64_ok (fill_price f) \<and> i64_ok (fill_quantity f)" "length fs < 2 ^ 32" "i64_ok q"
  shows "decodeNewResult (encodeNewResult fs r q) = Some (map wire_of_fill fs, r, q)"
  using decodeNewResult_encode [of fs q r "[]"] assms by (simp add: fill_ok_def)

theorem new_result_roundtrip_witness:
  "decodeNewResult (encodeNewResult
     [\<lparr>makerOrderId = 1, takerOrderId = 3, fill_price = - 2, fill_quantity = 5, takerSide = Buy\<rparr>] True 4) =
   Some ([(1, 3, - 2, 5, 0)], True, 4)"
  using new_result_roundtrip
    [of "[\<lparr>makerOrderId = 1, takerOrderId = 3, fill_price = - 2, fill_quantity = 5, takerSide = Buy\<rparr>]" 4 True]
  by (simp add: i64_ok_def)

end
