(* ===== verification/Raft_Types.thy ===== *)
theory Raft_Types
  imports Prelude
begin

text \<open>
  The vocabulary of the Raft library: \<^verbatim>\<open>raft/include/raft/Types.h\<close>, \<^verbatim>\<open>RPC.h\<close> and
  \<^verbatim>\<open>Storage.h\<close>. Terms, indices and node ids are \<open>nat\<close> values of \<open>uint64_t\<close>; arithmetic on
  them goes through \<open>u64_add\<close> and \<open>u64_sub\<close>.
\<close>

section \<open>Entries and messages\<close>

text \<open>\<open>EntryType_value b\<close> and \<open>MessageType_value b\<close> are values outside the enumerators, which a \<open>static_cast\<close> of a byte
  read from a file or a peer can give.\<close>

datatype EntryType = Normal | ConfChange | ConfChangeV2 | EntryType_value byte

datatype Role = Follower | Candidate | Leader | PreCandidate

record Entry =
  ent_term :: nat
  ent_index :: nat
  ent_type :: EntryType
  ent_data :: "byte list"

record Snapshot =
  snap_term :: nat
  snap_index :: nat
  snap_data :: "byte list"

datatype MessageType =
  MsgPropose | MsgApp | MsgAppResp | MsgVote | MsgVoteResp | MsgPreVote | MsgPreVoteResp | MsgSnap
| MsgHeartbeat | MsgHeartbeatResp | MsgUnreachable | MsgSnapStatus | MsgCheckQuorum
| MsgTransferLeader | MsgTimeoutNow | MsgReadIndex | MsgReadIndexResp | MessageType_value byte

record Message =
  msg_type :: MessageType
  msg_to :: nat
  msg_from :: nat
  msg_term :: nat
  msg_logTerm :: nat
  msg_index :: nat
  msg_commit :: nat
  msg_reject :: bool
  msg_rejectHint :: nat
  msg_entries :: "Entry list"
  msg_snapshot :: Snapshot
  msg_context :: "byte list"

text \<open>Default member initialisers of the structs.\<close>

definition default_Entry :: Entry where
  "default_Entry = \<lparr>ent_term = 0, ent_index = 0, ent_type = Normal, ent_data = []\<rparr>"

definition default_Snapshot :: Snapshot where
  "default_Snapshot = \<lparr>snap_term = 0, snap_index = 0, snap_data = []\<rparr>"

text \<open>A message of the given type, receiver, sender and term, the other fields at their defaults.\<close>

definition new_Message :: "MessageType \<Rightarrow> nat \<Rightarrow> nat \<Rightarrow> nat \<Rightarrow> Message" where
  "new_Message t to from term =
     \<lparr>msg_type = t, msg_to = to, msg_from = from, msg_term = term, msg_logTerm = 0, msg_index = 0,
      msg_commit = 0, msg_reject = False, msg_rejectHint = 0, msg_entries = [],
      msg_snapshot = default_Snapshot, msg_context = []\<rparr>"

lemma new_Message_simps [simp]:
  "msg_type (new_Message t a f n) = t" "msg_to (new_Message t a f n) = a"
  "msg_from (new_Message t a f n) = f" "msg_term (new_Message t a f n) = n"
  "msg_reject (new_Message t a f n) = False" "msg_index (new_Message t a f n) = 0"
  "msg_context (new_Message t a f n) = []" "msg_entries (new_Message t a f n) = []"
  "msg_logTerm (new_Message t a f n) = 0" "msg_commit (new_Message t a f n) = 0"
  "msg_rejectHint (new_Message t a f n) = 0" "msg_snapshot (new_Message t a f n) = default_Snapshot"
  by (simp_all add: new_Message_def)

text \<open>The casts between the enum and its underlying byte.\<close>

definition EntryType_to_u8 :: "EntryType \<Rightarrow> byte" where
  "EntryType_to_u8 t =
     (case t of Normal \<Rightarrow> 0 | ConfChange \<Rightarrow> 1 | ConfChangeV2 \<Rightarrow> 2 | EntryType_value b \<Rightarrow> b)"

definition EntryType_of_u8 :: "byte \<Rightarrow> EntryType" where
  "EntryType_of_u8 b =
     (if b = 0 then Normal else if b = 1 then ConfChange else if b = 2 then ConfChangeV2
      else EntryType_value b)"

lemma EntryType_of_to_u8 [simp]:
  "t \<in> {Normal, ConfChange, ConfChangeV2} \<Longrightarrow> EntryType_of_u8 (EntryType_to_u8 t) = t"
  by (auto simp: EntryType_of_u8_def EntryType_to_u8_def)

lemma EntryType_to_of_u8 [simp]: "EntryType_to_u8 (EntryType_of_u8 b) = b"
  by (simp add: EntryType_of_u8_def EntryType_to_u8_def)

section \<open>Persistent state and the storage interface\<close>

record HardState =
  hs_term :: nat
  hs_vote :: nat
  hs_commit :: nat

record ConfState =
  cs_nodes :: "nat list"
  cs_learners :: "nat list"

text \<open>The read side of \<^verbatim>\<open>class Storage\<close> at one moment: what each virtual function returns.
  \<open>None\<close> stands for a thrown \<open>std::exception\<close>.\<close>

record Storage =
  sto_initialState :: "HardState \<times> ConfState"
  sto_entries :: "nat \<Rightarrow> nat \<Rightarrow> nat \<Rightarrow> Entry list option"
  sto_term :: "nat \<Rightarrow> nat option"
  sto_firstIndex :: nat
  sto_lastIndex :: nat
  sto_snapshot :: Snapshot

text \<open>Consecutive indices from \<open>first\<close> on.\<close>

definition contiguous :: "nat \<Rightarrow> Entry list \<Rightarrow> bool" where
  "contiguous first es \<longleftrightarrow> (\<forall>k<length es. ent_index (es ! k) = first + k)"

lemma contiguous_Nil [simp]: "contiguous f []"
  by (simp add: contiguous_def)

lemma contiguous_Cons:
  "contiguous f (e # es) \<longleftrightarrow> ent_index e = f \<and> contiguous (Suc f) es"
  by (auto simp: contiguous_def nth_Cons split: nat.splits)

lemma contiguous_append:
  "contiguous f (es @ fs) \<longleftrightarrow> contiguous f es \<and> contiguous (f + length es) fs"
  by (induction es arbitrary: f) (auto simp: contiguous_Cons)

lemma contiguous_take: "contiguous f es \<Longrightarrow> contiguous f (take n es)"
  by (auto simp: contiguous_def)

lemma contiguous_drop: "contiguous f es \<Longrightarrow> contiguous (f + n) (drop n es)"
  by (auto simp: contiguous_def)

end
