(* ===== verification/Log_Unstable.thy ===== *)
theory Log_Unstable
  imports Raft_Types
begin

text \<open>
  The in-memory tail of the log, \<^verbatim>\<open>raft/src/LogUnstable.cpp\<close>: entries that are not persisted yet
  and possibly a snapshot. An index that is read beyond the vector (\<open>entries_[i - offset_]\<close>) is
  undefined behaviour in C++ and \<open>None\<close> here; \<open>lu_ok\<close> is the invariant that rules it out.
\<close>

section \<open>State and operations\<close>

record LogUnstable =
  lu_entries :: "Entry list"
  lu_offset :: nat
  lu_snapshot :: "Snapshot option"

definition lu_init :: LogUnstable where
  "lu_init = \<lparr>lu_entries = [], lu_offset = 0, lu_snapshot = None\<rparr>"

definition lu_maybeFirstIndex :: "LogUnstable \<Rightarrow> nat option" where
  "lu_maybeFirstIndex u = map_option (\<lambda>s. u64_add (snap_index s) 1) (lu_snapshot u)"

definition lu_maybeLastIndex :: "LogUnstable \<Rightarrow> nat option" where
  "lu_maybeLastIndex u =
     (if lu_entries u \<noteq> [] then Some (u64_sub (u64_add (lu_offset u) (length (lu_entries u))) 1)
      else map_option snap_index (lu_snapshot u))"

definition lu_maybeTerm :: "LogUnstable \<Rightarrow> nat \<Rightarrow> nat option option" where
  "lu_maybeTerm u i =
     (if i < lu_offset u
      then Some (case lu_snapshot u of
                   Some s \<Rightarrow> if snap_index s = i then Some (snap_term s) else None
                 | None \<Rightarrow> None)
      else case lu_maybeLastIndex u of
             None \<Rightarrow> Some None
           | Some l \<Rightarrow>
               if i > l then Some None
               else if i - lu_offset u < length (lu_entries u)
               then Some (Some (ent_term (lu_entries u ! (i - lu_offset u))))
               else None)"

definition lu_dropTo :: "LogUnstable \<Rightarrow> nat \<Rightarrow> LogUnstable" where
  "lu_dropTo u i =
     (if lu_entries u = [] \<or> i < lu_offset u then u
      else let d = u64_sub (u64_add i 1) (lu_offset u)
           in u\<lparr>lu_entries := (if d \<ge> length (lu_entries u) then [] else drop d (lu_entries u)),
                lu_offset := u64_add i 1\<rparr>)"

definition lu_stableTo :: "LogUnstable \<Rightarrow> nat \<Rightarrow> nat \<Rightarrow> LogUnstable" where
  "lu_stableTo u i t =
     (case lu_snapshot u of
        Some s \<Rightarrow>
          if i = snap_index s \<and> t = snap_term s then u\<lparr>lu_snapshot := None\<rparr>
          else if i \<le> snap_index s then u
          else lu_dropTo u i
      | None \<Rightarrow> lu_dropTo u i)"

definition lu_stableSnapTo :: "LogUnstable \<Rightarrow> nat \<Rightarrow> LogUnstable" where
  "lu_stableSnapTo u i =
     (case lu_snapshot u of
        Some s \<Rightarrow> if snap_index s = i then u\<lparr>lu_snapshot := None\<rparr> else u
      | None \<Rightarrow> u)"

definition lu_restore :: "LogUnstable \<Rightarrow> Snapshot \<Rightarrow> LogUnstable" where
  "lu_restore u s = \<lparr>lu_entries = [], lu_offset = u64_add (snap_index s) 1, lu_snapshot = Some s\<rparr>"

definition lu_truncateFrom :: "LogUnstable \<Rightarrow> nat \<Rightarrow> LogUnstable" where
  "lu_truncateFrom u fromIndex =
     (if lu_entries u = [] then u
      else if fromIndex < lu_offset u then u\<lparr>lu_entries := []\<rparr>
      else let cut = fromIndex - lu_offset u
           in if cut < length (lu_entries u) then u\<lparr>lu_entries := take cut (lu_entries u)\<rparr> else u)"

definition lu_truncateAndAppend :: "LogUnstable \<Rightarrow> Entry list \<Rightarrow> LogUnstable" where
  "lu_truncateAndAppend u es =
     (if es = [] then u
      else let first = ent_index (hd es)
           in if lu_entries u = [] then u\<lparr>lu_offset := first, lu_entries := es\<rparr>
              else let ourLast = u64_sub (u64_add (lu_offset u) (length (lu_entries u))) 1
                   in if first \<le> lu_offset u then u\<lparr>lu_offset := first, lu_entries := es\<rparr>
                      else if first > u64_add ourLast 1 then u\<lparr>lu_offset := first, lu_entries := es\<rparr>
                      else u\<lparr>lu_entries := take (first - lu_offset u) (lu_entries u) @ es\<rparr>)"

definition lu_append :: "LogUnstable \<Rightarrow> Entry list \<Rightarrow> LogUnstable" where
  "lu_append u es = lu_truncateAndAppend u es"

definition lu_slice :: "LogUnstable \<Rightarrow> nat \<Rightarrow> nat \<Rightarrow> Entry list" where
  "lu_slice u lo hi =
     (if lo < lu_offset u \<or> hi > u64_add (lu_offset u) (length (lu_entries u)) \<or> lo > hi then []
      else take (hi - lo) (drop (lo - lu_offset u) (lu_entries u)))"

section \<open>Invariant\<close>

text \<open>The window holds consecutive indices that fit the index type, and an empty window that sits
  on a snapshot starts right above it.\<close>

definition lu_ok :: "LogUnstable \<Rightarrow> bool" where
  "lu_ok u \<longleftrightarrow>
     contiguous (lu_offset u) (lu_entries u) \<and>
     lu_offset u + length (lu_entries u) < 2 ^ 64 \<and>
     (case lu_snapshot u of None \<Rightarrow> True
      | Some s \<Rightarrow> snap_index s < lu_offset u \<and> snap_index s < 2 ^ 64 - 1)"

definition lu_at :: "LogUnstable \<Rightarrow> nat \<Rightarrow> Entry option" where
  "lu_at u i =
     (if lu_offset u \<le> i \<and> i < lu_offset u + length (lu_entries u)
      then Some (lu_entries u ! (i - lu_offset u)) else None)"

lemma lu_ok_init: "lu_ok lu_init"
  by (simp add: lu_ok_def lu_init_def)

lemma lu_ok_lastIndex:
  "lu_ok u \<Longrightarrow> lu_entries u \<noteq> [] \<Longrightarrow>
     lu_maybeLastIndex u = Some (lu_offset u + length (lu_entries u) - 1)"
  by (cases "lu_entries u") (auto simp: lu_ok_def lu_maybeLastIndex_def u64_simps)

text \<open>With the invariant, a term query never reads outside the vector.\<close>

lemma lu_maybeTerm_at:
  assumes "lu_ok u"
  shows "lu_maybeTerm u i =
    Some (case lu_at u i of
            Some e \<Rightarrow> Some (ent_term e)
          | None \<Rightarrow> (case lu_snapshot u of
                       Some s \<Rightarrow> if snap_index s = i then Some (snap_term s) else None
                     | None \<Rightarrow> None))"
proof (cases "lu_entries u = []")
  case True
  with assms show ?thesis
    by (auto simp: lu_maybeTerm_def lu_at_def lu_maybeLastIndex_def lu_ok_def split: option.splits)
next
  case False
  from assms have "snap_index s < lu_offset u" if "lu_snapshot u = Some s" for s
    using that by (simp add: lu_ok_def)
  moreover obtain e es where "lu_entries u = e # es" using False by (cases "lu_entries u") auto
  ultimately show ?thesis
    using lu_ok_lastIndex [OF assms False] by (auto simp: lu_maybeTerm_def lu_at_def split: option.splits)
qed

lemma lu_ok_restore: "snap_index s < 2 ^ 64 - 1 \<Longrightarrow> lu_ok (lu_restore u s)"
  by (simp add: lu_ok_def lu_restore_def u64_simps)

lemma lu_ok_stableSnapTo: "lu_ok u \<Longrightarrow> lu_ok (lu_stableSnapTo u i)"
  by (auto simp: lu_ok_def lu_stableSnapTo_def split: option.splits)

lemma lu_ok_truncateFrom: "lu_ok u \<Longrightarrow> lu_ok (lu_truncateFrom u i)"
  by (auto simp: lu_ok_def lu_truncateFrom_def Let_def contiguous_take split: option.splits)

lemma lu_at_truncateFrom:
  "lu_ok u \<Longrightarrow> lu_at (lu_truncateFrom u i) j = (if j < i then lu_at u j else None)"
  by (auto simp: lu_at_def lu_truncateFrom_def Let_def)

lemma lu_ok_dropTo:
  assumes "lu_ok u" "i < 2 ^ 64 - 1" shows "lu_ok (lu_dropTo u i)"
proof (cases "lu_entries u = [] \<or> i < lu_offset u")
  case False
  then have d: "u64_sub (u64_add i 1) (lu_offset u) = Suc i - lu_offset u"
    using assms(2) by (simp add: u64_simps)
  have "contiguous (lu_offset u + (Suc i - lu_offset u)) (drop (Suc i - lu_offset u) (lu_entries u))"
    using assms(1) by (simp add: lu_ok_def contiguous_drop)
  then show ?thesis
    using assms False d by (auto simp: lu_ok_def lu_dropTo_def Let_def u64_simps split: option.splits)
qed (use assms in \<open>auto simp: lu_dropTo_def\<close>)

lemma lu_at_dropTo:
  assumes "lu_ok u" "i < 2 ^ 64 - 1"
  shows "lu_at (lu_dropTo u i) j = (if j \<le> i then None else lu_at u j)"
proof (cases "lu_entries u = [] \<or> i < lu_offset u")
  case False
  then have "u64_sub (u64_add i 1) (lu_offset u) = Suc i - lu_offset u"
    using assms(2) by (simp add: u64_simps)
  with assms False show ?thesis by (auto simp: lu_at_def lu_dropTo_def Let_def u64_simps)
qed (auto simp: lu_dropTo_def lu_at_def)

lemma lu_ok_stableTo:
  assumes "lu_ok u" "i < 2 ^ 64 - 1" shows "lu_ok (lu_stableTo u i t)"
  using assms lu_ok_dropTo [OF assms] by (auto simp: lu_stableTo_def lu_ok_def split: option.splits)

section \<open>Appending\<close>

text \<open>The three cases of \<open>truncateAndAppend\<close> on a well-formed window.\<close>

lemma lu_append_cases:
  assumes "lu_ok u" "es \<noteq> []"
  shows "lu_append u es =
    (if lu_entries u = [] \<or> ent_index (hd es) \<le> lu_offset u \<or>
        ent_index (hd es) > lu_offset u + length (lu_entries u)
     then u\<lparr>lu_offset := ent_index (hd es), lu_entries := es\<rparr>
     else u\<lparr>lu_entries := take (ent_index (hd es) - lu_offset u) (lu_entries u) @ es\<rparr>)"
proof -
  have "lu_entries u \<noteq> [] \<Longrightarrow>
      u64_add (u64_sub (u64_add (lu_offset u) (length (lu_entries u))) 1) 1 = lu_offset u + length (lu_entries u)"
    using assms(1) by (cases "lu_entries u") (auto simp: lu_ok_def u64_simps)
  with assms(2) show ?thesis by (simp add: lu_append_def lu_truncateAndAppend_def Let_def)
qed

lemma lu_at_append:
  assumes "lu_ok u" "es \<noteq> []" "contiguous (ent_index (hd es)) es"
  defines "f \<equiv> ent_index (hd es)"
  shows "lu_at (lu_append u es) i =
    (if f \<le> i \<and> i < f + length es then Some (es ! (i - f))
     else if i < f \<and> f \<le> lu_offset u + length (lu_entries u) then lu_at u i
     else None)"
  unfolding lu_append_cases [OF assms(1,2)] f_def
  by (auto simp: lu_at_def nth_append)

lemma lu_ok_append:
  assumes "lu_ok u" "es \<noteq> []" "contiguous (ent_index (hd es)) es"
    and "ent_index (hd es) + length es < 2 ^ 64"
    and "\<And>s. lu_snapshot u = Some s \<Longrightarrow> snap_index s < ent_index (hd es)"
  shows "lu_ok (lu_append u es)"
proof -
  let ?f = "ent_index (hd es)"
  have "contiguous (lu_offset u) (take (?f - lu_offset u) (lu_entries u) @ es)"
    if "lu_offset u < ?f" "?f \<le> lu_offset u + length (lu_entries u)"
    using assms(1,3) that by (simp add: lu_ok_def contiguous_append contiguous_take)
  with assms show ?thesis
    unfolding lu_append_cases [OF assms(1,2)] by (auto simp: lu_ok_def split: option.splits)
qed

lemma lu_slice_at:
  assumes "lu_ok u" "lu_offset u \<le> lo" "lo \<le> hi" "hi \<le> lu_offset u + length (lu_entries u)"
  shows "length (lu_slice u lo hi) = hi - lo \<and> (\<forall>k<hi - lo. lu_at u (lo + k) = Some (lu_slice u lo hi ! k))"
  using assms by (auto simp: lu_slice_def lu_at_def lu_ok_def u64_simps)

end
