(* ===== verification/Raft_Log.thy ===== *)
theory Raft_Log
  imports Log_Unstable
begin

text \<open>
  The replicated log, \<^verbatim>\<open>raft/src/RaftLog.cpp\<close>: the persisted view of \<^verbatim>\<open>Storage\<close> under the
  in-memory tail of \<^verbatim>\<open>LogUnstable\<close>. The storage is an argument of every operation, because the
  application changes it between calls.

  Results: \<open>term\<close> and what calls it return \<open>None\<close> where the C++ reads outside a vector; \<open>slice\<close>
  returns \<open>None\<close> where it throws, and its callers catch that.
\<close>

section \<open>State and operations\<close>

record RaftLog =
  rl_unstable :: LogUnstable
  rl_committed :: nat
  rl_applied :: nat

definition noLimit :: nat where
  "noLimit = 2 ^ 64 - 1"

text \<open>\<open>sizeof(Entry)\<close> on a 64-bit ABI: two words, a byte padded to a word, and a vector header.\<close>

definition sizeof_Entry :: nat where
  "sizeof_Entry = 8 + 8 + 8 + 24"

definition rl_init :: "Storage \<Rightarrow> RaftLog" where
  "rl_init S =
     (let c = u64_sub (sto_firstIndex S) 1;
          s = snap_index (sto_snapshot S)
      in \<lparr>rl_unstable = lu_init,
          rl_committed = (if s > c then s else c),
          rl_applied = (if s > c then s else c)\<rparr>)"

definition rl_firstIndex :: "Storage \<Rightarrow> RaftLog \<Rightarrow> nat" where
  "rl_firstIndex S rl =
     (case lu_maybeFirstIndex (rl_unstable rl) of Some i \<Rightarrow> i | None \<Rightarrow> sto_firstIndex S)"

definition rl_lastIndex :: "Storage \<Rightarrow> RaftLog \<Rightarrow> nat" where
  "rl_lastIndex S rl =
     (case lu_maybeLastIndex (rl_unstable rl) of Some i \<Rightarrow> i | None \<Rightarrow> sto_lastIndex S)"

definition rl_term :: "Storage \<Rightarrow> RaftLog \<Rightarrow> nat \<Rightarrow> nat option" where
  "rl_term S rl i =
     (if i = u64_sub (rl_firstIndex S rl) 1 then Some 0
      else do {
        ut \<leftarrow> lu_maybeTerm (rl_unstable rl) i;
        Some (case ut of
                Some t \<Rightarrow> t
              | None \<Rightarrow> (case sto_term S i of Some t \<Rightarrow> t | None \<Rightarrow> 0))
      })"

definition rl_lastTerm :: "Storage \<Rightarrow> RaftLog \<Rightarrow> nat option" where
  "rl_lastTerm S rl = rl_term S rl (rl_lastIndex S rl)"

definition rl_maybeCommit :: "Storage \<Rightarrow> RaftLog \<Rightarrow> nat \<Rightarrow> nat \<Rightarrow> (bool \<times> RaftLog) option" where
  "rl_maybeCommit S rl index t =
     (if index > rl_committed rl
      then do {
        t' \<leftarrow> rl_term S rl index;
        Some (if t' = t then (True, rl\<lparr>rl_committed := index\<rparr>) else (False, rl))
      }
      else Some (False, rl))"

definition rl_commitTo :: "Storage \<Rightarrow> RaftLog \<Rightarrow> nat \<Rightarrow> RaftLog" where
  "rl_commitTo S rl index =
     (if index > rl_committed rl then rl\<lparr>rl_committed := min index (rl_lastIndex S rl)\<rparr> else rl)"

text \<open>The size limit of \<open>slice\<close>: the loop over the entries after the first.\<close>

fun fit_size :: "nat \<Rightarrow> nat \<Rightarrow> Entry list \<Rightarrow> Entry list" where
  "fit_size maxSize sz [] = []"
| "fit_size maxSize sz (e # es) =
     (let sz' = u64_add sz (u64_add (length (ent_data e)) sizeof_Entry)
      in if sz' > maxSize then [] else e # fit_size maxSize sz' es)"

definition limit_size :: "nat \<Rightarrow> Entry list \<Rightarrow> Entry list" where
  "limit_size maxSize es =
     (if maxSize \<noteq> noLimit \<and> length es > 1
      then hd es # fit_size maxSize (u64_add (length (ent_data (hd es))) sizeof_Entry) (tl es)
      else es)"

definition rl_slice :: "Storage \<Rightarrow> RaftLog \<Rightarrow> nat \<Rightarrow> nat \<Rightarrow> nat \<Rightarrow> Entry list option" where
  "rl_slice S rl lo hi maxSize =
     (if lo \<ge> hi then Some []
      else if lo < rl_firstIndex S rl then None
      else if hi > u64_add (rl_lastIndex S rl) 1 then None
      else
        let off = lu_offset (rl_unstable rl)
        in do {
             stored \<leftarrow> (if lo < off then sto_entries S lo (min hi off) maxSize else Some []);
             if lo < off \<and> length stored < min hi off - lo then Some stored
             else if hi > off
             then Some (limit_size maxSize (stored @ lu_slice (rl_unstable rl) (max lo off) hi))
             else Some (limit_size maxSize stored)
           })"

definition is_conf :: "Entry \<Rightarrow> bool" where
  "is_conf e \<longleftrightarrow> ent_type e = ConfChange \<or> ent_type e = ConfChangeV2"

definition rl_nextCommittedEntries :: "Storage \<Rightarrow> RaftLog \<Rightarrow> bool \<Rightarrow> Entry list" where
  "rl_nextCommittedEntries S rl allowConfChange =
     (if rl_committed rl \<le> rl_applied rl then []
      else case rl_slice S rl (u64_add (rl_applied rl) 1) (u64_add (rl_committed rl) 1) noLimit of
             None \<Rightarrow> []
           | Some ents \<Rightarrow> if allowConfChange then ents else takeWhile (\<lambda>e. \<not> is_conf e) ents)"

definition rl_appliedTo :: "RaftLog \<Rightarrow> nat \<Rightarrow> RaftLog" where
  "rl_appliedTo rl i = (if i < rl_applied rl \<or> i > rl_committed rl then rl else rl\<lparr>rl_applied := i\<rparr>)"

fun rl_findConflict :: "Storage \<Rightarrow> RaftLog \<Rightarrow> Entry list \<Rightarrow> nat option" where
  "rl_findConflict S rl [] = Some 0"
| "rl_findConflict S rl (e # es) =
     do {
       t \<leftarrow> rl_term S rl (ent_index e);
       if t \<noteq> ent_term e then Some (ent_index e) else rl_findConflict S rl es
     }"

definition rl_maybeAppend ::
  "Storage \<Rightarrow> RaftLog \<Rightarrow> nat \<Rightarrow> nat \<Rightarrow> nat \<Rightarrow> Entry list \<Rightarrow> (bool \<times> RaftLog) option" where
  "rl_maybeAppend S rl prevLogIndex prevLogTerm leaderCommit es =
     do {
       t \<leftarrow> rl_term S rl prevLogIndex;
       if t \<noteq> prevLogTerm then Some (False, rl)
       else do {
         let lastNewIndex = u64_add prevLogIndex (length es);
         conflict \<leftarrow> rl_findConflict S rl es;
         rl' \<leftarrow>
           (if conflict = 0
            then Some (if lastNewIndex < rl_lastIndex S rl
                       then rl\<lparr>rl_unstable := lu_truncateFrom (rl_unstable rl) (u64_add lastNewIndex 1)\<rparr>
                       else rl)
            else if conflict \<le> rl_committed rl then Some rl
            else let pos = u64_sub (u64_sub conflict prevLogIndex) 1
                 in if pos > length es then None
                    else Some (rl\<lparr>rl_unstable := lu_append (rl_unstable rl) (drop pos es)\<rparr>));
         Some (True,
           if leaderCommit > rl_committed rl'
           then rl'\<lparr>rl_committed := min leaderCommit lastNewIndex\<rparr> else rl')
       }
     }"

definition rl_append :: "Storage \<Rightarrow> RaftLog \<Rightarrow> Entry list \<Rightarrow> nat \<times> RaftLog" where
  "rl_append S rl es =
     (if es = [] then (rl_lastIndex S rl, rl)
      else if u64_sub (ent_index (hd es)) 1 < rl_committed rl then (rl_lastIndex S rl, rl)
      else let rl' = rl\<lparr>rl_unstable := lu_append (rl_unstable rl) es\<rparr>
           in (rl_lastIndex S rl', rl'))"

definition rl_restore :: "RaftLog \<Rightarrow> Snapshot \<Rightarrow> RaftLog" where
  "rl_restore rl s =
     \<lparr>rl_unstable = lu_restore (rl_unstable rl) s, rl_committed = snap_index s, rl_applied = snap_index s\<rparr>"

definition rl_snapshot :: "Storage \<Rightarrow> RaftLog \<Rightarrow> Snapshot" where
  "rl_snapshot S rl = (case lu_snapshot (rl_unstable rl) of Some s \<Rightarrow> s | None \<Rightarrow> sto_snapshot S)"

definition rl_snapshotIndex :: "Storage \<Rightarrow> RaftLog \<Rightarrow> nat" where
  "rl_snapshotIndex S rl =
     (case lu_snapshot (rl_unstable rl) of Some s \<Rightarrow> snap_index s | None \<Rightarrow> snap_index (sto_snapshot S))"

definition rl_snapshotTerm :: "Storage \<Rightarrow> RaftLog \<Rightarrow> nat" where
  "rl_snapshotTerm S rl =
     (case lu_snapshot (rl_unstable rl) of Some s \<Rightarrow> snap_term s | None \<Rightarrow> snap_term (sto_snapshot S))"

definition rl_unstableEntries :: "RaftLog \<Rightarrow> Entry list" where
  "rl_unstableEntries rl = lu_entries (rl_unstable rl)"

definition rl_stableTo :: "RaftLog \<Rightarrow> nat \<Rightarrow> nat \<Rightarrow> RaftLog" where
  "rl_stableTo rl i t = rl\<lparr>rl_unstable := lu_stableTo (rl_unstable rl) i t\<rparr>"

definition rl_stableSnapTo :: "RaftLog \<Rightarrow> nat \<Rightarrow> RaftLog" where
  "rl_stableSnapTo rl i = rl\<lparr>rl_unstable := lu_stableSnapTo (rl_unstable rl) i\<rparr>"

section \<open>The storage contract\<close>

text \<open>
  What \<^verbatim>\<open>Storage.h\<close> documents of an implementation, for an implementation with state \<open>'s\<close>:
  \<open>sat w i\<close> is the persisted entry at index \<open>i\<close>. The range of \<open>entries\<close> is cut by the size limit
  only, never to nothing, and not at all when there is no limit.
\<close>

locale raft_storage =
  fixes view :: "'s \<Rightarrow> Storage"
    and sat :: "'s \<Rightarrow> nat \<Rightarrow> Entry option"
    and sok :: "'s \<Rightarrow> bool"
  assumes first_pos: "sok w \<Longrightarrow> 1 \<le> sto_firstIndex (view w)"
    and first_last: "sok w \<Longrightarrow> sto_firstIndex (view w) \<le> sto_lastIndex (view w) + 1"
    and last_bound: "sok w \<Longrightarrow> sto_lastIndex (view w) < 2 ^ 64 - 1"
    and sat_range: "sok w \<Longrightarrow> sat w i \<noteq> None \<longleftrightarrow> sto_firstIndex (view w) \<le> i \<and> i \<le> sto_lastIndex (view w)"
    and sat_index: "sok w \<Longrightarrow> sat w i = Some e \<Longrightarrow> ent_index e = i"
    and term_law: "sok w \<Longrightarrow> sto_term (view w) i = map_option ent_term (sat w i)"
    and entries_law: "sok w \<Longrightarrow> sto_firstIndex (view w) \<le> lo \<Longrightarrow> lo \<le> hi \<Longrightarrow> hi \<le> sto_lastIndex (view w) + 1 \<Longrightarrow>
          \<exists>es. sto_entries (view w) lo hi maxSize = Some es \<and> length es \<le> hi - lo \<and>
            (\<forall>k<length es. sat w (lo + k) = Some (es ! k)) \<and>
            (lo < hi \<longrightarrow> es \<noteq> []) \<and> (maxSize = noLimit \<longrightarrow> length es = hi - lo)"

text \<open>The logical log over a persisted log \<open>p\<close>.\<close>

definition rl_at :: "(nat \<Rightarrow> Entry option) \<Rightarrow> RaftLog \<Rightarrow> nat \<Rightarrow> Entry option" where
  "rl_at p rl i =
     (let u = rl_unstable rl
      in if lu_entries u = [] then (if lu_snapshot u = None then p i else None)
         else if i < lu_offset u then (if lu_snapshot u = None then p i else None)
         else lu_at u i)"

text \<open>Well-formed log without a pending snapshot: the window joins the persisted log without a gap.\<close>

definition rl_ok :: "Storage \<Rightarrow> RaftLog \<Rightarrow> bool" where
  "rl_ok S rl \<longleftrightarrow>
     (let u = rl_unstable rl
      in lu_ok u \<and> lu_snapshot u = None \<and>
         (lu_entries u \<noteq> [] \<longrightarrow> sto_firstIndex S \<le> lu_offset u \<and> lu_offset u \<le> sto_lastIndex S + 1) \<and>
         sto_firstIndex S - 1 \<le> rl_applied rl \<and> rl_applied rl \<le> rl_committed rl \<and>
         rl_committed rl \<le> rl_lastIndex S rl)"

definition rl_synced :: "Storage \<Rightarrow> RaftLog \<Rightarrow> bool" where
  "rl_synced S rl \<longleftrightarrow> (lu_entries (rl_unstable rl) = [] \<longrightarrow> lu_offset (rl_unstable rl) = sto_lastIndex S + 1)"

definition rl_covers :: "Storage \<Rightarrow> RaftLog \<Rightarrow> bool" where
  "rl_covers S rl \<longleftrightarrow> sto_lastIndex S \<le> rl_lastIndex S rl"

lemma rl_okD:
  assumes "rl_ok S rl"
  shows "lu_ok (rl_unstable rl)" "lu_snapshot (rl_unstable rl) = None" "rl_firstIndex S rl = sto_firstIndex S"
    "lu_entries (rl_unstable rl) \<noteq> [] \<Longrightarrow>
       sto_firstIndex S \<le> lu_offset (rl_unstable rl) \<and> lu_offset (rl_unstable rl) \<le> sto_lastIndex S + 1"
    "rl_applied rl \<le> rl_committed rl" "rl_committed rl \<le> rl_lastIndex S rl"
    "sto_firstIndex S - 1 \<le> rl_applied rl"
  using assms by (simp_all add: rl_ok_def Let_def rl_firstIndex_def lu_maybeFirstIndex_def)

lemma rl_lastIndex_eq:
  assumes "rl_ok S rl"
  shows "rl_lastIndex S rl =
    (if lu_entries (rl_unstable rl) = [] then sto_lastIndex S
     else lu_offset (rl_unstable rl) + length (lu_entries (rl_unstable rl)) - 1)"
  using rl_okD(1,2) [OF assms] lu_ok_lastIndex [OF rl_okD(1) [OF assms]]
  by (auto simp: rl_lastIndex_def lu_maybeLastIndex_def)

context raft_storage
begin

lemma last_lt:
  assumes "sok w" "rl_ok (view w) rl" shows "rl_lastIndex (view w) rl < 2 ^ 64 - 1"
  using last_bound [OF assms(1)] rl_okD(1) [OF assms(2)] unfolding rl_lastIndex_eq [OF assms(2)]
  by (auto simp: lu_ok_def)

lemma at_range:
  assumes "sok w" "rl_ok (view w) rl"
  shows "rl_at (sat w) rl i \<noteq> None \<longleftrightarrow> sto_firstIndex (view w) \<le> i \<and> i \<le> rl_lastIndex (view w) rl"
proof (cases "lu_entries (rl_unstable rl) = []")
  case True
  then show ?thesis
    using sat_range [OF assms(1), of i] rl_okD(2) [OF assms(2)] unfolding rl_lastIndex_eq [OF assms(2)]
    by (simp add: rl_at_def Let_def)
next
  case False
  then obtain e es where "lu_entries (rl_unstable rl) = e # es" by (cases "lu_entries (rl_unstable rl)") auto
  then show ?thesis
    using sat_range [OF assms(1), of i] rl_okD(2,4) [OF assms(2)] unfolding rl_lastIndex_eq [OF assms(2)]
    by (auto simp: rl_at_def Let_def lu_at_def)
qed

text \<open>Inside the log the term query is the term of the entry.\<close>

lemma term_at:
  assumes ok: "sok w" "rl_ok (view w) rl" and i: "i \<le> rl_lastIndex (view w) rl"
  shows "rl_term (view w) rl i = Some (case rl_at (sat w) rl i of Some e \<Rightarrow> ent_term e | None \<Rightarrow> 0)"
proof -
  have first: "u64_sub (rl_firstIndex (view w) rl) 1 = sto_firstIndex (view w) - 1"
    using first_pos [OF ok(1)] rl_okD(3) [OF ok(2)] by (simp add: u64_simps)
  show ?thesis
  proof (cases "i = sto_firstIndex (view w) - 1")
    case True
    with at_range [OF ok, of i] first_pos [OF ok(1)] have "rl_at (sat w) rl i = None" by auto
    with True first show ?thesis by (simp add: rl_term_def)
  next
    case False
    have "lu_at (rl_unstable rl) i = None \<Longrightarrow> rl_at (sat w) rl i = sat w i"
      using i rl_okD(2) [OF ok(2)] unfolding rl_lastIndex_eq [OF ok(2)]
      by (cases "lu_entries (rl_unstable rl)") (auto simp: rl_at_def Let_def lu_at_def split: if_splits)
    moreover have "lu_at (rl_unstable rl) i = Some e \<Longrightarrow> rl_at (sat w) rl i = Some e" for e
      by (auto simp: rl_at_def Let_def lu_at_def split: if_splits)
    ultimately show ?thesis
      using False first lu_maybeTerm_at [OF rl_okD(1) [OF ok(2)], of i] rl_okD(2) [OF ok(2)]
      by (auto simp: rl_term_def term_law [OF ok(1)] split: option.splits)
  qed
qed

text \<open>Reading a range. The window must be in step with the storage: an empty window has to start
  right after the last persisted entry.\<close>

lemma slice_full:
  assumes ok: "sok w" "rl_ok (view w) rl" and sync: "rl_synced (view w) rl"
    and range: "sto_firstIndex (view w) \<le> lo" "lo \<le> hi" "hi \<le> rl_lastIndex (view w) rl + 1"
  shows "\<exists>es. rl_slice (view w) rl lo hi noLimit = Some es \<and> length es = hi - lo \<and>
    (\<forall>k<hi - lo. rl_at (sat w) rl (lo + k) = Some (es ! k))"
proof (cases "lo < hi")
  case False
  with range show ?thesis by (simp add: rl_slice_def)
next
  case True
  let ?u = "rl_unstable rl" and ?off = "lu_offset (rl_unstable rl)"
  have guards: "\<not> lo < rl_firstIndex (view w) rl" "\<not> hi > u64_add (rl_lastIndex (view w) rl) 1"
    using range rl_okD(3) [OF ok(2)] last_lt [OF ok] by (simp_all add: u64_simps)
  have low: "?off \<le> sto_lastIndex (view w) + 1" "rl_at (sat w) rl i = sat w i" if "i < ?off" for i
    using rl_okD(2,4) [OF ok(2)] sync that by (auto simp: rl_synced_def rl_at_def Let_def)
  have high: "hi > ?off \<Longrightarrow> lu_entries ?u \<noteq> [] \<and> hi \<le> ?off + length (lu_entries ?u)"
    using range(3) sync unfolding rl_lastIndex_eq [OF ok(2)] by (auto simp: rl_synced_def split: if_splits)
  have upper: "rl_at (sat w) rl i = lu_at ?u i" if "lu_entries ?u \<noteq> []" "?off \<le> i" for i
    using that by (simp add: rl_at_def Let_def)
  obtain st where st: "(if lo < ?off then sto_entries (view w) lo (min hi ?off) noLimit else Some []) = Some st"
    "length st = min hi ?off - lo" "\<forall>k<length st. sat w (lo + k) = Some (st ! k)"
  proof (cases "lo < ?off")
    case True
    then have "min hi ?off \<le> sto_lastIndex (view w) + 1" "lo \<le> min hi ?off"
      using low(1) [OF True] \<open>lo < hi\<close> by auto
    from entries_law [OF ok(1) range(1) this(2,1), of noLimit] True that show ?thesis by auto
  qed (use that in auto)
  show ?thesis
  proof (cases "hi > ?off")
    case True
    let ?m = "max lo ?off"
    from high [OF True] lu_slice_at [OF rl_okD(1) [OF ok(2)], of ?m hi] \<open>lo < hi\<close> True
    have sl: "length (lu_slice ?u ?m hi) = hi - ?m" "\<forall>k<hi - ?m. lu_at ?u (?m + k) = Some (lu_slice ?u ?m hi ! k)"
      by auto
    have "rl_at (sat w) rl (lo + k) = Some ((st @ lu_slice ?u ?m hi) ! k)" if "k < hi - lo" for k
    proof (cases "k < length st")
      case True
      with st low(2) [of "lo + k"] show ?thesis by (simp add: nth_append less_diff_conv min_def split: if_splits)
    next
      case False
      with st(2) True have "?m + (k - length st) = lo + k" "k - length st < hi - ?m" using that by auto
      with sl(2) upper [of "lo + k"] high [OF \<open>hi > ?off\<close>] False show ?thesis
        by (metis max.cobounded2 nth_append trans_le_add1)
    qed
    moreover have "rl_slice (view w) rl lo hi noLimit = Some (st @ lu_slice ?u ?m hi)"
      using True \<open>lo < hi\<close> guards st(1,2) by (auto simp: rl_slice_def Let_def limit_size_def)
    ultimately show ?thesis using st(2) sl(1) True by auto
  next
    case False
    then have "rl_slice (view w) rl lo hi noLimit = Some st"
      using \<open>lo < hi\<close> guards st(1,2) by (auto simp: rl_slice_def Let_def limit_size_def)
    moreover have "rl_at (sat w) rl (lo + k) = Some (st ! k)" if "k < hi - lo" for k
      using that False st low(2) [of "lo + k"] by simp
    ultimately show ?thesis using st(2) False by auto
  qed
qed

lemma next_committed:
  assumes ok: "sok w" "rl_ok (view w) rl" and sync: "rl_synced (view w) rl"
  shows "length (rl_nextCommittedEntries (view w) rl True) = rl_committed rl - rl_applied rl \<and>
    (\<forall>k<rl_committed rl - rl_applied rl.
       rl_at (sat w) rl (rl_applied rl + 1 + k) = Some (rl_nextCommittedEntries (view w) rl True ! k))"
proof (cases "rl_committed rl \<le> rl_applied rl")
  case True
  then show ?thesis by (simp add: rl_nextCommittedEntries_def)
next
  case False
  have "sto_firstIndex (view w) \<le> rl_applied rl + 1" "rl_applied rl + 1 \<le> rl_committed rl + 1"
    "rl_committed rl + 1 \<le> rl_lastIndex (view w) rl + 1"
    using rl_okD(5-7) [OF ok(2)] by simp_all
  from slice_full [OF ok sync this] obtain es where
    es: "rl_slice (view w) rl (rl_applied rl + 1) (rl_committed rl + 1) noLimit = Some es"
    "length es = rl_committed rl - rl_applied rl"
    "\<forall>k<rl_committed rl - rl_applied rl. rl_at (sat w) rl (rl_applied rl + 1 + k) = Some (es ! k)"
    by auto
  have "u64_add (rl_applied rl) 1 = rl_applied rl + 1" "u64_add (rl_committed rl) 1 = rl_committed rl + 1"
    using last_lt [OF ok] rl_okD(5,6) [OF ok(2)] by (simp_all add: u64_simps)
  with es False show ?thesis by (simp add: rl_nextCommittedEntries_def)
qed

lemma window_append:
  assumes ok: "sok w" "rl_ok (view w) rl"
    and es: "es \<noteq> []" "contiguous c es" "c + length es < 2 ^ 64 - 1"
    and c: "sto_firstIndex (view w) \<le> c" "rl_committed rl < c" "c \<le> rl_lastIndex (view w) rl + 1"
  defines "rl' \<equiv> rl\<lparr>rl_unstable := lu_append (rl_unstable rl) es\<rparr>"
  shows "rl_ok (view w) rl'" "rl_synced (view w) rl'" "rl_lastIndex (view w) rl' = c + length es - 1"
    "rl_at (sat w) rl' i =
       (if i < c then rl_at (sat w) rl i else if i < c + length es then Some (es ! (i - c)) else None)"
proof -
  let ?u = "rl_unstable rl"
  obtain e0 es0 where es0: "es = e0 # es0" using es(1) by (cases es) auto
  have hd: "ent_index (hd es) = c" using es(2) es0 by (simp add: contiguous_Cons)
  note app = lu_append_cases [OF rl_okD(1) [OF ok(2)] es(1), unfolded hd]
  note u = rl_okD(1,2,4) [OF ok(2)]
  have lu: "lu_ok (lu_append ?u es)" using u es by (intro lu_ok_append) (simp_all add: hd)
  have last: "c \<le> (if lu_entries ?u = [] then sto_lastIndex (view w) + 1 else lu_offset ?u + length (lu_entries ?u))"
    using c(3) unfolding rl_lastIndex_eq [OF ok(2)] by (cases "lu_entries ?u") auto
  have ne: "lu_entries (lu_append ?u es) \<noteq> []" using es(1) by (auto simp: app)
  have snap: "lu_snapshot (lu_append ?u es) = None" using u(2) by (auto simp: app)
  have size: "lu_offset (lu_append ?u es) + length (lu_entries (lu_append ?u es)) = c + length es"
    "sto_firstIndex (view w) \<le> lu_offset (lu_append ?u es)" "lu_offset (lu_append ?u es) \<le> sto_lastIndex (view w) + 1"
    using u(3) last c(1) by (auto simp: app split: if_splits)
  have "lu_maybeLastIndex (lu_append ?u es) = Some (c + length es - 1)"
    using lu_ok_lastIndex [OF lu ne] size(1) by simp
  then show li: "rl_lastIndex (view w) rl' = c + length es - 1" by (simp add: rl'_def rl_lastIndex_def)
  show "rl_ok (view w) rl'"
    using lu snap size li rl_okD(5-7) [OF ok(2)] c(2) es0 by (simp add: rl_ok_def Let_def rl'_def)
  show "rl_synced (view w) rl'" using ne by (simp add: rl_synced_def rl'_def)
  have below: "rl_at (sat w) rl' i = rl_at (sat w) rl i" if "i < c"
    using that u ne last by (auto simp: rl_at_def Let_def rl'_def app lu_at_def nth_append)
  have above: "rl_at (sat w) rl' i = (if i < c + length es then Some (es ! (i - c)) else None)" if "\<not> i < c"
    using that u ne last by (auto simp: rl_at_def Let_def rl'_def app lu_at_def nth_append)
  show "rl_at (sat w) rl' i =
       (if i < c then rl_at (sat w) rl i else if i < c + length es then Some (es ! (i - c)) else None)"
    using below above by simp
qed

text \<open>Leader append: the log grows by the new entries and nothing else changes.\<close>

lemma leader_append:
  assumes ok: "sok w" "rl_ok (view w) rl"
    and es: "es \<noteq> []" "contiguous (rl_lastIndex (view w) rl + 1) es"
    and bound: "rl_lastIndex (view w) rl + 1 + length es < 2 ^ 64 - 1"
  shows "\<exists>rl'. rl_append (view w) rl es = (rl_lastIndex (view w) rl + length es, rl') \<and>
    rl_ok (view w) rl' \<and> rl_synced (view w) rl' \<and> rl_committed rl' = rl_committed rl \<and>
    (\<forall>i. rl_at (sat w) rl' i =
       (if i \<le> rl_lastIndex (view w) rl then rl_at (sat w) rl i
        else if i \<le> rl_lastIndex (view w) rl + length es then Some (es ! (i - rl_lastIndex (view w) rl - 1)) else None))"
proof -
  let ?c = "rl_lastIndex (view w) rl + 1"
  obtain e0 es0 where es0: "es = e0 # es0" using es(1) by (cases es) auto
  have "ent_index (hd es) = ?c" using es(2) es0 by (simp add: contiguous_Cons)
  then have after: "\<not> u64_sub (ent_index (hd es)) 1 < rl_committed rl"
    using rl_okD(6) [OF ok(2)] by (simp add: u64_simps)
  have c: "sto_firstIndex (view w) \<le> ?c" "rl_committed rl < ?c" "?c \<le> rl_lastIndex (view w) rl + 1"
    using rl_okD(5-7) [OF ok(2)] by simp_all
  note win = window_append [OF ok es(1,2) bound c]
  let ?rl' = "rl\<lparr>rl_unstable := lu_append (rl_unstable rl) es\<rparr>"
  have "rl_append (view w) rl es = (rl_lastIndex (view w) rl + length es, ?rl')"
    using after es(1) win(3) by (simp add: rl_append_def Let_def)
  moreover have "\<forall>i. rl_at (sat w) ?rl' i =
       (if i \<le> rl_lastIndex (view w) rl then rl_at (sat w) rl i
        else if i \<le> rl_lastIndex (view w) rl + length es then Some (es ! (i - rl_lastIndex (view w) rl - 1)) else None)"
    by (auto simp: win(4))
  ultimately show ?thesis using win(1,2) by auto
qed

subsection \<open>Follower append\<close>

text \<open>\<open>rl_covers\<close>: no persisted entry lies beyond the end of the logical log. It fails between the
  moment an append cuts a persisted suffix off and the moment that is written to the storage.\<close>

lemma term_beyond:
  assumes ok: "sok w" "rl_ok (view w) rl" and cover: "rl_covers (view w) rl"
    and i: "rl_lastIndex (view w) rl < i"
  shows "rl_term (view w) rl i = Some 0"
proof -
  have "sat w i = None" using sat_range [OF ok(1), of i] cover i by (auto simp: rl_covers_def)
  moreover have "lu_at (rl_unstable rl) i = None"
    using i unfolding rl_lastIndex_eq [OF ok(2)] by (auto simp: lu_at_def split: if_splits)
  ultimately show ?thesis
    using lu_maybeTerm_at [OF rl_okD(1) [OF ok(2)], of i] rl_okD(2) [OF ok(2)]
    by (simp add: rl_term_def term_law [OF ok(1)])
qed

lemma term_match_iff:
  assumes ok: "sok w" "rl_ok (view w) rl" and cover: "rl_covers (view w) rl" and t: "t > 0"
  shows "rl_term (view w) rl i = Some t \<longleftrightarrow> map_option ent_term (rl_at (sat w) rl i) = Some t"
proof (cases "i \<le> rl_lastIndex (view w) rl")
  case True
  from term_at [OF ok True] t show ?thesis by (auto split: option.splits)
next
  case False
  with at_range [OF ok, of i] have "rl_at (sat w) rl i = None" by auto
  with term_beyond [OF ok cover] False t show ?thesis by simp
qed

lemma term_defined: "rl_ok (view w) rl \<Longrightarrow> \<exists>t. rl_term (view w) rl i = Some t"
  using lu_maybeTerm_at [OF rl_okD(1), of "view w" rl i] by (auto simp: rl_term_def)

lemma find_conflict:
  assumes ok: "sok w" "rl_ok (view w) rl" and cover: "rl_covers (view w) rl"
  shows "contiguous f es \<Longrightarrow> \<forall>e\<in>set es. ent_term e > 0 \<Longrightarrow>
    \<exists>c. rl_findConflict (view w) rl es = Some c \<and>
      (c = 0 \<and> (\<forall>k<length es. map_option ent_term (rl_at (sat w) rl (f + k)) = Some (ent_term (es ! k))) \<or>
       (\<exists>k<length es. c = f + k \<and>
          (\<forall>j<k. map_option ent_term (rl_at (sat w) rl (f + j)) = Some (ent_term (es ! j))) \<and>
          map_option ent_term (rl_at (sat w) rl (f + k)) \<noteq> Some (ent_term (es ! k))))"
proof (induction es arbitrary: f)
  case (Cons e es)
  from Cons.prems have e: "ent_index e = f" "ent_term e > 0" and es: "contiguous (Suc f) es"
    by (auto simp: contiguous_Cons)
  obtain t where t: "rl_term (view w) rl f = Some t" using term_defined [OF ok(2)] by blast
  show ?case
  proof (cases "t = ent_term e")
    case True
    then have m: "map_option ent_term (rl_at (sat w) rl f) = Some (ent_term e)"
      using term_match_iff [OF ok cover e(2), of f] t by simp
    from Cons.IH [OF es] Cons.prems(2) obtain c where c: "rl_findConflict (view w) rl es = Some c"
      "c = 0 \<and> (\<forall>k<length es. map_option ent_term (rl_at (sat w) rl (Suc f + k)) = Some (ent_term (es ! k))) \<or>
       (\<exists>k<length es. c = Suc f + k \<and>
          (\<forall>j<k. map_option ent_term (rl_at (sat w) rl (Suc f + j)) = Some (ent_term (es ! j))) \<and>
          map_option ent_term (rl_at (sat w) rl (Suc f + k)) \<noteq> Some (ent_term (es ! k)))" by auto
    from c(2) show ?thesis
    proof
      assume "c = 0 \<and> (\<forall>k<length es. map_option ent_term (rl_at (sat w) rl (Suc f + k)) = Some (ent_term (es ! k)))"
      with c(1) t True e m show ?thesis by (auto simp: nth_Cons split: nat.splits)
    next
      assume "\<exists>k<length es. c = Suc f + k \<and>
          (\<forall>j<k. map_option ent_term (rl_at (sat w) rl (Suc f + j)) = Some (ent_term (es ! j))) \<and>
          map_option ent_term (rl_at (sat w) rl (Suc f + k)) \<noteq> Some (ent_term (es ! k))"
      then obtain k where k: "k < length es" "c = Suc f + k"
        "\<forall>j<k. map_option ent_term (rl_at (sat w) rl (Suc f + j)) = Some (ent_term (es ! j))"
        "map_option ent_term (rl_at (sat w) rl (Suc f + k)) \<noteq> Some (ent_term (es ! k))" by blast
      have "\<forall>j<Suc k. map_option ent_term (rl_at (sat w) rl (f + j)) = Some (ent_term ((e # es) ! j))"
        using k(3) m by (auto simp: less_Suc_eq_0_disj)
      with k have "\<exists>k<length (e # es). c = f + k \<and>
          (\<forall>j<k. map_option ent_term (rl_at (sat w) rl (f + j)) = Some (ent_term ((e # es) ! j))) \<and>
          map_option ent_term (rl_at (sat w) rl (f + k)) \<noteq> Some (ent_term ((e # es) ! k))"
        by (intro exI [of _ "Suc k"]) simp
      with c(1) t True e show ?thesis by simp
    qed
  next
    case False
    then have "map_option ent_term (rl_at (sat w) rl f) \<noteq> Some (ent_term e)"
      using term_match_iff [OF ok cover e(2), of f] t by simp
    with t e False show ?thesis by (auto intro: exI [of _ 0])
  qed
qed simp

lemma at_truncate:
  assumes ok: "sok w" "rl_ok (view w) rl" and i: "i < j"
  shows "rl_at (sat w) (rl\<lparr>rl_unstable := lu_truncateFrom (rl_unstable rl) j\<rparr>) i = rl_at (sat w) rl i"
  using i rl_okD(2) [OF ok(2)] by (auto simp: rl_at_def Let_def lu_truncateFrom_def lu_at_def)

text \<open>An accepted append that does not contradict committed entries makes the log agree with the
  leader's entries and keeps everything up to the previous index.\<close>

lemma maybe_append_match:
  assumes ok: "sok w" "rl_ok (view w) rl" and cover: "rl_covers (view w) rl"
    and prev: "prev \<le> rl_lastIndex (view w) rl"
    and es: "contiguous (prev + 1) es" "\<forall>e\<in>set es. ent_term e > 0" "prev + 1 + length es < 2 ^ 64 - 1"
    and safe: "\<forall>k<length es. prev + 1 + k \<le> rl_committed rl \<longrightarrow>
      map_option ent_term (rl_at (sat w) rl (prev + 1 + k)) = Some (ent_term (es ! k))"
    and run: "rl_maybeAppend (view w) rl prev t lc es = Some (True, rl')"
  shows "(\<forall>i\<le>prev. rl_at (sat w) rl' i = rl_at (sat w) rl i) \<and>
    (\<forall>k<length es. map_option ent_term (rl_at (sat w) rl' (prev + 1 + k)) = Some (ent_term (es ! k)))"
proof -
  let ?lni = "prev + length es"
  have lni: "u64_add prev (length es) = ?lni" using es(3) by (simp add: u64_simps)
  have at_commit: "rl_at p (rl0\<lparr>rl_committed := c0\<rparr>) = rl_at p rl0" for p rl0 c0
    by (auto simp: rl_at_def Let_def fun_eq_iff)
  obtain c where c: "rl_findConflict (view w) rl es = Some c"
    "c = 0 \<and> (\<forall>k<length es. map_option ent_term (rl_at (sat w) rl (prev + 1 + k)) = Some (ent_term (es ! k))) \<or>
       (\<exists>k<length es. c = prev + 1 + k \<and>
          (\<forall>j<k. map_option ent_term (rl_at (sat w) rl (prev + 1 + j)) = Some (ent_term (es ! j))) \<and>
          map_option ent_term (rl_at (sat w) rl (prev + 1 + k)) \<noteq> Some (ent_term (es ! k)))"
    using find_conflict [OF ok cover es(1,2)] by blast
  from c(2) show ?thesis
  proof
    assume z: "c = 0 \<and> (\<forall>k<length es. map_option ent_term (rl_at (sat w) rl (prev + 1 + k)) = Some (ent_term (es ! k)))"
    let ?rl1 = "if ?lni < rl_lastIndex (view w) rl
      then rl\<lparr>rl_unstable := lu_truncateFrom (rl_unstable rl) (u64_add ?lni 1)\<rparr> else rl"
    have "rl_at (sat w) rl' = rl_at (sat w) ?rl1"
      using run c(1) z lni by (auto simp: rl_maybeAppend_def bind_eq_Some_conv at_commit Let_def split: if_splits)
    moreover have "rl_at (sat w) ?rl1 i = rl_at (sat w) rl i" if "i \<le> ?lni" for i
      using at_truncate [OF ok, of i "u64_add ?lni 1"] that es(3) by (simp add: u64_simps)
    ultimately show ?thesis using z by auto
  next
    assume "\<exists>k<length es. c = prev + 1 + k \<and>
          (\<forall>j<k. map_option ent_term (rl_at (sat w) rl (prev + 1 + j)) = Some (ent_term (es ! j))) \<and>
          map_option ent_term (rl_at (sat w) rl (prev + 1 + k)) \<noteq> Some (ent_term (es ! k))"
    then obtain k where k: "k < length es" "c = prev + 1 + k"
      "\<forall>j<k. map_option ent_term (rl_at (sat w) rl (prev + 1 + j)) = Some (ent_term (es ! j))"
      "map_option ent_term (rl_at (sat w) rl (prev + 1 + k)) \<noteq> Some (ent_term (es ! k))" by blast
    let ?rl1 = "rl\<lparr>rl_unstable := lu_append (rl_unstable rl) (drop k es)\<rparr>"
    have above: "rl_committed rl < c" using safe k by (metis not_le_imp_less)
    have pos: "u64_sub (u64_sub c prev) 1 = k" using k(2) by (simp add: u64_simps)
    have "rl_at (sat w) rl' = rl_at (sat w) ?rl1"
      using run c(1) lni above pos k(1,2)
      by (auto simp: rl_maybeAppend_def bind_eq_Some_conv at_commit Let_def split: if_splits)
    moreover have "c \<le> rl_lastIndex (view w) rl + 1"
    proof (cases k)
      case 0 then show ?thesis using k(2) prev by simp
    next
      case (Suc j)
      then have "rl_at (sat w) rl (prev + 1 + j) \<noteq> None" using k(3) by fastforce
      then show ?thesis using at_range [OF ok] Suc k(2) by auto
    qed
    moreover have "sto_firstIndex (view w) \<le> c" using rl_okD(5,7) [OF ok(2)] above by simp
    moreover have "contiguous c (drop k es)" "drop k es \<noteq> []" "c + length (drop k es) < 2 ^ 64 - 1"
      using contiguous_drop [OF es(1), of k] k(1,2) es(3) by (simp_all add: ac_simps)
    ultimately have at: "rl_at (sat w) rl' i = (if i < c then rl_at (sat w) rl i
        else if i < c + length (drop k es) then Some (drop k es ! (i - c)) else None)" for i
      using window_append(4) [OF ok, of "drop k es" c i] above by simp
    have "map_option ent_term (rl_at (sat w) rl' (prev + 1 + j)) = Some (ent_term (es ! j))" if "j < length es" for j
      using that k by (cases "j < k") (simp_all add: at)
    moreover have "\<forall>i\<le>prev. rl_at (sat w) rl' i = rl_at (sat w) rl i" using k(2) by (simp add: at)
    ultimately show ?thesis by blast
  qed
qed

end

end
