(* ===== verification/Progress_Tracker.thy ===== *)
theory Progress_Tracker
  imports Raft_Types
begin

text \<open>
  The leader's view of a peer, \<^verbatim>\<open>raft/src/tracker/Progress.cpp\<close>: the ring buffer of in-flight
  appends (\<^verbatim>\<open>Inflights\<close>) and the replication state machine (\<^verbatim>\<open>Progress\<close>).

  The ring buffer implements a bounded first-in first-out queue; that contract is the locale
  \<open>bounded_queue\<close>, interpreted on the ring buffer.
\<close>

section \<open>Inflights\<close>

record Inflights =
  inf_buffer :: "nat list"
  inf_head :: nat
  inf_count :: nat

definition inf_new :: "nat \<Rightarrow> Inflights" where
  "inf_new capacity = \<lparr>inf_buffer = replicate capacity 0, inf_head = 0, inf_count = 0\<rparr>"

definition inf_full :: "Inflights \<Rightarrow> bool" where
  "inf_full f \<longleftrightarrow> inf_count f = length (inf_buffer f)"

text \<open>\<open>None\<close>: \<open>std::abort\<close>.\<close>

definition inf_add :: "Inflights \<Rightarrow> nat \<Rightarrow> Inflights option" where
  "inf_add f index =
     (if inf_full f then None
      else let n = inf_head f + inf_count f;
               n = (if n \<ge> length (inf_buffer f) then n - length (inf_buffer f) else n)
           in Some (f\<lparr>inf_buffer := (inf_buffer f)[n := index], inf_count := inf_count f + 1\<rparr>))"

text \<open>The loop of \<open>freeTo\<close>: how many slots from \<open>idx\<close> on are acknowledged, and the slot after them.\<close>

fun free_loop :: "nat list \<Rightarrow> nat \<Rightarrow> nat \<Rightarrow> nat \<Rightarrow> nat \<times> nat" where
  "free_loop buf to 0 idx = (0, idx)"
| "free_loop buf to (Suc n) idx =
     (if to < buf ! idx then (0, idx)
      else let idx' = idx + 1;
               idx' = (if idx' \<ge> length buf then idx' - length buf else idx');
               (k, j) = free_loop buf to n idx'
           in (k + 1, j))"

definition inf_freeTo :: "Inflights \<Rightarrow> nat \<Rightarrow> Inflights" where
  "inf_freeTo f to =
     (if inf_count f = 0 then f
      else let (i, idx) = free_loop (inf_buffer f) to (inf_count f) (inf_head f);
               c = inf_count f - i
           in f\<lparr>inf_count := c, inf_head := (if c = 0 then 0 else idx)\<rparr>)"

definition inf_reset :: "Inflights \<Rightarrow> Inflights" where
  "inf_reset f = f\<lparr>inf_count := 0, inf_head := 0\<rparr>"

section \<open>Progress\<close>

datatype ProgressState = Probe | Replicate | SendingSnapshot

record Progress =
  pr_matchIndex :: nat
  pr_nextIndex :: nat
  pr_state :: ProgressState
  pr_paused :: bool
  pr_pendingSnapshotIndex :: nat
  pr_isLearner :: bool
  pr_inflights :: Inflights

definition pr_new :: "nat \<Rightarrow> bool \<Rightarrow> Progress" where
  "pr_new inflightCapacity learner =
     \<lparr>pr_matchIndex = 0, pr_nextIndex = 0, pr_state = Probe, pr_paused = False,
      pr_pendingSnapshotIndex = 0, pr_isLearner = learner, pr_inflights = inf_new inflightCapacity\<rparr>"

definition pr_isCaughtUp :: "Progress \<Rightarrow> bool" where
  "pr_isCaughtUp p \<longleftrightarrow> u64_add (pr_matchIndex p) 1 = pr_nextIndex p"

definition pr_reset :: "Progress \<Rightarrow> nat \<Rightarrow> Progress" where
  "pr_reset p lastIndex =
     p\<lparr>pr_matchIndex := 0, pr_nextIndex := u64_add lastIndex 1, pr_state := Probe, pr_paused := False,
       pr_pendingSnapshotIndex := 0, pr_inflights := inf_reset (pr_inflights p)\<rparr>"

definition pr_update :: "Progress \<Rightarrow> nat \<Rightarrow> Progress" where
  "pr_update p lastIndex =
     (let p = p\<lparr>pr_matchIndex := max (pr_matchIndex p) lastIndex\<rparr>
      in if pr_state p = Replicate
         then p\<lparr>pr_nextIndex := u64_add lastIndex 1, pr_inflights := inf_freeTo (pr_inflights p) lastIndex\<rparr>
         else p)"

definition pr_maybeDecrFromRejectHint :: "Progress \<Rightarrow> nat \<Rightarrow> nat \<Rightarrow> bool \<times> Progress" where
  "pr_maybeDecrFromRejectHint p rejected hint =
     (if pr_state p = Replicate
      then if rejected \<le> pr_matchIndex p then (False, p)
           else (True, p\<lparr>pr_nextIndex := u64_add (pr_matchIndex p) 1\<rparr>)
      else if rejected < u64_sub (pr_nextIndex p) 1 then (False, p)
      else let n = (if hint < rejected then u64_add hint 1 else rejected)
           in (True, p\<lparr>pr_nextIndex := (if n < 1 then 1 else n)\<rparr>))"

definition pr_becomeSnapshot :: "Progress \<Rightarrow> nat \<Rightarrow> Progress" where
  "pr_becomeSnapshot p snapshotIndex =
     p\<lparr>pr_state := SendingSnapshot, pr_pendingSnapshotIndex := snapshotIndex, pr_paused := True\<rparr>"

definition pr_becomeProbe :: "Progress \<Rightarrow> Progress" where
  "pr_becomeProbe p =
     (let p = (if pr_state p = SendingSnapshot then p\<lparr>pr_pendingSnapshotIndex := 0\<rparr> else p)
      in p\<lparr>pr_state := Probe, pr_paused := False\<rparr>)"

definition pr_becomeReplicate :: "Progress \<Rightarrow> Progress" where
  "pr_becomeReplicate p =
     p\<lparr>pr_state := Replicate, pr_paused := False, pr_nextIndex := u64_add (pr_matchIndex p) 1,
       pr_inflights := inf_reset (pr_inflights p)\<rparr>"

section \<open>The ring buffer is a bounded queue\<close>

locale bounded_queue =
  fixes content :: "'q \<Rightarrow> nat list" and capacity :: "'q \<Rightarrow> nat" and qok :: "'q \<Rightarrow> bool"
    and full :: "'q \<Rightarrow> bool" and add :: "'q \<Rightarrow> nat \<Rightarrow> 'q option"
    and freeTo :: "'q \<Rightarrow> nat \<Rightarrow> 'q" and clear :: "'q \<Rightarrow> 'q"
  assumes full_law: "qok q \<Longrightarrow> full q \<longleftrightarrow> length (content q) = capacity q"
    and bound_law: "qok q \<Longrightarrow> length (content q) \<le> capacity q"
    and add_law: "qok q \<Longrightarrow> \<not> full q \<Longrightarrow>
          \<exists>q'. add q i = Some q' \<and> content q' = content q @ [i] \<and> capacity q' = capacity q \<and> qok q'"
    and add_full: "qok q \<Longrightarrow> full q \<Longrightarrow> add q i = None"
    and free_law: "qok q \<Longrightarrow> content (freeTo q i) = dropWhile (\<lambda>x. x \<le> i) (content q) \<and>
          capacity (freeTo q i) = capacity q \<and> qok (freeTo q i)"
    and clear_law: "qok q \<Longrightarrow> content (clear q) = [] \<and> capacity (clear q) = capacity q \<and> qok (clear q)"
begin

text \<open>Acknowledging in sending order: after the acknowledgement of an increasing window only newer
  indices are in flight, and there is room again if anything was acknowledged.\<close>

lemma free_sorted:
  assumes "qok q" "sorted (content q)"
  shows "content (freeTo q i) = filter (\<lambda>x. i < x) (content q)"
proof -
  have "sorted xs \<Longrightarrow> dropWhile (\<lambda>x. x \<le> i) xs = filter (\<lambda>x. i < x) xs" for xs :: "nat list"
  proof (induction xs)
    case (Cons x xs)
    show ?case
    proof (cases "x \<le> i")
      case False
      with Cons.prems have "\<forall>y\<in>set (x # xs). i < y" by auto
      then have "filter (\<lambda>x. i < x) (x # xs) = x # xs" by (rule filter_True)
      with False show ?thesis by simp
    qed (use Cons in simp)
  qed simp
  with free_law [OF assms(1), of i] assms(2) show ?thesis by simp
qed

lemma free_makes_room:
  assumes "qok q" "content q \<noteq> []" "hd (content q) \<le> i"
  shows "\<not> full (freeTo q i)"
proof -
  have "length (dropWhile (\<lambda>x. x \<le> i) (content q)) < length (content q)"
    using assms(2,3) by (cases "content q") (simp_all add: le_imp_less_Suc length_dropWhile_le)
  then show ?thesis
    using free_law [OF assms(1), of i] full_law [of "freeTo q i"] bound_law [OF assms(1)] by simp
qed

end

definition inf_slot :: "Inflights \<Rightarrow> nat \<Rightarrow> nat" where
  "inf_slot f k = (inf_head f + k) mod length (inf_buffer f)"

definition inf_content :: "Inflights \<Rightarrow> nat list" where
  "inf_content f = map (\<lambda>k. inf_buffer f ! inf_slot f k) [0..<inf_count f]"

definition inf_ok :: "Inflights \<Rightarrow> bool" where
  "inf_ok f \<longleftrightarrow> inf_count f \<le> length (inf_buffer f) \<and> (inf_head f < length (inf_buffer f) \<or> inf_buffer f = [] \<and> inf_head f = 0)"

lemma inf_ok_new: "inf_ok (inf_new n)"
  by (cases n) (simp_all add: inf_ok_def inf_new_def)

lemma wrap_once: "a < n \<Longrightarrow> k \<le> n \<Longrightarrow> (if a + k \<ge> n then a + k - n else a + k) = (a + k) mod (n :: nat)"
  by (auto simp: not_le mod_if)

lemma slot_inj:
  assumes "h < n" "j < k" "k < n" shows "(h + j) mod n \<noteq> (h + k) mod (n :: nat)"
  using assms by (auto simp: mod_if split: if_splits)

lemma inf_add_ok:
  assumes ok: "inf_ok f" and room: "\<not> inf_full f"
  shows "\<exists>f'. inf_add f i = Some f' \<and> inf_content f' = inf_content f @ [i] \<and>
    length (inf_buffer f') = length (inf_buffer f) \<and> inf_ok f'"
proof -
  let ?n = "length (inf_buffer f)" and ?c = "inf_count f" and ?h = "inf_head f"
  from ok room have c: "?c < ?n" and h: "?h < ?n" by (auto simp: inf_ok_def inf_full_def)
  let ?s = "(?h + ?c) mod ?n"
  have sl: "?s < ?n" using c by (intro mod_less_divisor) linarith
  let ?f' = "f\<lparr>inf_buffer := (inf_buffer f)[?s := i], inf_count := ?c + 1\<rparr>"
  have "inf_add f i = Some ?f'"
    using room wrap_once [OF h, of ?c] c by (simp add: inf_add_def Let_def)
  moreover have "inf_content ?f' = inf_content f @ [i]"
  proof -
    have "inf_buffer ?f' ! inf_slot ?f' k = inf_buffer f ! inf_slot f k" if "k < ?c" for k
      using slot_inj [OF h that c] by (simp add: inf_slot_def)
    moreover have "inf_buffer ?f' ! inf_slot ?f' ?c = i"
      using sl by (simp add: inf_slot_def)
    ultimately show ?thesis by (simp add: inf_content_def)
  qed
  ultimately show ?thesis using c h by (simp add: inf_ok_def)
qed

lemma free_loop_spec:
  assumes "h < length buf" "n \<le> length buf"
  shows "free_loop buf to n h =
    (let k = length (takeWhile (\<lambda>x. x \<le> to) (map (\<lambda>k. buf ! ((h + k) mod length buf)) [0..<n]))
     in (k, (h + k) mod length buf))"
  using assms
proof (induction n arbitrary: h)
  case (Suc n)
  let ?l = "length buf" and ?h' = "(h + 1) mod length buf"
  have wrap: "(if h + 1 \<ge> ?l then h + 1 - ?l else h + 1) = ?h'"
    using wrap_once [OF Suc.prems(1), of 1] Suc.prems by simp
  have h': "?h' < ?l" using Suc.prems(1) by (intro mod_less_divisor) auto
  have shift: "(?h' + k) mod ?l = (h + Suc k) mod ?l" for k by (simp add: mod_simps)
  have "map (\<lambda>k. buf ! ((h + k) mod ?l)) [0..<Suc n] =
      buf ! h # map (\<lambda>k. buf ! ((?h' + k) mod ?l)) [0..<n]"
    using Suc.prems(1) unfolding upt_conv_Cons [OF zero_less_Suc] map_Suc_upt [symmetric]
    by (simp add: mod_add_left_eq)
  moreover have "free_loop buf to (Suc n) h =
      (if to < buf ! h then (0, h) else let (k, j) = free_loop buf to n ?h' in (k + 1, j))"
    by (simp only: free_loop.simps Let_def wrap)
  ultimately show ?case
    using Suc.IH [OF h'] Suc.prems(1,2) shift by (auto simp: Let_def not_less)
qed simp

lemma inf_free_ok:
  assumes ok: "inf_ok f"
  shows "inf_content (inf_freeTo f i) = dropWhile (\<lambda>x. x \<le> i) (inf_content f) \<and>
    length (inf_buffer (inf_freeTo f i)) = length (inf_buffer f) \<and> inf_ok (inf_freeTo f i)"
proof (cases "inf_count f = 0")
  case True
  with ok show ?thesis by (simp add: inf_freeTo_def inf_content_def)
next
  case False
  let ?n = "length (inf_buffer f)" and ?c = "inf_count f" and ?h = "inf_head f"
  from ok False have h: "?h < ?n" and c: "?c \<le> ?n" by (auto simp: inf_ok_def)
  define k where "k = length (takeWhile (\<lambda>x. x \<le> i) (inf_content f))"
  have loop: "free_loop (inf_buffer f) i ?c ?h = (k, (?h + k) mod ?n)"
    using free_loop_spec [OF h c] by (simp add: k_def inf_content_def inf_slot_def Let_def)
  have kc: "k \<le> ?c" using length_takeWhile_le [of "\<lambda>x. x \<le> i" "inf_content f"] by (simp add: k_def inf_content_def)
  have drop: "dropWhile (\<lambda>x. x \<le> i) (inf_content f) = drop k (inf_content f)"
    by (simp add: k_def dropWhile_eq_drop)
  have f': "inf_freeTo f i = f\<lparr>inf_count := ?c - k, inf_head := (if ?c - k = 0 then 0 else (?h + k) mod ?n)\<rparr>"
    using False loop by (simp add: inf_freeTo_def)
  have "inf_content (inf_freeTo f i) = drop k (inf_content f)"
  proof (rule nth_equalityI)
    fix j assume "j < length (inf_content (inf_freeTo f i))"
    then have j: "j < ?c - k" by (simp add: f' inf_content_def)
    then have "inf_slot (inf_freeTo f i) j = inf_slot f (k + j)"
      by (simp add: f' inf_slot_def mod_simps add.assoc)
    moreover have "k + j < ?c" using j by simp
    ultimately show "inf_content (inf_freeTo f i) ! j = drop k (inf_content f) ! j" using j
      by (simp add: inf_content_def f')
  qed (simp add: f' inf_content_def)
  moreover have "(?h + k) mod ?n < ?n" using h by (intro mod_less_divisor) linarith
  moreover from this have "inf_ok (inf_freeTo f i)" using h c by (auto simp: f' inf_ok_def)
  ultimately show ?thesis using drop f' by simp
qed

interpretation inflights: bounded_queue inf_content "\<lambda>f. length (inf_buffer f)" inf_ok inf_full inf_add inf_freeTo inf_reset
proof (unfold_locales, goal_cases)
  case (1 q) show ?case by (simp add: inf_full_def inf_content_def)
next
  case (2 q) then show ?case by (simp add: inf_ok_def inf_content_def)
next
  case (3 q i) then show ?case by (rule inf_add_ok)
next
  case (4 q i) then show ?case by (simp add: inf_add_def)
next
  case (5 q i) then show ?case by (rule inf_free_ok)
next
  case (6 q) then show ?case by (auto simp: inf_reset_def inf_content_def inf_ok_def)
qed

end
