(* ===== verification/Read_Only.thy ===== *)
theory Read_Only
  imports Raft_Types
begin

text \<open>
  Pending linearizable reads on the leader, \<^verbatim>\<open>raft/src/ReadOnly.cpp\<close>. The two maps are keyed by the
  client token and never iterated, so they are association lists.
\<close>

section \<open>State and operations\<close>

datatype ReadOnlyOption = Safe | LeaseBased

record ReadState =
  rs_index :: nat
  rs_requestCtx :: "byte list"

record ReadOnly =
  ro_option :: ReadOnlyOption
  ro_pending :: "(byte list \<times> nat) list"
  ro_acks :: "(byte list \<times> nat list) list"
  ro_recvQueue :: "byte list list"

definition ro_new :: "ReadOnlyOption \<Rightarrow> ReadOnly" where
  "ro_new opt = \<lparr>ro_option = opt, ro_pending = [], ro_acks = [], ro_recvQueue = []\<rparr>"

definition ro_setOption :: "ReadOnly \<Rightarrow> ReadOnlyOption \<Rightarrow> ReadOnly" where
  "ro_setOption r opt = r\<lparr>ro_option := opt\<rparr>"

definition ro_add :: "ReadOnly \<Rightarrow> nat \<Rightarrow> byte list \<Rightarrow> ReadOnly" where
  "ro_add r index ctx =
     (if map_of (ro_pending r) ctx \<noteq> None then r
      else r\<lparr>ro_pending := AList.update ctx index (ro_pending r), ro_recvQueue := ro_recvQueue r @ [ctx]\<rparr>)"

definition acks_of :: "ReadOnly \<Rightarrow> byte list \<Rightarrow> nat list" where
  "acks_of r ctx = (case map_of (ro_acks r) ctx of None \<Rightarrow> [] | Some l \<Rightarrow> l)"

definition ro_recvAck :: "ReadOnly \<Rightarrow> Message \<Rightarrow> nat \<Rightarrow> nat option \<times> ReadOnly" where
  "ro_recvAck r m quorum =
     (case map_of (ro_pending r) (msg_context m) of
        None \<Rightarrow> (None, r)
      | Some index \<Rightarrow>
          let l = acks_of r (msg_context m);
              l = (if msg_from m \<in> set l then l else l @ [msg_from m]);
              r = r\<lparr>ro_acks := AList.update (msg_context m) l (ro_acks r)\<rparr>
          in (if length l + 1 \<ge> quorum then Some index else None, r))"

text \<open>The loop of \<open>advance\<close>: pop the queue up to and including \<open>ctx\<close>.\<close>

fun pop_until ::
  "byte list \<Rightarrow> byte list list \<Rightarrow> (byte list \<times> nat) list \<Rightarrow> (byte list \<times> nat list) list \<Rightarrow>
     byte list list \<times> (byte list \<times> nat) list \<times> (byte list \<times> nat list) list" where
  "pop_until ctx [] pend acks = ([], pend, acks)"
| "pop_until ctx (front # queue) pend acks =
     (let pend = AList.delete front pend; acks = AList.delete front acks
      in if front = ctx then (queue, pend, acks) else pop_until ctx queue pend acks)"

definition ro_advance :: "ReadOnly \<Rightarrow> byte list \<Rightarrow> nat option \<times> ReadOnly" where
  "ro_advance r ctx =
     (case map_of (ro_pending r) ctx of
        None \<Rightarrow> (None, r)
      | Some index \<Rightarrow>
          let (queue, pend, acks) = pop_until ctx (ro_recvQueue r) (ro_pending r) (ro_acks r)
          in (Some index, r\<lparr>ro_recvQueue := queue, ro_pending := pend, ro_acks := acks\<rparr>))"

definition ro_reset :: "ReadOnly \<Rightarrow> ReadOnly" where
  "ro_reset r = r\<lparr>ro_pending := [], ro_acks := [], ro_recvQueue := []\<rparr>"

section \<open>Invariant\<close>

text \<open>The queue lists the pending tokens once each, and only pending tokens have acknowledgements,
  without repetition.\<close>

definition ro_ok :: "ReadOnly \<Rightarrow> bool" where
  "ro_ok r \<longleftrightarrow>
     distinct (ro_recvQueue r) \<and> set (ro_recvQueue r) = dom (map_of (ro_pending r)) \<and>
     (\<forall>ctx. map_of (ro_acks r) ctx \<noteq> None \<longrightarrow> map_of (ro_pending r) ctx \<noteq> None) \<and>
     (\<forall>ctx. distinct (acks_of r ctx))"

lemma ro_ok_new: "ro_ok (ro_new opt)"
  by (simp add: ro_ok_def ro_new_def acks_of_def)

lemma ro_ok_reset: "ro_ok (ro_reset r)"
  by (simp add: ro_ok_def ro_reset_def acks_of_def)

lemma ro_ok_add: "ro_ok r \<Longrightarrow> ro_ok (ro_add r i ctx)"
  by (auto simp: ro_ok_def ro_add_def acks_of_def update_conv')

lemma ro_ok_recvAck: "ro_ok r \<Longrightarrow> ro_ok (snd (ro_recvAck r m q))"
  by (auto simp: ro_ok_def ro_recvAck_def acks_of_def Let_def update_conv' split: option.splits)

lemma pop_until_split:
  "distinct (xs @ ctx # ys) \<Longrightarrow>
     pop_until ctx (xs @ ctx # ys) pend acks =
       (ys, fold AList.delete (xs @ [ctx]) pend, fold AList.delete (xs @ [ctx]) acks)"
  by (induction xs arbitrary: pend acks) auto

lemma map_of_fold_delete:
  "map_of (fold AList.delete ks al) = (\<lambda>k. if k \<in> set ks then None else map_of al k)"
  by (induction ks arbitrary: al) (auto simp: delete_conv' fun_eq_iff)

text \<open>Advancing past a token resolves it and every request registered before it, and no other.\<close>

lemma ro_advance_split:
  assumes ok: "ro_ok r" and p: "map_of (ro_pending r) ctx = Some i"
  obtains xs ys r' where "ro_recvQueue r = xs @ ctx # ys" "ro_advance r ctx = (Some i, r')" "ro_recvQueue r' = ys"
    "\<forall>c. map_of (ro_pending r') c = (if c \<in> set (xs @ [ctx]) then None else map_of (ro_pending r) c)"
    "\<forall>c. map_of (ro_acks r') c = (if c \<in> set (xs @ [ctx]) then None else map_of (ro_acks r) c)"
    "ro_option r' = ro_option r"
proof -
  have "ctx \<in> set (ro_recvQueue r)" using ok p by (auto simp: ro_ok_def)
  then obtain xs ys where q: "ro_recvQueue r = xs @ ctx # ys" by (meson split_list)
  define r' where "r' = r\<lparr>ro_recvQueue := ys, ro_pending := fold AList.delete (xs @ [ctx]) (ro_pending r),
    ro_acks := fold AList.delete (xs @ [ctx]) (ro_acks r)\<rparr>"
  have "distinct (xs @ ctx # ys)" using ok q by (simp add: ro_ok_def)
  from pop_until_split [OF this] have "ro_advance r ctx = (Some i, r')"
    by (simp add: ro_advance_def p q r'_def)
  with q show thesis
    by (intro that [of xs ys r']) (simp_all add: r'_def map_of_fold_delete del: fold_append)
qed

lemma ro_ok_advance:
  assumes "ro_ok r" shows "ro_ok (snd (ro_advance r ctx))"
proof (cases "map_of (ro_pending r) ctx")
  case None
  with assms show ?thesis by (simp add: ro_advance_def)
next
  case (Some i)
  obtain xs ys r' where s: "ro_recvQueue r = xs @ ctx # ys" "ro_advance r ctx = (Some i, r')" "ro_recvQueue r' = ys"
    "\<forall>c. map_of (ro_pending r') c = (if c \<in> set (xs @ [ctx]) then None else map_of (ro_pending r) c)"
    "\<forall>c. map_of (ro_acks r') c = (if c \<in> set (xs @ [ctx]) then None else map_of (ro_acks r) c)"
    "ro_option r' = ro_option r"
    by (rule ro_advance_split [OF assms Some])
  have "set ys = dom (map_of (ro_pending r'))"
    using assms s(1) unfolding ro_ok_def dom_def by (auto simp: s(4) split: if_splits)
  with assms s show ?thesis by (auto simp: ro_ok_def acks_of_def)
qed

end
