(* ===== verification/Raw_Node.thy ===== *)
theory Raw_Node
  imports Raft_Log Progress_Tracker Read_Only Std_Map
begin

text \<open>
  The Raft state machine, \<^verbatim>\<open>raft/src/RawNode.cpp\<close>. Every member function is a function on the
  record of its fields; those that consult the log take the storage as it is at the call.
  \<open>None\<close> stands for a read outside a vector or \<open>std::abort\<close>.

  The random device is a sequence of draws in the state. \<open>std::uniform_int_distribution(a, b)\<close> maps a
  draw into the closed interval from \<open>a\<close> to \<open>b\<close>.
\<close>

section \<open>State\<close>

record Config =
  cfg_id :: nat
  cfg_leaderId :: nat
  cfg_electionTick :: nat
  cfg_heartbeatTick :: nat
  cfg_maxSizePerMsg :: nat
  cfg_maxInflightMsgs :: nat
  cfg_peers :: "nat list"
  cfg_learners :: "nat list"
  cfg_readOnlyOption :: ReadOnlyOption

record RawNode =
  rn_id :: nat
  rn_lead :: nat
  rn_term :: nat
  rn_vote :: nat
  rn_role :: Role
  rn_electionTick :: nat
  rn_heartbeatTick :: nat
  rn_randomizedElectionTick :: nat
  rn_tickCount :: nat
  rn_votes :: "nat list"
  rn_log :: RaftLog
  rn_pr :: "(nat, Progress) std_map"
  rn_readOnly :: ReadOnly
  rn_voters :: "nat list"
  rn_learners :: "nat list"
  rn_msgs :: "Message list"
  rn_lastReadyLastIndex :: nat
  rn_lastReadyApplied :: nat
  rn_maxSizePerMsg :: nat
  rn_maxInflightMsgs :: nat
  rn_readStates :: "ReadState list"
  rn_readRequestors :: "(byte list \<times> nat) list"
  rn_entropy :: "nat \<Rightarrow> nat"
  rn_drawn :: nat

record Ready =
  rd_entries :: "Entry list"
  rd_hardState :: HardState
  rd_messages :: "Message list"
  rd_committedEntries :: "Entry list"
  rd_snapshot :: "Snapshot option"
  rd_readStates :: "ReadState list"

definition uniform :: "nat \<Rightarrow> nat \<Rightarrow> nat \<Rightarrow> nat" where
  "uniform a b draw = a + draw mod (b + 1 - a)"

definition rn_randomize :: "RawNode \<Rightarrow> RawNode" where
  "rn_randomize n =
     n\<lparr>rn_randomizedElectionTick :=
         uniform (rn_electionTick n) ((2 * rn_electionTick n) mod 2 ^ 32) (rn_entropy n (rn_drawn n)),
       rn_drawn := rn_drawn n + 1\<rparr>"

definition makeHardState :: "nat \<Rightarrow> nat \<Rightarrow> nat \<Rightarrow> HardState" where
  "makeHardState t v c = \<lparr>hs_term = t, hs_vote = v, hs_commit = c\<rparr>"

definition rn_new :: "Config \<Rightarrow> Storage \<Rightarrow> (nat \<Rightarrow> nat) \<Rightarrow> RawNode" where
  "rn_new c S entropy =
     (let (hs, cs) = sto_initialState S;
          (voters, learners) =
            (if sto_lastIndex S = 0 \<and> cfg_peers c \<noteq> [] then (cfg_peers c, [])
             else (cs_nodes cs, cs_learners cs));
          voters = (if voters = [] \<and> cfg_peers c \<noteq> [] then cfg_peers c else voters);
          learners = (if learners = [] \<and> cfg_learners c \<noteq> [] then cfg_learners c else learners)
      in rn_randomize
           \<lparr>rn_id = cfg_id c, rn_lead = cfg_leaderId c, rn_term = hs_term hs, rn_vote = hs_vote hs,
            rn_role = Follower, rn_electionTick = cfg_electionTick c, rn_heartbeatTick = cfg_heartbeatTick c,
            rn_randomizedElectionTick = 0, rn_tickCount = 0, rn_votes = [], rn_log = rl_init S,
            rn_pr = [], rn_readOnly = ro_setOption (ro_new Safe) (cfg_readOnlyOption c),
            rn_voters = voters, rn_learners = learners, rn_msgs = [], rn_lastReadyLastIndex = 0,
            rn_lastReadyApplied = 0, rn_maxSizePerMsg = cfg_maxSizePerMsg c,
            rn_maxInflightMsgs = cfg_maxInflightMsgs c, rn_readStates = [], rn_readRequestors = [],
            rn_entropy = entropy, rn_drawn = 0\<rparr>)"

section \<open>Helpers\<close>

definition rn_quorum :: "RawNode \<Rightarrow> nat" where
  "rn_quorum n = length (rn_voters n) div 2 + 1"

definition rn_send :: "RawNode \<Rightarrow> Message \<Rightarrow> RawNode" where
  "rn_send n m = n\<lparr>rn_msgs := rn_msgs n @ [m]\<rparr>"

definition rn_new_msg :: "RawNode \<Rightarrow> MessageType \<Rightarrow> nat \<Rightarrow> Message" where
  "rn_new_msg n t to = new_Message t to (rn_id n) (rn_term n)"

definition pr_put :: "nat \<Rightarrow> Progress \<Rightarrow> RawNode \<Rightarrow> RawNode" where
  "pr_put k p n = n\<lparr>rn_pr := std_put (<) k p (rn_pr n)\<rparr>"

text \<open>\<open>pr_[k]\<close>: a missing key is inserted with a default \<open>Progress\<close>.\<close>

definition pr_index :: "nat \<Rightarrow> RawNode \<Rightarrow> Progress" where
  "pr_index k n = (case map_of (rn_pr n) k of Some p \<Rightarrow> p | None \<Rightarrow> pr_new 256 False)"

fun for_each :: "('a \<Rightarrow> 's \<Rightarrow> 's option) \<Rightarrow> 'a list \<Rightarrow> 's \<Rightarrow> 's option" where
  "for_each f [] s = Some s"
| "for_each f (x # xs) s = do { s' \<leftarrow> f x s; for_each f xs s' }"

section \<open>Role transitions\<close>

definition rn_becomeFollower :: "RawNode \<Rightarrow> nat \<Rightarrow> nat \<Rightarrow> RawNode" where
  "rn_becomeFollower n term lead =
     (let n = n\<lparr>rn_role := Follower, rn_term := term, rn_lead := lead, rn_vote := 0, rn_votes := [],
                rn_tickCount := 0\<rparr>;
          n = rn_randomize n
      in n\<lparr>rn_readOnly := ro_reset (rn_readOnly n)\<rparr>)"

definition rn_becomeCandidate :: "RawNode \<Rightarrow> RawNode" where
  "rn_becomeCandidate n =
     (let n = n\<lparr>rn_role := Candidate, rn_term := u64_add (rn_term n) 1, rn_lead := 0, rn_vote := rn_id n,
                rn_votes := [rn_id n], rn_tickCount := 0\<rparr>;
          n = rn_randomize n
      in n\<lparr>rn_readOnly := ro_reset (rn_readOnly n)\<rparr>)"

definition rn_becomePreCandidate :: "RawNode \<Rightarrow> RawNode" where
  "rn_becomePreCandidate n =
     rn_randomize (n\<lparr>rn_role := PreCandidate, rn_lead := 0, rn_votes := [rn_id n], rn_tickCount := 0\<rparr>)"

section \<open>Replication\<close>

definition rn_sendSnapshot :: "Storage \<Rightarrow> RawNode \<Rightarrow> nat \<Rightarrow> RawNode" where
  "rn_sendSnapshot S n to =
     (case map_of (rn_pr n) to of
        None \<Rightarrow> n
      | Some pr \<Rightarrow>
          let snap = rl_snapshot S (rn_log n)
          in if snap_index snap = 0 then n
             else rn_send (pr_put to (pr_becomeSnapshot pr (snap_index snap)) n)
                    ((rn_new_msg n MsgSnap to)\<lparr>msg_snapshot := snap\<rparr>))"

definition rn_sendAppend :: "Storage \<Rightarrow> RawNode \<Rightarrow> nat \<Rightarrow> RawNode option" where
  "rn_sendAppend S n to =
     (case map_of (rn_pr n) to of
        None \<Rightarrow> Some n
      | Some pr \<Rightarrow>
          if pr_paused pr then Some n
          else if pr_state pr = SendingSnapshot then Some (rn_sendSnapshot S n to)
          else if pr_nextIndex pr < rl_firstIndex S (rn_log n) then Some (rn_sendSnapshot S n to)
          else
            (case rl_slice S (rn_log n) (pr_nextIndex pr) (u64_add (rl_lastIndex S (rn_log n)) 1)
                    (rn_maxSizePerMsg n) of
               None \<Rightarrow> Some (rn_sendSnapshot S n to)
             | Some ents \<Rightarrow>
                 if ents = [] \<and> pr_state pr \<noteq> Probe then Some n
                 else if pr_state pr = Replicate \<and> ents \<noteq> [] \<and> inf_full (pr_inflights pr) then Some n
                 else do {
                   pr \<leftarrow> (if pr_state pr = Replicate \<and> ents \<noteq> []
                          then do {
                            inf \<leftarrow> inf_add (pr_inflights pr) (ent_index (last ents));
                            Some (pr\<lparr>pr_inflights := inf\<rparr>)
                          }
                          else Some pr);
                   let prev = u64_sub (pr_nextIndex pr) 1;
                   logTerm \<leftarrow> rl_term S (rn_log n) prev;
                   let m = (rn_new_msg n MsgApp to)
                             \<lparr>msg_logTerm := logTerm, msg_index := prev,
                              msg_commit := rl_committed (rn_log n), msg_entries := ents\<rparr>;
                   let pr = (if pr_state pr = Probe then pr\<lparr>pr_paused := True\<rparr> else pr);
                   Some (rn_send (pr_put to pr n) m)
                 }))"

definition rn_broadcastAppend :: "Storage \<Rightarrow> RawNode \<Rightarrow> RawNode option" where
  "rn_broadcastAppend S n =
     for_each (\<lambda>k n. if k = rn_id n then Some n else rn_sendAppend S n k) (map fst (rn_pr n)) n"

definition rn_sendHeartbeat :: "RawNode \<Rightarrow> nat \<Rightarrow> RawNode" where
  "rn_sendHeartbeat n to =
     rn_send n ((rn_new_msg n MsgHeartbeat to)\<lparr>msg_commit := rl_committed (rn_log n)\<rparr>)"

definition rn_broadcastHeartbeat :: "RawNode \<Rightarrow> RawNode" where
  "rn_broadcastHeartbeat n =
     fold (\<lambda>k n. if k = rn_id n then n else rn_sendHeartbeat n k) (map fst (rn_pr n)) n"

text \<open>The heartbeat round of a read request, which carries the token.\<close>

definition rn_readHeartbeats :: "RawNode \<Rightarrow> byte list \<Rightarrow> RawNode" where
  "rn_readHeartbeats n ctx =
     fold (\<lambda>k n. if k = rn_id n then n
                 else rn_send n ((rn_new_msg n MsgHeartbeat k)
                        \<lparr>msg_commit := rl_committed (rn_log n), msg_context := ctx\<rparr>))
          (map fst (rn_pr n)) n"

definition rn_maybeCommit :: "Storage \<Rightarrow> RawNode \<Rightarrow> (bool \<times> RawNode) option" where
  "rn_maybeCommit S n =
     (let matches = map (\<lambda>(k, pr). if k = rn_id n then rl_lastIndex S (rn_log n) else pr_matchIndex pr) (rn_pr n);
          matches = rev (sort matches)
      in if rn_quorum n - 1 < length matches
         then let N = matches ! (rn_quorum n - 1)
              in if N > rl_committed (rn_log n)
                 then do {
                   t \<leftarrow> rl_term S (rn_log n) N;
                   if t = rn_term n
                   then do {
                     (_, rl) \<leftarrow> rl_maybeCommit S (rn_log n) N (rn_term n);
                     Some (True, n\<lparr>rn_log := rl\<rparr>)
                   }
                   else Some (False, n)
                 }
                 else Some (False, n)
         else None)"

definition rn_restore :: "RawNode \<Rightarrow> Snapshot \<Rightarrow> RawNode" where
  "rn_restore n snap =
     n\<lparr>rn_log := rl_restore (rn_log n) snap,
       rn_pr := map (\<lambda>(k, pr). (k, if k = rn_id n
                                   then pr\<lparr>pr_matchIndex := snap_index snap,
                                           pr_nextIndex := u64_add (snap_index snap) 1\<rparr>
                                   else pr_reset pr (snap_index snap))) (rn_pr n)\<rparr>"

section \<open>Elections\<close>

definition rn_becomeLeader :: "Storage \<Rightarrow> RawNode \<Rightarrow> RawNode option" where
  "rn_becomeLeader S n =
     (let n = n\<lparr>rn_role := Leader, rn_lead := rn_id n, rn_tickCount := 0, rn_pr := []\<rparr>;
          last = rl_lastIndex S (rn_log n);
          n = fold (\<lambda>k n. pr_put k (pr_reset (pr_new (rn_maxInflightMsgs n) (k \<in> set (rn_learners n))) last) n)
                   (rn_voters n) n;
          self = (pr_index (rn_id n) n)\<lparr>pr_matchIndex := last, pr_nextIndex := u64_add last 1\<rparr>;
          n = pr_put (rn_id n) (pr_becomeReplicate self) n;
          n = (if last \<ge> rl_firstIndex S (rn_log n)
               then let noop = \<lparr>ent_term = rn_term n, ent_index = u64_add last 1, ent_type = Normal, ent_data = []\<rparr>;
                        n = n\<lparr>rn_log := snd (rl_append S (rn_log n) [noop])\<rparr>;
                        last' = rl_lastIndex S (rn_log n)
                    in pr_put (rn_id n) ((pr_index (rn_id n) n)
                         \<lparr>pr_matchIndex := last', pr_nextIndex := u64_add last' 1\<rparr>) n
               else n)
      in rn_broadcastAppend S n)"

definition rn_campaign :: "Storage \<Rightarrow> RawNode \<Rightarrow> RawNode option" where
  "rn_campaign S n =
     (let n = rn_becomeCandidate n
      in if rn_quorum n = 1 then rn_becomeLeader S n
         else for_each (\<lambda>k n. if k = rn_id n then Some n
                              else do {
                                t \<leftarrow> rl_lastTerm S (rn_log n);
                                Some (rn_send n ((rn_new_msg n MsgVote k)
                                  \<lparr>msg_logTerm := t, msg_index := rl_lastIndex S (rn_log n)\<rparr>))
                              }) (rn_voters n) n)"

definition rn_pollVote :: "Storage \<Rightarrow> RawNode \<Rightarrow> nat \<Rightarrow> bool \<Rightarrow> RawNode option" where
  "rn_pollVote S n from granted =
     (if from \<in> set (rn_votes n) then Some n
      else if granted
      then let n = n\<lparr>rn_votes := rn_votes n @ [from]\<rparr>
           in if length (rn_votes n) \<ge> rn_quorum n then rn_becomeLeader S n else Some n
      else Some n)"

section \<open>Driving the state machine\<close>

definition rn_propose :: "Storage \<Rightarrow> RawNode \<Rightarrow> byte list \<Rightarrow> (bool \<times> RawNode) option" where
  "rn_propose S n data =
     (if rn_role n \<noteq> Leader then Some (False, n)
      else
        let e = \<lparr>ent_term = rn_term n, ent_index = u64_add (rl_lastIndex S (rn_log n)) 1,
                 ent_type = Normal, ent_data = data\<rparr>;
            n = n\<lparr>rn_log := snd (rl_append S (rn_log n) [e])\<rparr>;
            last = rl_lastIndex S (rn_log n);
            n = pr_put (rn_id n) ((pr_index (rn_id n) n)
                  \<lparr>pr_matchIndex := last, pr_nextIndex := u64_add last 1\<rparr>) n
        in do {
             n \<leftarrow> rn_broadcastAppend S n;
             Some (True, n)
           })"

definition rn_readIndex :: "RawNode \<Rightarrow> byte list \<Rightarrow> bool \<times> RawNode" where
  "rn_readIndex n ctx =
     (if rn_role n \<noteq> Leader then (False, n)
      else if ctx = [] then (False, n)
      else
        let n = n\<lparr>rn_readOnly := ro_add (rn_readOnly n) (rl_committed (rn_log n)) ctx\<rparr>
        in (True, if ro_option (rn_readOnly n) = Safe then rn_readHeartbeats n ctx else n))"

text \<open>A heartbeat response that carries a read token.\<close>

definition rn_recvReadAck :: "RawNode \<Rightarrow> Message \<Rightarrow> RawNode" where
  "rn_recvReadAck n m =
     (if msg_context m = [] then n
      else
        let (ackIndex, ro) = ro_recvAck (rn_readOnly n) m (rn_quorum n);
            n = n\<lparr>rn_readOnly := ro\<rparr>;
            ctx = msg_context m
        in if ackIndex = None then n
           else
             let (idx, ro) = ro_advance (rn_readOnly n) ctx;
                 n = n\<lparr>rn_readOnly := ro\<rparr>
             in case idx of
                  None \<Rightarrow> n
                | Some i \<Rightarrow>
                    let n = n\<lparr>rn_readStates := rn_readStates n @ [\<lparr>rs_index = i, rs_requestCtx = ctx\<rparr>]\<rparr>
                    in case map_of (rn_readRequestors n) ctx of
                         None \<Rightarrow> n
                       | Some to \<Rightarrow>
                           rn_send (n\<lparr>rn_readRequestors := AList.delete ctx (rn_readRequestors n)\<rparr>)
                             ((rn_new_msg n MsgReadIndexResp to)\<lparr>msg_index := i, msg_context := ctx\<rparr>))"

definition rn_stepLeader :: "Storage \<Rightarrow> RawNode \<Rightarrow> Message \<Rightarrow> RawNode option" where
  "rn_stepLeader S n m =
     (case msg_type m of
        MsgPropose \<Rightarrow>
          map_option snd (rn_propose S n (case msg_entries m of [] \<Rightarrow> [] | e # _ \<Rightarrow> ent_data e))
      | MsgAppResp \<Rightarrow>
          (case map_of (rn_pr n) (msg_from m) of
             None \<Rightarrow> Some n
           | Some pr \<Rightarrow>
               if msg_reject m
               then rn_sendAppend S
                      (pr_put (msg_from m)
                        (pr_becomeProbe (snd (pr_maybeDecrFromRejectHint pr (msg_index m) (msg_rejectHint m)))) n)
                      (msg_from m)
               else
                 let pr = pr_update pr (msg_index m);
                     pr = (if pr_state pr = Probe then pr_becomeReplicate pr else pr);
                     n = pr_put (msg_from m) pr n
                 in do {
                      (moved, n) \<leftarrow> rn_maybeCommit S n;
                      n \<leftarrow> (if moved then rn_broadcastAppend S n else Some n);
                      if pr_state (pr_index (msg_from m) n) = Replicate
                      then rn_sendAppend S n (msg_from m) else Some n
                    })
      | MsgHeartbeatResp \<Rightarrow>
          (case map_of (rn_pr n) (msg_from m) of
             None \<Rightarrow> Some n
           | Some pr \<Rightarrow>
               do {
                 n \<leftarrow> (if pr_state pr = Replicate \<or> (pr_state pr = Probe \<and> \<not> pr_paused pr)
                       then rn_sendAppend S n (msg_from m) else Some n);
                 Some (rn_recvReadAck n m)
               })
      | MsgReadIndex \<Rightarrow>
          if msg_context m = [] then Some n
          else
            let n = n\<lparr>rn_readOnly := ro_add (rn_readOnly n) (rl_committed (rn_log n)) (msg_context m)\<rparr>;
                n = (if msg_from m \<noteq> rn_id n
                     then n\<lparr>rn_readRequestors := AList.update (msg_context m) (msg_from m) (rn_readRequestors n)\<rparr>
                     else n)
            in Some (if ro_option (rn_readOnly n) = Safe then rn_readHeartbeats n (msg_context m) else n)
      | _ \<Rightarrow> Some n)"

definition rn_stepFollower :: "Storage \<Rightarrow> RawNode \<Rightarrow> Message \<Rightarrow> RawNode option" where
  "rn_stepFollower S n m =
     (case msg_type m of
        MsgPropose \<Rightarrow> Some (if rn_lead n = 0 then n else rn_send n (m\<lparr>msg_to := rn_lead n\<rparr>))
      | MsgApp \<Rightarrow>
          let n = n\<lparr>rn_lead := msg_from m, rn_tickCount := 0\<rparr>
          in do {
               (ok, rl) \<leftarrow> rl_maybeAppend S (rn_log n) (msg_index m) (msg_logTerm m) (msg_commit m) (msg_entries m);
               let n = n\<lparr>rn_log := rl\<rparr>;
               let resp = (rn_new_msg n MsgAppResp (msg_from m))\<lparr>msg_reject := \<not> ok\<rparr>;
               let resp = (if ok then resp\<lparr>msg_index := u64_add (msg_index m) (length (msg_entries m))\<rparr>
                           else resp\<lparr>msg_index := msg_index m, msg_rejectHint := rl_lastIndex S (rn_log n)\<rparr>);
               Some (rn_send n resp)
             }
      | MsgHeartbeat \<Rightarrow>
          let n = n\<lparr>rn_lead := msg_from m, rn_tickCount := 0\<rparr>;
              n = (if msg_commit m > rl_committed (rn_log n)
                   then n\<lparr>rn_log := rl_commitTo S (rn_log n) (msg_commit m)\<rparr> else n)
          in Some (rn_send n (rn_new_msg n MsgHeartbeatResp (msg_from m)))
      | MsgSnap \<Rightarrow>
          let n = n\<lparr>rn_lead := msg_from m, rn_tickCount := 0\<rparr>;
              n = rn_restore n (msg_snapshot m)
          in Some (rn_send n ((rn_new_msg n MsgAppResp (msg_from m))\<lparr>msg_index := snap_index (msg_snapshot m)\<rparr>))
      | MsgReadIndex \<Rightarrow> Some (if rn_lead n = 0 then n else rn_send n (m\<lparr>msg_to := rn_lead n\<rparr>))
      | MsgReadIndexResp \<Rightarrow>
          Some (n\<lparr>rn_readStates := rn_readStates n @ [\<lparr>rs_index = msg_index m, rs_requestCtx = msg_context m\<rparr>]\<rparr>)
      | MsgTimeoutNow \<Rightarrow> rn_campaign S n
      | t \<Rightarrow>
          if t = MsgVote \<or> t = MsgPreVote
          then do {
            lastTerm \<leftarrow> rl_lastTerm S (rn_log n);
            let logUpToDate = (msg_logTerm m > lastTerm \<or>
                               msg_logTerm m = lastTerm \<and> msg_index m \<ge> rl_lastIndex S (rn_log n));
            let grant = ((rn_vote n = 0 \<or> rn_vote n = msg_from m) \<and> logUpToDate);
            let n = rn_send n ((rn_new_msg n (if t = MsgVote then MsgVoteResp else MsgPreVoteResp) (msg_from m))
                      \<lparr>msg_reject := \<not> grant\<rparr>);
            Some (if grant \<and> t = MsgVote then n\<lparr>rn_vote := msg_from m, rn_tickCount := 0\<rparr> else n)
          }
          else Some n)"

definition rn_stepCandidate :: "Storage \<Rightarrow> RawNode \<Rightarrow> Message \<Rightarrow> RawNode option" where
  "rn_stepCandidate S n m =
     (let t = msg_type m
      in if t = MsgVoteResp \<or> t = MsgPreVoteResp then rn_pollVote S n (msg_from m) (\<not> msg_reject m)
         else if t = MsgApp \<or> t = MsgHeartbeat \<or> t = MsgSnap
         then rn_stepFollower S
                (if msg_term m = rn_term n then rn_becomeFollower n (msg_term m) (msg_from m) else n) m
         else if t = MsgTimeoutNow then rn_campaign S n
         else Some n)"

definition rn_step :: "Storage \<Rightarrow> RawNode \<Rightarrow> Message \<Rightarrow> RawNode option" where
  "rn_step S n m =
     (let t = msg_type m
      in if t = MsgUnreachable
         then (case map_of (rn_pr n) (msg_from m) of
                 None \<Rightarrow> Some n
               | Some pr \<Rightarrow> Some (pr_put (msg_from m) (pr_becomeProbe pr) n))
         else if t = MsgSnapStatus
         then (case map_of (rn_pr n) (msg_from m) of
                 None \<Rightarrow> Some n
               | Some pr \<Rightarrow>
                   let pr = pr_becomeProbe pr
                   in if msg_reject m then Some (pr_put (msg_from m) pr n)
                      else
                        let pr = pr\<lparr>pr_matchIndex := pr_pendingSnapshotIndex pr\<rparr>;
                            pr = pr\<lparr>pr_nextIndex := u64_add (pr_matchIndex pr) 1\<rparr>
                        in map_option snd (rn_maybeCommit S (pr_put (msg_from m) pr n)))
         else
           let n = (if msg_term m > rn_term n \<and> t \<noteq> MsgPreVote \<and> t \<noteq> MsgPreVoteResp
                    then rn_becomeFollower n (msg_term m) 0 else n)
           in if msg_term m < rn_term n
              then Some
                (if t = MsgApp \<or> t = MsgHeartbeat \<or> t = MsgSnap
                 then rn_send n ((rn_new_msg n (if t = MsgHeartbeat then MsgHeartbeatResp else MsgAppResp)
                        (msg_from m))\<lparr>msg_reject := True\<rparr>)
                 else if t = MsgVote \<or> t = MsgPreVote
                 then rn_send n ((rn_new_msg n (if t = MsgVote then MsgVoteResp else MsgPreVoteResp)
                        (msg_from m))\<lparr>msg_reject := True\<rparr>)
                 else n)
              else (case rn_role n of
                      Leader \<Rightarrow> rn_stepLeader S n m
                    | Candidate \<Rightarrow> rn_stepCandidate S n m
                    | PreCandidate \<Rightarrow> rn_stepCandidate S n m
                    | Follower \<Rightarrow> rn_stepFollower S n m))"

definition rn_tickElection :: "Storage \<Rightarrow> RawNode \<Rightarrow> (bool \<times> RawNode) option" where
  "rn_tickElection S n =
     (let n = n\<lparr>rn_tickCount := (rn_tickCount n + 1) mod 2 ^ 32\<rparr>
      in if rn_tickCount n \<ge> rn_randomizedElectionTick n
         then do { n \<leftarrow> rn_campaign S n; Some (True, n\<lparr>rn_tickCount := 0\<rparr>) }
         else Some (False, n))"

definition rn_tick :: "Storage \<Rightarrow> RawNode \<Rightarrow> (bool \<times> RawNode) option" where
  "rn_tick S n =
     (if rn_role n = Leader
      then let n = n\<lparr>rn_tickCount := (rn_tickCount n + 1) mod 2 ^ 32\<rparr>
           in if rn_tickCount n \<ge> rn_heartbeatTick n
              then Some (True, (rn_broadcastHeartbeat n)\<lparr>rn_tickCount := 0\<rparr>)
              else Some (False, n)
      else rn_tickElection S n)"

section \<open>The Ready protocol\<close>

definition rn_poll :: "Storage \<Rightarrow> RawNode \<Rightarrow> Ready \<times> RawNode" where
  "rn_poll S n =
     (let ents = rl_unstableEntries (rn_log n);
          n = (if ents \<noteq> [] then n\<lparr>rn_lastReadyLastIndex := ent_index (last ents)\<rparr> else n);
          com = rl_nextCommittedEntries S (rn_log n) True;
          rd = \<lparr>rd_entries = ents,
                rd_hardState = makeHardState (rn_term n) (rn_vote n) (rl_committed (rn_log n)),
                rd_messages = rn_msgs n, rd_committedEntries = com, rd_snapshot = None,
                rd_readStates = rn_readStates n\<rparr>;
          n = n\<lparr>rn_msgs := []\<rparr>;
          n = (if com \<noteq> [] then n\<lparr>rn_lastReadyApplied := ent_index (last com)\<rparr> else n)
      in (rd, n\<lparr>rn_readStates := []\<rparr>))"

definition rn_advance :: "Storage \<Rightarrow> RawNode \<Rightarrow> RawNode option" where
  "rn_advance S n =
     do {
       n \<leftarrow> (if rn_lastReadyLastIndex n > 0
             then do {
               t \<leftarrow> rl_term S (rn_log n) (rn_lastReadyLastIndex n);
               Some (n\<lparr>rn_log := rl_stableTo (rn_log n) (rn_lastReadyLastIndex n) t, rn_lastReadyLastIndex := 0\<rparr>)
             }
             else Some n);
       Some (if rn_lastReadyApplied n > 0
             then n\<lparr>rn_log := rl_appliedTo (rn_log n) (rn_lastReadyApplied n), rn_lastReadyApplied := 0\<rparr>
             else n)
     }"

end
