(* ===== verification/Election_Protocol.thy ===== *)
theory Election_Protocol
  imports Raft_Types
begin

text \<open>
  Leader election as an abstract protocol: what a node remembers of elections, what it has saved, the
  vote messages on the network and the pairs of term and node that ever led. The network may lose,
  repeat and reorder messages, and a node may restart from what it saved. The invariants here give that
  a term has at most one leader; \<^verbatim>\<open>Raft_Cluster\<close> shows that the servers implement the protocol.
\<close>

section \<open>The protocol\<close>

datatype VoteMsg = Request nat nat nat | Grant nat nat nat | Alien

record Elector =
  el_term :: nat
  el_vote :: nat
  el_role :: Role
  el_votes :: "nat set"
  el_out :: "VoteMsg set"
  el_sterm :: nat
  el_svote :: nat

record EP =
  ep_node :: "nat \<Rightarrow> Elector"
  ep_net :: "VoteMsg set"
  ep_won :: "(nat \<times> nat) set"

definition ep_quorum :: "nat set \<Rightarrow> nat" where
  "ep_quorum ids = card ids div 2 + 1"

definition el_campaign :: "nat set \<Rightarrow> nat \<Rightarrow> Elector \<Rightarrow> Elector" where
  "el_campaign ids i e =
     e\<lparr>el_term := el_term e + 1, el_vote := i, el_votes := {i},
       el_role := (if ep_quorum ids = 1 then Leader else Candidate),
       el_out := el_out e \<union> {Request i j (el_term e + 1) | j. j \<in> ids \<and> j \<noteq> i}\<rparr>"

definition el_follow :: "nat \<Rightarrow> Elector \<Rightarrow> Elector" where
  "el_follow t e = e\<lparr>el_term := t, el_vote := 0, el_role := Follower, el_votes := {}\<rparr>"

definition el_grant :: "nat \<Rightarrow> nat \<Rightarrow> Elector \<Rightarrow> Elector" where
  "el_grant i c e = e\<lparr>el_vote := c, el_out := insert (Grant i c (el_term e)) (el_out e)\<rparr>"

definition el_count :: "nat set \<Rightarrow> nat \<Rightarrow> Elector \<Rightarrow> Elector" where
  "el_count ids v e =
     e\<lparr>el_votes := insert v (el_votes e),
       el_role := (if ep_quorum ids \<le> card (insert v (el_votes e)) then Leader else Candidate)\<rparr>"

definition el_save :: "Elector \<Rightarrow> Elector" where
  "el_save e = e\<lparr>el_sterm := el_term e, el_svote := el_vote e\<rparr>"

definition el_restart :: "Elector \<Rightarrow> Elector" where
  "el_restart e = e\<lparr>el_term := el_sterm e, el_vote := el_svote e, el_role := Follower, el_votes := {}, el_out := {}\<rparr>"

text \<open>What one node may do, given the vote messages that exist.\<close>

inductive el_step :: "nat set \<Rightarrow> VoteMsg set \<Rightarrow> nat \<Rightarrow> Elector \<Rightarrow> Elector \<Rightarrow> bool"
  for ids :: "nat set" and net :: "VoteMsg set" and i :: nat where
  Stay: "el_step ids net i e e"
| Campaign: "el_role e \<noteq> Leader \<Longrightarrow> el_step ids net i e (el_campaign ids i e)"
| Follow: "el_term e < t \<Longrightarrow> el_step ids net i e (el_follow t e)"
| Settle: "el_role e = Candidate \<Longrightarrow> el_step ids net i e (el_follow (el_term e) e)"
| GiveVote: "Request c i (el_term e) \<in> net \<Longrightarrow> el_role e = Follower \<Longrightarrow> el_vote e = 0 \<or> el_vote e = c \<Longrightarrow>
    el_step ids net i e (el_grant i c e)"
| Count: "Grant v i (el_term e) \<in> net \<Longrightarrow> el_role e = Candidate \<Longrightarrow> v \<notin> el_votes e \<Longrightarrow>
    el_step ids net i e (el_count ids v e)"
| Save: "el_step ids net i e (el_save e)"
| Restart: "el_step ids net i e (el_restart e)"

definition ep_put :: "nat \<Rightarrow> Elector \<Rightarrow> VoteMsg set \<Rightarrow> EP \<Rightarrow> EP" where
  "ep_put i e ms s =
     s\<lparr>ep_node := (ep_node s)(i := e), ep_net := ep_net s \<union> ms,
       ep_won := ep_won s \<union> (if el_role e = Leader then {(el_term e, i)} else {})\<rparr>"

text \<open>A node sends only what its saved state covers.\<close>

inductive ep_step :: "nat set \<Rightarrow> EP \<Rightarrow> EP \<Rightarrow> bool" for ids :: "nat set" where
  Act: "i \<in> ids \<Longrightarrow> el_step ids (ep_net s) i (ep_node s i) e \<Longrightarrow> ep_step ids s (ep_put i e {} s)"
| Send: "i \<in> ids \<Longrightarrow> ms \<subseteq> el_out (ep_node s i) \<Longrightarrow>
    el_term (ep_node s i) = 0 \<or>
      el_sterm (ep_node s i) = el_term (ep_node s i) \<and> el_svote (ep_node s i) = el_vote (ep_node s i) \<Longrightarrow>
    ep_step ids s (ep_put i (ep_node s i) ms s)"

definition ep_init :: EP where
  "ep_init =
     \<lparr>ep_node = (\<lambda>_. \<lparr>el_term = 0, el_vote = 0, el_role = Follower, el_votes = {}, el_out = {}, el_sterm = 0, el_svote = 0\<rparr>),
      ep_net = {}, ep_won = {}\<rparr>"

section \<open>Invariants\<close>

text \<open>The state stands by a vote given at term \<open>t\<close> to \<open>c\<close>: now, and in what it saved.\<close>

definition stands :: "Elector \<Rightarrow> nat \<Rightarrow> nat \<Rightarrow> bool" where
  "stands e t c \<longleftrightarrow> t < el_term e \<or> t = el_term e \<and> el_vote e = c \<and> el_role e = Follower"

definition stands_saved :: "Elector \<Rightarrow> nat \<Rightarrow> nat \<Rightarrow> bool" where
  "stands_saved e t c \<longleftrightarrow> t < el_sterm e \<or> t = el_sterm e \<and> el_svote e = c"

text \<open>The local invariant of a node.\<close>

definition el_ok :: "nat set \<Rightarrow> VoteMsg set \<Rightarrow> nat \<Rightarrow> Elector \<Rightarrow> bool" where
  "el_ok ids net i e \<longleftrightarrow>
     el_sterm e \<le> el_term e \<and>
     (el_role e \<in> {Candidate, Leader} \<longrightarrow>
        el_vote e = i \<and> (el_sterm e = el_term e \<longrightarrow> el_svote e = i) \<and> 0 < el_term e \<and>
        i \<in> el_votes e \<and> el_votes e \<subseteq> ids \<and> (\<forall>v\<in>el_votes e. v \<noteq> i \<longrightarrow> Grant v i (el_term e) \<in> net)) \<and>
     (\<forall>a c t. Request a c t \<in> el_out e \<longrightarrow> a = i \<and> 0 < t \<and> t \<le> el_term e) \<and>
     (\<forall>a c t. Grant a c t \<in> el_out e \<longrightarrow> a = i \<and> 0 < t \<and> c \<in> ids \<and> Request c i t \<in> net \<and> stands e t c) \<and>
     Alien \<notin> el_out e"

definition net_ok :: "nat set \<Rightarrow> VoteMsg set \<Rightarrow> (nat \<Rightarrow> Elector) \<Rightarrow> bool" where
  "net_ok ids net nodes \<longleftrightarrow>
     (\<forall>a c t. Request a c t \<in> net \<longrightarrow> a \<in> ids \<and> 0 < t \<and> t \<le> el_sterm (nodes a)) \<and>
     (\<forall>a c t. Grant a c t \<in> net \<longrightarrow> a \<in> ids \<and> c \<in> ids \<and> Request c a t \<in> net \<and>
        stands (nodes a) t c \<and> stands_saved (nodes a) t c) \<and>
     Alien \<notin> net"

text \<open>One vote per node and term.\<close>

definition single_votes :: "nat set \<Rightarrow> VoteMsg set \<Rightarrow> (nat \<Rightarrow> Elector) \<Rightarrow> bool" where
  "single_votes ids net nodes \<longleftrightarrow>
     (\<forall>i\<in>ids. \<forall>c c' t. Grant i c t \<in> net \<union> el_out (nodes i) \<longrightarrow> Grant i c' t \<in> net \<union> el_out (nodes i) \<longrightarrow> c = c')"

text \<open>A node that led a term was elected by a quorum and votes for nobody else in that term.\<close>

definition elected :: "nat set \<Rightarrow> VoteMsg set \<Rightarrow> (nat \<Rightarrow> Elector) \<Rightarrow> nat \<Rightarrow> nat \<Rightarrow> bool" where
  "elected ids net nodes t i \<longleftrightarrow>
     i \<in> ids \<and>
     (ep_quorum ids \<noteq> 1 \<longrightarrow>
        (\<exists>Q\<subseteq>ids. ep_quorum ids \<le> card Q \<and> i \<in> Q \<and> (\<forall>v\<in>Q. v \<noteq> i \<longrightarrow> Grant v i t \<in> net)) \<and>
        (t < el_term (nodes i) \<or> t = el_term (nodes i) \<and> el_vote (nodes i) = i \<and> el_role (nodes i) \<noteq> Candidate) \<and>
        stands_saved (nodes i) t i \<and>
        (\<forall>c. Grant i c t \<in> net \<union> el_out (nodes i) \<longrightarrow> c = i))"

text \<open>Whoever leads has counted a quorum, and votes go to members only.\<close>

definition el_counted :: "nat set \<Rightarrow> Elector \<Rightarrow> bool" where
  "el_counted ids e \<longleftrightarrow>
     (el_role e = Leader \<longrightarrow> ep_quorum ids \<noteq> 1 \<longrightarrow> ep_quorum ids \<le> card (el_votes e)) \<and>
     el_vote e \<in> insert 0 ids \<and> el_svote e \<in> insert 0 ids"

definition ep_ok :: "nat set \<Rightarrow> EP \<Rightarrow> bool" where
  "ep_ok ids s \<longleftrightarrow>
     (\<forall>i\<in>ids. el_ok ids (ep_net s) i (ep_node s i) \<and> el_counted ids (ep_node s i)) \<and> net_ok ids (ep_net s) (ep_node s) \<and>
     single_votes ids (ep_net s) (ep_node s) \<and>
     (\<forall>(t, i)\<in>ep_won s. elected ids (ep_net s) (ep_node s) t i)"

lemmas el_defs = el_campaign_def el_follow_def el_grant_def el_count_def el_save_def el_restart_def

subsection \<open>Every step of a node keeps its local invariant\<close>

lemma el_ok_mono: "el_ok ids net i e \<Longrightarrow> el_ok ids (net \<union> ms) i e"
  by (simp add: el_ok_def) blast

text \<open>Votes given stay given.\<close>

lemma stands_step:
  assumes "el_step ids net i e e'" "0 \<notin> ids" "c \<in> ids" "stands_saved e t c \<or> e' \<noteq> el_restart e"
    and "stands e t c"
  shows "stands e' t c"
  using assms by (cases rule: el_step.cases) (auto simp: el_defs stands_def stands_saved_def)

lemma el_ok_I:
  assumes "el_sterm e \<le> el_term e"
    and "el_role e \<in> {Candidate, Leader} \<Longrightarrow>
        el_vote e = i \<and> (el_sterm e = el_term e \<longrightarrow> el_svote e = i) \<and> 0 < el_term e \<and>
        i \<in> el_votes e \<and> el_votes e \<subseteq> ids \<and> (\<forall>v\<in>el_votes e. v \<noteq> i \<longrightarrow> Grant v i (el_term e) \<in> net)"
    and "\<And>a c t. Request a c t \<in> el_out e \<Longrightarrow> a = i \<and> 0 < t \<and> t \<le> el_term e"
    and "\<And>a c t. Grant a c t \<in> el_out e \<Longrightarrow> a = i \<and> 0 < t \<and> c \<in> ids \<and> Request c i t \<in> net \<and> stands e t c"
    and "Alien \<notin> el_out e"
  shows "el_ok ids net i e"
  using assms unfolding el_ok_def by blast

lemma el_ok_D:
  assumes "el_ok ids net i e"
  shows "el_sterm e \<le> el_term e"
    and "el_role e \<in> {Candidate, Leader} \<Longrightarrow>
        el_vote e = i \<and> (el_sterm e = el_term e \<longrightarrow> el_svote e = i) \<and> 0 < el_term e \<and>
        i \<in> el_votes e \<and> el_votes e \<subseteq> ids \<and> (\<forall>v\<in>el_votes e. v \<noteq> i \<longrightarrow> Grant v i (el_term e) \<in> net)"
    and "Request a c t \<in> el_out e \<Longrightarrow> a = i \<and> 0 < t \<and> t \<le> el_term e"
    and "Grant a c t \<in> el_out e \<Longrightarrow> a = i \<and> 0 < t \<and> c \<in> ids \<and> Request c i t \<in> net \<and> stands e t c"
    and "Alien \<notin> el_out e"
  using assms unfolding el_ok_def by blast+

lemma el_out_step:
  assumes "el_step ids net i e e'" "g \<in> el_out e'" "g \<notin> el_out e"
  shows "(\<exists>j. g = Request i j (el_term e + 1) \<and> e' = el_campaign ids i e) \<or>
    (\<exists>c. g = Grant i c (el_term e) \<and> e' = el_grant i c e \<and> el_role e = Follower \<and>
       (el_vote e = 0 \<or> el_vote e = c) \<and> Request c i (el_term e) \<in> net)"
  using assms by (cases rule: el_step.cases) (auto simp: el_defs)

lemma el_ok_step:
  assumes step: "el_step ids net i e e'" and ok: "el_ok ids net i e" and nok: "net_ok ids net nodes"
    and ids: "i \<in> ids" "0 \<notin> ids"
  shows "el_ok ids net i e'"
proof (rule el_ok_I)
  note D = el_ok_D [OF ok]
  have grants: "v \<in> ids" if "Grant v c t \<in> net" for v c t using nok that by (auto simp: net_ok_def)
  have reqs: "c \<in> ids \<and> 0 < t" if "Request c v t \<in> net" for v c t using nok that by (auto simp: net_ok_def)
  show "el_sterm e' \<le> el_term e'" using step D(1) by cases (simp_all add: el_defs)
  show "el_vote e' = i \<and> (el_sterm e' = el_term e' \<longrightarrow> el_svote e' = i) \<and> 0 < el_term e' \<and>
      i \<in> el_votes e' \<and> el_votes e' \<subseteq> ids \<and> (\<forall>v\<in>el_votes e'. v \<noteq> i \<longrightarrow> Grant v i (el_term e') \<in> net)"
    if "el_role e' \<in> {Candidate, Leader}"
    using step that D(1,2) grants ids by cases (auto simp: el_defs)
  show "a = i \<and> 0 < t \<and> t \<le> el_term e'" if "Request a c t \<in> el_out e'" for a c t
    using step that D(3) [of a c t] by cases (auto simp: el_defs)
  show "Alien \<notin> el_out e'" using step D(5) by cases (auto simp: el_defs)
  show "a = i \<and> 0 < t \<and> c \<in> ids \<and> Request c i t \<in> net \<and> stands e' t c" if g: "Grant a c t \<in> el_out e'" for a c t
  proof (cases "Grant a c t \<in> el_out e")
    case True
    moreover have "e' \<noteq> el_restart e" using g by (auto simp: el_restart_def)
    ultimately show ?thesis using D(4) stands_step [OF step ids(2)] by blast
  next
    case False
    from el_out_step [OF step g False] have n: "a = i" "t = el_term e" "e' = el_grant i c e"
      "el_role e = Follower" "Request c i (el_term e) \<in> net" by auto
    with reqs [OF n(5)] show ?thesis by (simp add: el_grant_def stands_def)
  qed
qed

lemma stands_saved_step:
  assumes "el_step ids net i e e'" "el_ok ids net i e" "stands e t c" "stands_saved e t c"
  shows "stands_saved e' t c"
  using assms(1,3,4) el_ok_D(1) [OF assms(2)]
  by (cases rule: el_step.cases) (auto simp: el_defs stands_def stands_saved_def)

lemma sterm_step:
  assumes "el_step ids net i e e'" "el_ok ids net i e"
  shows "el_sterm e \<le> el_sterm e'"
  using assms(1) el_ok_D(1) [OF assms(2)] by (cases rule: el_step.cases) (auto simp: el_defs)

lemma net_ok_step:
  assumes "el_step ids net i (nodes i) e'" "el_ok ids net i (nodes i)" "net_ok ids net nodes" "0 \<notin> ids"
  shows "net_ok ids net (nodes(i := e'))"
proof -
  have req: "a \<in> ids \<and> 0 < t \<and> t \<le> el_sterm ((nodes(i := e')) a)" if "Request a c t \<in> net" for a c t
    using assms(3) that sterm_step [OF assms(1,2)] by (auto simp: net_ok_def dest: order_trans)
  have "a \<in> ids \<and> c \<in> ids \<and> Request c a t \<in> net \<and>
      stands ((nodes(i := e')) a) t c \<and> stands_saved ((nodes(i := e')) a) t c" if "Grant a c t \<in> net" for a c t
  proof -
    from assms(3) that have g: "a \<in> ids" "c \<in> ids" "Request c a t \<in> net" "stands (nodes a) t c" "stands_saved (nodes a) t c"
      by (simp_all add: net_ok_def)
    then show ?thesis
      using stands_step [OF assms(1,4)] stands_saved_step [OF assms(1,2)] by auto
  qed
  with req assms(3) show ?thesis by (simp add: net_ok_def)
qed

subsection \<open>One vote per term\<close>

lemma grant_stands:
  assumes "el_ok ids net i e" "net_ok ids net nodes" "nodes i = e" "Grant i c t \<in> net \<union> el_out e"
  shows "stands e t c \<and> c \<in> ids"
  using assms by (auto simp: el_ok_def net_ok_def)

lemma single_votes_step:
  assumes step: "el_step ids net i (nodes i) e'" and ok: "el_ok ids net i (nodes i)" "net_ok ids net nodes"
    and single: "single_votes ids net nodes" and ids: "0 \<notin> ids" "i \<in> ids"
  shows "single_votes ids net (nodes(i := e'))"
proof -
  let ?e = "nodes i"
  have old: "c = c'" if "Grant i c t \<in> net \<union> el_out ?e" "Grant i c' t \<in> net \<union> el_out ?e" for c c' t
    using single ids(2) that by (auto simp: single_votes_def)
  have fresh: "c = c'" if "Grant i c t \<in> el_out e'" "Grant i c t \<notin> el_out ?e" "Grant i c' t \<in> net \<union> el_out ?e" for c c' t
  proof -
    from el_out_step [OF step that(1,2)] have n: "t = el_term ?e" "el_role ?e = Follower" "el_vote ?e = 0 \<or> el_vote ?e = c"
      by auto
    from grant_stands [OF ok refl that(3)] have "stands ?e t c'" "c' \<in> ids" by auto
    with n ids(1) show ?thesis by (auto simp: stands_def)
  qed
  have both: "c = c'" if "Grant i c t \<in> el_out e'" "Grant i c t \<notin> el_out ?e" "Grant i c' t \<in> el_out e'" "Grant i c' t \<notin> el_out ?e" for c c' t
    using step that by (cases rule: el_step.cases) (auto simp: el_defs)
  have "c = c'" if "Grant i c t \<in> net \<union> el_out e'" "Grant i c' t \<in> net \<union> el_out e'" for c c' t
    using that old [of c t c'] fresh [of c t c'] fresh [of c' t c] both [of c t c'] by blast
  moreover have "c = c'" if "a \<in> ids" "a \<noteq> i" "Grant a c t \<in> net \<union> el_out (nodes a)" "Grant a c' t \<in> net \<union> el_out (nodes a)"
    for a c c' t using single that by (simp add: single_votes_def) blast
  ultimately show ?thesis unfolding single_votes_def fun_upd_apply by (smt (verit) Un_iff)
qed

subsection \<open>Leaders\<close>

lemma elected_mono:
  assumes "elected ids net nodes t i" "\<And>c. Grant i c t \<in> ms \<Longrightarrow> Grant i c t \<in> el_out (nodes i)"
  shows "elected ids (net \<union> ms) nodes t i"
proof -
  have "c = i" if "ep_quorum ids \<noteq> 1" "Grant i c t \<in> (net \<union> ms) \<union> el_out (nodes i)" for c
    using that assms unfolding elected_def by blast
  then show ?thesis using assms(1) unfolding elected_def by (meson UnI1)
qed

lemma elected_step:
  assumes step: "el_step ids net j (nodes j) e'" and ok: "el_ok ids net j (nodes j)" and ids: "0 \<notin> ids"
    and el: "elected ids net nodes t i"
  shows "elected ids net (nodes(j := e')) t i"
proof (cases "i = j \<and> ep_quorum ids \<noteq> 1")
  case False
  with el show ?thesis by (auto simp: elected_def)
next
  case True
  let ?e = "nodes i"
  from el True have e: "t < el_term ?e \<or> t = el_term ?e \<and> el_vote ?e = i \<and> el_role ?e \<noteq> Candidate"
    "stands_saved ?e t i" "i \<in> ids" by (auto simp: elected_def)
  have "t < el_term e' \<or> t = el_term e' \<and> el_vote e' = i \<and> el_role e' \<noteq> Candidate"
    using step True e ids by (cases rule: el_step.cases) (auto simp: el_defs stands_saved_def)
  moreover have "stands_saved e' t i"
    using step True e el_ok_D(1) [OF ok] by (cases rule: el_step.cases) (auto simp: el_defs stands_saved_def)
  moreover have "c = i" if "Grant i c t \<in> el_out e'" "Grant i c t \<notin> el_out ?e" for c
  proof -
    from True have "nodes i = nodes j" "i = j" by simp_all
    with el_out_step [OF step, of "Grant i c t"] that have "t = el_term ?e" "el_vote ?e = 0 \<or> el_vote ?e = c" by auto
    with e ids show ?thesis by auto
  qed
  ultimately show ?thesis using el True unfolding elected_def by (simp add: ball_Un) blast
qed

lemma elected_new:
  assumes ok: "el_ok ids net i (nodes i)" and nok: "net_ok ids net nodes" and lead: "el_role (nodes i) = Leader"
    and size: "el_counted ids (nodes i)" and ids: "i \<in> ids"
  shows "elected ids net nodes (el_term (nodes i)) i"
proof (cases "ep_quorum ids = 1")
  case True
  with ids show ?thesis by (simp add: elected_def)
next
  case False
  let ?e = "nodes i" and ?t = "el_term (nodes i)"
  from ok lead have e: "el_vote ?e = i" "el_sterm ?e \<le> ?t" "el_sterm ?e = ?t \<longrightarrow> el_svote ?e = i" "i \<in> el_votes ?e"
    "el_votes ?e \<subseteq> ids" "\<forall>v\<in>el_votes ?e. v \<noteq> i \<longrightarrow> Grant v i ?t \<in> net" by (auto simp: el_ok_def)
  from size lead False have q: "ep_quorum ids \<le> card (el_votes ?e)" by (simp add: el_counted_def)
  have "el_votes ?e \<noteq> {i}" using q False by (auto simp: ep_quorum_def)
  then obtain v where v: "v \<in> el_votes ?e" "v \<noteq> i" using e(4) by blast
  with e have "Grant v i ?t \<in> net" by blast
  with nok have "Request i v ?t \<in> net" by (auto simp: net_ok_def)
  with nok have "?t \<le> el_sterm ?e" by (auto simp: net_ok_def)
  with e have saved: "stands_saved ?e ?t i" by (auto simp: stands_saved_def)
  have "c = i" if "Grant i c ?t \<in> net \<union> el_out ?e" for c
    using grant_stands [OF ok nok refl that] lead by (auto simp: stands_def)
  then show ?thesis
    unfolding elected_def using e q saved lead ids by (intro conjI impI exI [of _ "el_votes ?e"]) simp_all
qed

lemma el_counted_step:
  assumes "el_step ids net i e e'" "el_counted ids e" "net_ok ids net nodes" "i \<in> ids"
  shows "el_counted ids e'"
proof -
  have req: "c \<in> ids" if "Request c v t \<in> net" for c v t using assms(3) that by (auto simp: net_ok_def)
  from assms(1,2,4) show ?thesis
    by cases (auto simp: el_counted_def el_defs dest: req split: if_splits)
qed

subsection \<open>The invariant of the protocol\<close>

lemma ep_okD:
  assumes "ep_ok ids s"
  shows "i \<in> ids \<Longrightarrow> el_ok ids (ep_net s) i (ep_node s i)" "i \<in> ids \<Longrightarrow> el_counted ids (ep_node s i)"
    "net_ok ids (ep_net s) (ep_node s)" "single_votes ids (ep_net s) (ep_node s)"
    "(t, i) \<in> ep_won s \<Longrightarrow> elected ids (ep_net s) (ep_node s) t i"
  using assms by (auto simp: ep_ok_def)

lemma ep_ok_put:
  assumes "\<forall>j\<in>ids. el_ok ids (ep_net s \<union> ms) j (((ep_node s)(i := e)) j) \<and> el_counted ids (((ep_node s)(i := e)) j)"
    and "net_ok ids (ep_net s \<union> ms) ((ep_node s)(i := e))"
    and "single_votes ids (ep_net s \<union> ms) ((ep_node s)(i := e))"
    and "\<forall>(t, j)\<in>ep_won s. elected ids (ep_net s \<union> ms) ((ep_node s)(i := e)) t j"
    and "i \<in> ids"
  shows "ep_ok ids (ep_put i e ms s)"
proof -
  have "elected ids (ep_net s \<union> ms) ((ep_node s)(i := e)) (el_term e) i" if "el_role e = Leader"
  proof -
    from assms(1,5) have "el_ok ids (ep_net s \<union> ms) i (((ep_node s)(i := e)) i)" "el_counted ids (((ep_node s)(i := e)) i)"
      by blast+
    from elected_new [OF this(1) assms(2) _ this(2) assms(5)] that show ?thesis by (simp add: fun_upd_def)
  qed
  with assms show ?thesis by (auto simp: ep_ok_def ep_put_def)
qed

lemma ep_ok_act:
  assumes ok: "ep_ok ids s" and i: "i \<in> ids" and ids: "0 \<notin> ids"
    and step: "el_step ids (ep_net s) i (ep_node s i) e"
  shows "ep_ok ids (ep_put i e {} s)"
proof (rule ep_ok_put)
  note D = ep_okD [OF ok]
  have e: "el_ok ids (ep_net s) i e" "el_counted ids e"
    using el_ok_step [OF step D(1) [OF i] D(3) i ids] el_counted_step [OF step D(2) [OF i] D(3) i] by simp_all
  show "\<forall>j\<in>ids. el_ok ids (ep_net s \<union> {}) j (((ep_node s)(i := e)) j) \<and> el_counted ids (((ep_node s)(i := e)) j)"
    using D(1,2) e by simp
  show "net_ok ids (ep_net s \<union> {}) ((ep_node s)(i := e))"
    using net_ok_step [OF step D(1) [OF i] D(3) ids] by simp
  show "single_votes ids (ep_net s \<union> {}) ((ep_node s)(i := e))"
    using single_votes_step [OF step D(1) [OF i] D(3,4) ids i] by simp
  show "\<forall>(t, j)\<in>ep_won s. elected ids (ep_net s \<union> {}) ((ep_node s)(i := e)) t j"
    using elected_step [OF step D(1) [OF i] ids D(5)] by auto
qed (rule i)

lemma ep_ok_send:
  assumes ok: "ep_ok ids s" and i: "i \<in> ids" and ms: "ms \<subseteq> el_out (ep_node s i)"
    and saved: "el_term (ep_node s i) = 0 \<or>
      el_sterm (ep_node s i) = el_term (ep_node s i) \<and> el_svote (ep_node s i) = el_vote (ep_node s i)"
  shows "ep_ok ids (ep_put i (ep_node s i) ms s)"
proof (rule ep_ok_put)
  note D = ep_okD [OF ok] and O = el_ok_D [OF ep_okD(1) [OF ok i]]
  let ?e = "ep_node s i"
  have req: "a = i \<and> 0 < t \<and> t \<le> el_sterm ?e" if "Request a c t \<in> ms" for a c t
    using O(3) [of a c t] that ms saved by auto
  have gr: "a = i \<and> c \<in> ids \<and> Request c i t \<in> ep_net s \<and> stands ?e t c \<and> stands_saved ?e t c" if "Grant a c t \<in> ms" for a c t
    using O(4) [of a c t] that ms saved by (auto simp: stands_def stands_saved_def)
  have al: "Alien \<notin> ms" using O(5) ms by blast
  show "\<forall>j\<in>ids. el_ok ids (ep_net s \<union> ms) j (((ep_node s)(i := ?e)) j) \<and> el_counted ids (((ep_node s)(i := ?e)) j)"
    using D(1,2) el_ok_mono by simp
  have req': "a \<in> ids \<and> 0 < t \<and> t \<le> el_sterm (ep_node s a)" if "Request a c t \<in> ep_net s \<union> ms" for a c t
    using D(3) req i that by (auto simp: net_ok_def)
  have gr': "a \<in> ids \<and> c \<in> ids \<and> Request c a t \<in> ep_net s \<union> ms \<and> stands (ep_node s a) t c \<and> stands_saved (ep_node s a) t c"
    if "Grant a c t \<in> ep_net s \<union> ms" for a c t
    using that
  proof
    assume "Grant a c t \<in> ep_net s"
    with D(3) show ?thesis by (simp add: net_ok_def)
  next
    assume "Grant a c t \<in> ms"
    from gr [OF this] i show ?thesis by simp
  qed
  show "net_ok ids (ep_net s \<union> ms) ((ep_node s)(i := ?e))"
    unfolding net_ok_def fun_upd_triv using req' gr' al D(3) by (simp add: net_ok_def)
  have sub: "Grant a c t \<in> el_out (ep_node s a)" if "Grant a c t \<in> ms" for a c t
    using that gr ms by blast
  then show "single_votes ids (ep_net s \<union> ms) ((ep_node s)(i := ?e))"
    using D(4) unfolding single_votes_def fun_upd_triv by (metis Un_iff)
  show "\<forall>(t, j)\<in>ep_won s. elected ids (ep_net s \<union> ms) ((ep_node s)(i := ?e)) t j"
    unfolding fun_upd_triv by (clarify, rule elected_mono [OF D(5) sub])
qed (rule i)

lemma ep_ok_step: "ep_step ids s s' \<Longrightarrow> 0 \<notin> ids \<Longrightarrow> ep_ok ids s \<Longrightarrow> ep_ok ids s'"
  by (induction rule: ep_step.induct) (simp_all add: ep_ok_act ep_ok_send)

lemma ep_ok_init: "ep_ok ids ep_init"
  by (auto simp: ep_ok_def ep_init_def el_ok_def el_counted_def net_ok_def single_votes_def)

section \<open>At most one leader per term\<close>

lemma quorums_meet:
  assumes "finite ids" "P \<subseteq> ids" "Q \<subseteq> ids" "ep_quorum ids \<le> card P" "ep_quorum ids \<le> card Q"
  shows "\<exists>v. v \<in> P \<and> v \<in> Q"
proof (rule ccontr)
  assume "\<nexists>v. v \<in> P \<and> v \<in> Q"
  then have "P \<inter> Q = {}" by blast
  moreover have "finite P" "finite Q" using assms finite_subset by blast+
  ultimately have "card P + card Q = card (P \<union> Q)" by (simp add: card_Un_disjoint)
  also have "\<dots> \<le> card ids" using assms by (intro card_mono) auto
  finally show False using assms(4,5) by (simp add: ep_quorum_def)
qed

lemma single_node: "finite ids \<Longrightarrow> ep_quorum ids = 1 \<Longrightarrow> a \<in> ids \<Longrightarrow> b \<in> ids \<Longrightarrow> a = b"
  using card_le_Suc0_iff_eq [of ids] by (simp add: ep_quorum_def div_eq_0_iff)

lemma one_leader:
  assumes ok: "ep_ok ids s" and fin: "finite ids" and a: "(t, a) \<in> ep_won s" and b: "(t, b) \<in> ep_won s"
  shows "a = b"
proof (cases "ep_quorum ids = 1")
  case True
  with ep_okD(5) [OF ok a] ep_okD(5) [OF ok b] single_node [OF fin True] show ?thesis by (auto simp: elected_def)
next
  case False
  let ?N = "ep_net s"
  obtain P where P: "P \<subseteq> ids" "ep_quorum ids \<le> card P" "\<forall>v\<in>P. v \<noteq> a \<longrightarrow> Grant v a t \<in> ?N"
    and A: "\<forall>c. Grant a c t \<in> ?N \<longrightarrow> c = a"
    using ep_okD(5) [OF ok a] False by (auto simp: elected_def)
  obtain Q where Q: "Q \<subseteq> ids" "ep_quorum ids \<le> card Q" "\<forall>v\<in>Q. v \<noteq> b \<longrightarrow> Grant v b t \<in> ?N"
    and B: "\<forall>c. Grant b c t \<in> ?N \<longrightarrow> c = b"
    using ep_okD(5) [OF ok b] False by (auto simp: elected_def)
  obtain v where v: "v \<in> P" "v \<in> Q" using quorums_meet [OF fin P(1) Q(1) P(2) Q(2)] by blast
  show ?thesis
  proof (rule ccontr)
    assume "a \<noteq> b"
    then have "v \<noteq> a" using v(2) Q(3) A by metis
    have "v \<noteq> b" using v(1) P(3) B \<open>a \<noteq> b\<close> by metis
    with v P(3) Q(3) \<open>v \<noteq> a\<close> have "Grant v a t \<in> ?N" "Grant v b t \<in> ?N" by blast+
    moreover have "v \<in> ids" using v P(1) by blast
    ultimately show False using ep_okD(4) [OF ok] \<open>a \<noteq> b\<close> by (simp add: single_votes_def)
  qed
qed

end
