(* ===== verification/Raw_Node_Election.thy ===== *)
theory Raw_Node_Election
  imports Raw_Node Election_Protocol
begin

text \<open>
  What the operations of \<^verbatim>\<open>RawNode\<close> do to the election state: most leave it alone, and every
  \<open>tick\<close> and \<open>step\<close> is a run of steps of the abstract protocol.
\<close>

section \<open>The election state of a node\<close>

definition vote_view :: "Message \<Rightarrow> VoteMsg option" where
  "vote_view m =
     (case msg_type m of
        MsgVote \<Rightarrow> Some (Request (msg_from m) (msg_to m) (msg_term m))
      | MsgVoteResp \<Rightarrow> if msg_reject m then None else Some (Grant (msg_from m) (msg_to m) (msg_term m))
      | MsgPreVote \<Rightarrow> Some Alien
      | MsgPreVoteResp \<Rightarrow> Some Alien
      | MsgTimeoutNow \<Rightarrow> Some Alien
      | _ \<Rightarrow> None)"

definition views :: "Message list \<Rightarrow> VoteMsg set" where
  "views ms = {v. \<exists>m\<in>set ms. vote_view m = Some v}"

lemma views_simps [simp]:
  "views [] = {}" "views (ms @ ms') = views ms \<union> views ms'"
  "views (m # ms) = set_option (vote_view m) \<union> views ms"
  by (auto simp: views_def elem_set)

lemma views_mono: "set ms \<subseteq> set ms' \<Longrightarrow> views ms \<subseteq> views ms'"
  by (auto simp: views_def)

definition el_fields :: "RawNode \<Rightarrow> nat \<times> nat list \<times> nat \<times> nat \<times> Role \<times> nat list \<times> VoteMsg set" where
  "el_fields n = (rn_id n, rn_voters n, rn_term n, rn_vote n, rn_role n, rn_votes n, views (rn_msgs n))"

definition quiet :: "RawNode \<Rightarrow> RawNode \<Rightarrow> bool" where
  "quiet n n' \<longleftrightarrow> el_fields n' = el_fields n"

lemma quiet_refl [simp]: "quiet n n"
  by (simp add: quiet_def)

lemma quiet_trans: "quiet a b \<Longrightarrow> quiet b c \<Longrightarrow> quiet a c"
  by (simp add: quiet_def)

lemma quiet_for_each:
  assumes "\<And>x s s'. f x s = Some s' \<Longrightarrow> quiet s s'"
  shows "for_each f xs s = Some s' \<Longrightarrow> quiet s s'"
proof (induction xs arbitrary: s)
  case (Cons x xs)
  then obtain s1 where "f x s = Some s1" "for_each f xs s1 = Some s'" by (auto split: Option.bind_splits)
  with Cons.IH assms quiet_trans show ?case by blast
qed simp

lemma quiet_fold:
  assumes "\<And>x s. quiet s (f x s)"
  shows "quiet s (fold f xs s)"
proof (induction xs arbitrary: s)
  case (Cons x xs)
  from quiet_trans [OF assms Cons.IH] show ?case by simp
qed simp

section \<open>Operations that leave it alone\<close>

lemmas el_simps = quiet_def el_fields_def rn_send_def pr_put_def rn_new_msg_def new_Message_def vote_view_def

lemma quiet_pr_put [simp]: "quiet n (pr_put k p n)"
  by (simp add: el_simps)

lemma quiet_record [simp]:
  "quiet n (n\<lparr>rn_log := l\<rparr>)" "quiet n (n\<lparr>rn_pr := p\<rparr>)" "quiet n (n\<lparr>rn_readOnly := r\<rparr>)"
  "quiet n (n\<lparr>rn_readStates := rs\<rparr>)" "quiet n (n\<lparr>rn_readRequestors := q\<rparr>)" "quiet n (n\<lparr>rn_tickCount := c\<rparr>)"
  "quiet n (n\<lparr>rn_lead := d\<rparr>)"
  by (simp_all add: el_simps)

lemma vote_view_update [simp]:
  "vote_view (m\<lparr>msg_logTerm := a\<rparr>) = vote_view m" "vote_view (m\<lparr>msg_index := a\<rparr>) = vote_view m"
  "vote_view (m\<lparr>msg_commit := a\<rparr>) = vote_view m" "vote_view (m\<lparr>msg_entries := es\<rparr>) = vote_view m"
  "vote_view (m\<lparr>msg_snapshot := sn\<rparr>) = vote_view m" "vote_view (m\<lparr>msg_context := cx\<rparr>) = vote_view m"
  "vote_view (m\<lparr>msg_rejectHint := a\<rparr>) = vote_view m"
  by (simp_all add: vote_view_def split: MessageType.split)

lemma vote_view_new:
  "vote_view (rn_new_msg n t to) =
     (case t of MsgVote \<Rightarrow> Some (Request (rn_id n) to (rn_term n))
      | MsgVoteResp \<Rightarrow> Some (Grant (rn_id n) to (rn_term n))
      | MsgPreVote \<Rightarrow> Some Alien | MsgPreVoteResp \<Rightarrow> Some Alien | MsgTimeoutNow \<Rightarrow> Some Alien | _ \<Rightarrow> None)"
  by (simp add: vote_view_def rn_new_msg_def new_Message_def split: MessageType.split)

lemma quiet_send: "vote_view m = None \<Longrightarrow> quiet n (rn_send n m)"
  by (simp add: quiet_def el_fields_def rn_send_def)

lemma quiet_send_after: "quiet n n' \<Longrightarrow> vote_view m = None \<Longrightarrow> quiet n (rn_send n' m)"
  using quiet_trans quiet_send by blast

lemma quiet_sendSnapshot: "quiet n (rn_sendSnapshot S n to)"
  by (auto simp: rn_sendSnapshot_def Let_def vote_view_new intro!: quiet_send_after split: option.split)

lemma quiet_sendAppend: "rn_sendAppend S n to = Some n' \<Longrightarrow> quiet n n'"
  unfolding rn_sendAppend_def Let_def
  by (auto simp: quiet_sendSnapshot vote_view_new intro!: quiet_send_after
      split: option.splits if_split_asm Option.bind_splits)

lemma quiet_broadcastAppend: "rn_broadcastAppend S n = Some n' \<Longrightarrow> quiet n n'"
  unfolding rn_broadcastAppend_def by (erule quiet_for_each [rotated]) (auto split: if_splits dest: quiet_sendAppend)

lemma quiet_broadcastHeartbeat: "quiet n (rn_broadcastHeartbeat n)"
  unfolding rn_broadcastHeartbeat_def by (rule quiet_fold) (simp add: rn_sendHeartbeat_def el_simps)

lemma quiet_readHeartbeats: "quiet n (rn_readHeartbeats n ctx)"
  unfolding rn_readHeartbeats_def by (rule quiet_fold) (simp add: el_simps)

lemma quiet_maybeCommit: "rn_maybeCommit S n = Some (b, n') \<Longrightarrow> quiet n n'"
  by (auto simp: rn_maybeCommit_def Let_def split: if_splits Option.bind_splits)

lemma quiet_restore: "quiet n (rn_restore n snap)"
  by (simp add: rn_restore_def el_simps)

lemma quiet_propose: "rn_propose S n d = Some (b, n') \<Longrightarrow> quiet n n'"
  by (auto simp: rn_propose_def Let_def split: if_splits Option.bind_splits dest!: quiet_broadcastAppend)
    (auto simp: el_simps)

lemma quiet_readIndex: "quiet n (snd (rn_readIndex n ctx))"
  using quiet_trans [OF quiet_record(3) quiet_readHeartbeats] by (auto simp: rn_readIndex_def Let_def)

lemma quiet_bindE:
  assumes "Option.bind x f = Some n'" "\<And>a. x = Some a \<Longrightarrow> f a = Some n' \<Longrightarrow> quiet n n'"
  shows "quiet n n'"
  using assms by (auto split: Option.bind_splits)

lemma quiet_appResp:
  assumes "Option.bind (rn_maybeCommit S n) (\<lambda>(moved, n).
      Option.bind (if moved then rn_broadcastAppend S n else Some n) (\<lambda>n.
      if P n then rn_sendAppend S n to else Some n)) = Some n'"
  shows "quiet n n'"
proof -
  from assms obtain b n1 n2 where s: "rn_maybeCommit S n = Some (b, n1)"
    "(if b then rn_broadcastAppend S n1 else Some n1) = Some n2"
    "(if P n2 then rn_sendAppend S n2 to else Some n2) = Some n'"
    by (auto split: Option.bind_splits)
  have "quiet n n1" by (rule quiet_maybeCommit [OF s(1)])
  moreover have "quiet n1 n2" using s(2) quiet_broadcastAppend by (auto split: if_splits)
  moreover have "quiet n2 n'" using s(3) quiet_sendAppend by (auto split: if_splits)
  ultimately show ?thesis using quiet_trans by blast
qed

lemma quiet_recvReadAck: "quiet n (rn_recvReadAck n m)"
  by (auto simp: rn_recvReadAck_def Let_def case_prod_unfold el_simps split: option.split)

lemma quiet_stepLeader:
  assumes "rn_stepLeader S n m = Some n'"
  shows "quiet n n'"
proof (cases "msg_type m")
  case MsgPropose
  with assms quiet_propose show ?thesis by (auto simp: rn_stepLeader_def)
next
  case MsgAppResp
  show ?thesis
  proof (cases "map_of (rn_pr n) (msg_from m)")
    case None
    with assms MsgAppResp show ?thesis by (simp add: rn_stepLeader_def)
  next
    case (Some pr)
    then show ?thesis
      using assms MsgAppResp quiet_trans [OF quiet_pr_put quiet_sendAppend] quiet_trans [OF quiet_pr_put quiet_appResp]
      by (auto simp: rn_stepLeader_def Let_def split: if_split_asm)
  qed
next
  case MsgHeartbeatResp
  show ?thesis
  proof (cases "map_of (rn_pr n) (msg_from m)")
    case None
    with assms MsgHeartbeatResp show ?thesis by (simp add: rn_stepLeader_def)
  next
    case (Some pr)
    with assms MsgHeartbeatResp obtain n1 where
      n1: "(if pr_state pr = Replicate \<or> pr_state pr = Probe \<and> \<not> pr_paused pr
            then rn_sendAppend S n (msg_from m) else Some n) = Some n1" "n' = rn_recvReadAck n1 m"
      unfolding rn_stepLeader_def by (auto simp only: MessageType.case option.case bind_eq_Some_conv option.inject)
    then have "quiet n n1" by (auto split: if_split_asm dest: quiet_sendAppend)
    with n1(2) quiet_recvReadAck quiet_trans show ?thesis by blast
  qed
next
  case MsgReadIndex
  with assms show ?thesis
    using quiet_readHeartbeats
    by (auto simp: rn_stepLeader_def Let_def el_simps split: if_split_asm)
qed (use assms in \<open>auto simp: rn_stepLeader_def\<close>)

section \<open>Role changes\<close>

lemma el_fields_becomeFollower:
  "el_fields (rn_becomeFollower n t l) = (rn_id n, rn_voters n, t, 0, Follower, [], views (rn_msgs n))"
  by (simp add: rn_becomeFollower_def rn_randomize_def el_fields_def Let_def)

lemma el_fields_becomeCandidate:
  "el_fields (rn_becomeCandidate n) =
     (rn_id n, rn_voters n, u64_add (rn_term n) 1, rn_id n, Candidate, [rn_id n], views (rn_msgs n))"
  by (simp add: rn_becomeCandidate_def rn_randomize_def el_fields_def Let_def)

lemma el_fields_becomeLeader:
  assumes "rn_becomeLeader S n = Some n'"
  shows "el_fields n' = (rn_id n, rn_voters n, rn_term n, rn_vote n, Leader, rn_votes n, views (rn_msgs n))"
proof -
  let ?n0 = "n\<lparr>rn_role := Leader, rn_lead := rn_id n, rn_tickCount := 0, rn_pr := []\<rparr>"
  let ?f = "\<lambda>k n. pr_put k (pr_reset (pr_new (rn_maxInflightMsgs n) (k \<in> set (rn_learners n))) (rl_lastIndex S (rn_log ?n0))) n"
  have q: "quiet ?n0 (fold ?f xs ?n0)" for xs by (rule quiet_fold) simp
  have "quiet (fold ?f (rn_voters ?n0) ?n0) n'"
    using assms unfolding rn_becomeLeader_def Let_def
    by (auto dest!: quiet_broadcastAppend split: if_split_asm) (auto simp: el_simps)
  with q have "quiet ?n0 n'" using quiet_trans by blast
  then show ?thesis by (simp add: quiet_def el_fields_def)
qed

lemma el_fields_requests:
  assumes "for_each (\<lambda>k n. if k = rn_id n then Some n
      else Option.bind (rl_lastTerm S (rn_log n)) (\<lambda>t.
        Some (rn_send n ((rn_new_msg n MsgVote k)\<lparr>msg_logTerm := t, msg_index := rl_lastIndex S (rn_log n)\<rparr>))))
      xs n = Some n'"
  shows "el_fields n' = (rn_id n, rn_voters n, rn_term n, rn_vote n, rn_role n, rn_votes n,
    views (rn_msgs n) \<union> {Request (rn_id n) j (rn_term n) | j. j \<in> set xs \<and> j \<noteq> rn_id n})"
  using assms
proof (induction xs arbitrary: n)
  case Nil
  then show ?case by (auto simp: el_fields_def)
next
  case (Cons x xs)
  show ?case
  proof (cases "x = rn_id n")
    case True
    with Cons show ?thesis by auto
  next
    case False
    with Cons.prems obtain t where
      r: "for_each (\<lambda>k n. if k = rn_id n then Some n
        else Option.bind (rl_lastTerm S (rn_log n)) (\<lambda>t.
          Some (rn_send n ((rn_new_msg n MsgVote k)\<lparr>msg_logTerm := t, msg_index := rl_lastIndex S (rn_log n)\<rparr>))))
        xs (rn_send n ((rn_new_msg n MsgVote x)\<lparr>msg_logTerm := t, msg_index := rl_lastIndex S (rn_log n)\<rparr>)) = Some n'"
      by (auto split: Option.bind_splits)
    from Cons.IH [OF r] False show ?thesis by (auto simp: rn_send_def vote_view_new)
  qed
qed

section \<open>Simulation\<close>

text \<open>The node \<open>i\<close> of the cluster \<open>ids\<close> and its abstract counterpart.\<close>

definition sim_node :: "nat set \<Rightarrow> nat \<Rightarrow> RawNode \<Rightarrow> Elector \<Rightarrow> bool" where
  "sim_node ids i n e \<longleftrightarrow>
     rn_id n = i \<and> set (rn_voters n) = ids \<and> distinct (rn_voters n) \<and>
     el_term e = rn_term n \<and> el_vote e = rn_vote n \<and> el_role e = rn_role n \<and> rn_role n \<noteq> PreCandidate \<and>
     el_votes e = set (rn_votes n) \<and> distinct (rn_votes n) \<and> views (rn_msgs n) \<subseteq> el_out e"

text \<open>Moves of a node that neither save nor restart.\<close>

definition el_move :: "nat set \<Rightarrow> VoteMsg set \<Rightarrow> nat \<Rightarrow> Elector \<Rightarrow> Elector \<Rightarrow> bool" where
  "el_move ids net i e e' \<longleftrightarrow>
     el_step ids net i e e' \<and> el_sterm e' = el_sterm e \<and> el_svote e' = el_svote e \<and> el_out e \<subseteq> el_out e'"

abbreviation el_moves :: "nat set \<Rightarrow> VoteMsg set \<Rightarrow> nat \<Rightarrow> Elector \<Rightarrow> Elector \<Rightarrow> bool" where
  "el_moves ids net i \<equiv> (el_move ids net i)\<^sup>*\<^sup>*"

lemma sim_quiet: "sim_node ids i n e \<Longrightarrow> quiet n n' \<Longrightarrow> sim_node ids i n' e"
  by (simp add: sim_node_def quiet_def el_fields_def)

lemma quorum_ids: "sim_node ids i n e \<Longrightarrow> rn_quorum n = ep_quorum ids"
  by (auto simp: sim_node_def rn_quorum_def ep_quorum_def distinct_card)

lemma sim_follow:
  assumes "sim_node ids i n e"
  shows "sim_node ids i (rn_becomeFollower n t l) (el_follow t e)"
  using assms el_fields_becomeFollower [of n t l] by (simp add: sim_node_def el_follow_def el_fields_def)

lemma sim_campaign:
  assumes sim: "sim_node ids i n e" and run: "rn_campaign S n = Some n'" and bound: "rn_term n < 2 ^ 64 - 1"
  shows "sim_node ids i n' (el_campaign ids i e)"
proof -
  let ?c = "rn_becomeCandidate n"
  have t: "u64_add (rn_term n) 1 = rn_term n + 1" using bound by (intro u64_add_small) simp
  note c = el_fields_becomeCandidate [of n, unfolded t]
  have q: "rn_quorum ?c = ep_quorum ids" using quorum_ids [OF sim] c by (simp add: rn_quorum_def el_fields_def)
  have "el_fields n' = (i, rn_voters n, rn_term n + 1, i, (if ep_quorum ids = 1 then Leader else Candidate), [i],
      views (rn_msgs n) \<union> (if ep_quorum ids = 1 then {} else {Request i j (rn_term n + 1) | j. j \<in> ids \<and> j \<noteq> i}))"
  proof (cases "ep_quorum ids = 1")
    case True
    with run q have "rn_becomeLeader S ?c = Some n'" by (simp add: rn_campaign_def Let_def)
    from el_fields_becomeLeader [OF this] True c sim show ?thesis by (simp add: el_fields_def sim_node_def)
  next
    case False
    with run q el_fields_requests [of S "rn_voters ?c" ?c n'] c sim show ?thesis
      by (simp add: rn_campaign_def Let_def el_fields_def sim_node_def)
  qed
  with sim show ?thesis by (auto simp: sim_node_def el_campaign_def el_fields_def)
qed

lemma sim_pollVote:
  assumes sim: "sim_node ids i n e" and run: "rn_pollVote S n v True = Some n'" and v: "v \<notin> set (rn_votes n)"
    and role: "rn_role n = Candidate"
  shows "sim_node ids i n' (el_count ids v e)"
proof -
  let ?n = "n\<lparr>rn_votes := rn_votes n @ [v]\<rparr>"
  have card: "card (insert v (set (rn_votes n))) = length (rn_votes n) + 1"
    using sim v by (simp add: sim_node_def distinct_card)
  have q: "rn_quorum ?n = ep_quorum ids" using quorum_ids [OF sim] by (simp add: rn_quorum_def)
  have "el_fields n' = (i, rn_voters n, rn_term n, rn_vote n,
      (if ep_quorum ids \<le> length (rn_votes n) + 1 then Leader else Candidate), rn_votes n @ [v], views (rn_msgs n))"
    using run v q role sim el_fields_becomeLeader [of S ?n n']
    by (auto simp: rn_pollVote_def Let_def el_fields_def sim_node_def split: if_split_asm)
  with sim v card show ?thesis by (simp add: sim_node_def el_count_def el_fields_def)
qed

section \<open>Stepping\<close>

lemma stepFollower_other:
  assumes "rn_stepFollower S n m = Some n'" "vote_view m \<noteq> Some Alien" "msg_type m \<noteq> MsgVote"
  shows "quiet n n'"
proof (cases "msg_type m")
  case MsgApp
  then obtain ok rl where a: "rl_maybeAppend S (rn_log n) (msg_index m) (msg_logTerm m) (msg_commit m) (msg_entries m) = Some (ok, rl)"
    using assms(1) by (auto simp: rn_stepFollower_def Let_def split: Option.bind_splits)
  with assms(1) MsgApp show ?thesis
    by (cases ok) (auto simp: rn_stepFollower_def Let_def el_simps)
next
  case MsgHeartbeat
  with assms(1) show ?thesis
    by (cases "rl_committed (rn_log n) < msg_commit m") (auto simp: rn_stepFollower_def Let_def el_simps)
next
  case MsgSnap
  with assms(1) show ?thesis by (auto simp: rn_stepFollower_def Let_def el_simps rn_restore_def)
qed (use assms in \<open>auto simp: rn_stepFollower_def Let_def el_simps split: if_split_asm\<close>)

lemma stepFollower_vote:
  assumes "rn_stepFollower S n m = Some n'" "msg_type m = MsgVote"
  shows "quiet n n' \<or> (rn_vote n = 0 \<or> rn_vote n = msg_from m) \<and>
    el_fields n' = (rn_id n, rn_voters n, rn_term n, msg_from m, rn_role n, rn_votes n,
      insert (Grant (rn_id n) (msg_from m) (rn_term n)) (views (rn_msgs n)))"
  using assms by (auto simp: rn_stepFollower_def Let_def el_simps split: Option.bind_splits if_split_asm)

lemma sim_stepFollower:
  assumes sim: "sim_node ids i n e" and run: "rn_stepFollower S n m = Some n'" and role: "rn_role n = Follower"
    and m: "vote_view m \<noteq> Some Alien" "msg_to m = i" "msg_term m = rn_term n" "\<forall>v. vote_view m = Some v \<longrightarrow> v \<in> net"
  shows "\<exists>e'. el_moves ids net i e e' \<and> sim_node ids i n' e' \<and> el_term e' = el_term e"
proof (cases "quiet n n'")
  case True
  with sim_quiet [OF sim] show ?thesis by blast
next
  case False
  with run m(1) have t: "msg_type m = MsgVote" using stepFollower_other by blast
  with stepFollower_vote [OF run] False have g: "rn_vote n = 0 \<or> rn_vote n = msg_from m"
    "el_fields n' = (rn_id n, rn_voters n, rn_term n, msg_from m, rn_role n, rn_votes n,
      insert (Grant (rn_id n) (msg_from m) (rn_term n)) (views (rn_msgs n)))" by auto
  have "Request (msg_from m) i (el_term e) \<in> net"
    using m t sim by (simp add: vote_view_def sim_node_def)
  then have "el_step ids net i e (el_grant i (msg_from m) e)"
    using g(1) sim role by (intro GiveVote) (auto simp: sim_node_def)
  then have "el_move ids net i e (el_grant i (msg_from m) e)"
    by (auto simp: el_move_def el_grant_def)
  moreover have "sim_node ids i n' (el_grant i (msg_from m) e)"
    using sim g(2) by (auto simp: sim_node_def el_grant_def el_fields_def)
  moreover have "el_term (el_grant i (msg_from m) e) = el_term e" by (simp add: el_grant_def)
  ultimately show ?thesis by blast
qed

lemma sim_stepCandidate:
  assumes sim: "sim_node ids i n e" and run: "rn_stepCandidate S n m = Some n'" and role: "rn_role n = Candidate"
    and m: "vote_view m \<noteq> Some Alien" "msg_to m = i" "msg_term m = rn_term n" "\<forall>v. vote_view m = Some v \<longrightarrow> v \<in> net"
  shows "\<exists>e'. el_moves ids net i e e' \<and> sim_node ids i n' e' \<and> el_term e' = el_term e"
proof -
  consider "msg_type m = MsgVoteResp" | "msg_type m \<in> {MsgApp, MsgHeartbeat, MsgSnap}" | "n' = n"
    using run m(1) by (auto simp: rn_stepCandidate_def Let_def vote_view_def split: if_split_asm)
  then show ?thesis
  proof cases
    case 1
    show ?thesis
    proof (cases "msg_from m \<in> set (rn_votes n) \<or> msg_reject m")
      case True
      with 1 run have "n' = n" by (auto simp: rn_stepCandidate_def rn_pollVote_def split: if_split_asm)
      with sim show ?thesis by blast
    next
      case False
      with 1 run have r: "rn_pollVote S n (msg_from m) True = Some n'" by (simp add: rn_stepCandidate_def)
      have "Grant (msg_from m) i (el_term e) \<in> net"
        using m 1 False sim by (simp add: vote_view_def sim_node_def)
      then have "el_step ids net i e (el_count ids (msg_from m) e)"
        using False role sim by (intro Count) (auto simp: sim_node_def)
      then have "el_move ids net i e (el_count ids (msg_from m) e)" by (simp add: el_move_def el_count_def)
      moreover have "sim_node ids i n' (el_count ids (msg_from m) e)"
        using sim_pollVote [OF sim r _ role] False by blast
      moreover have "el_term (el_count ids (msg_from m) e) = el_term e" by (simp add: el_count_def)
      ultimately show ?thesis by blast
    qed
  next
    case 2
    then have "rn_stepFollower S (rn_becomeFollower n (rn_term n) (msg_from m)) m = Some n'"
      using run m(3) by (auto simp: rn_stepCandidate_def Let_def)
    with 2 m(1) have "quiet (rn_becomeFollower n (rn_term n) (msg_from m)) n'"
      by (intro stepFollower_other) auto
    with sim_follow [OF sim] have "sim_node ids i n' (el_follow (rn_term n) e)" by (rule sim_quiet)
    moreover have "el_role e = Candidate" using role sim by (simp add: sim_node_def)
    then have "el_move ids net i e (el_follow (el_term e) e)"
      using Settle [of e ids net i] by (simp add: el_move_def el_follow_def)
    moreover have "el_term e = rn_term n" using sim by (simp add: sim_node_def)
    moreover have "el_term (el_follow (el_term e) e) = el_term e" by (simp add: el_follow_def)
    ultimately show ?thesis by (metis r_into_rtranclp)
  next
    case 3
    with sim show ?thesis by blast
  qed
qed

lemma sim_dispatch:
  assumes sim: "sim_node ids i n e" and t: "msg_term m = rn_term n"
    and run: "(case rn_role n of Leader \<Rightarrow> rn_stepLeader S n m | Candidate \<Rightarrow> rn_stepCandidate S n m
      | PreCandidate \<Rightarrow> rn_stepCandidate S n m | Follower \<Rightarrow> rn_stepFollower S n m) = Some n'"
    and m: "vote_view m \<noteq> Some Alien" "msg_to m = i" "\<forall>v. vote_view m = Some v \<longrightarrow> v \<in> net"
  shows "\<exists>e'. el_moves ids net i e e' \<and> sim_node ids i n' e' \<and> el_term e' = el_term e"
proof (cases "rn_role n")
  case Follower
  with sim_stepFollower [OF sim _ _ m(1,2) t m(3)] run show ?thesis by simp
next
  case Candidate
  with sim_stepCandidate [OF sim _ _ m(1,2) t m(3)] run show ?thesis by simp
next
  case Leader
  with run quiet_stepLeader sim_quiet [OF sim] show ?thesis by auto
next
  case PreCandidate
  with sim show ?thesis by (simp add: sim_node_def)
qed

lemma quiet_local:
  assumes "rn_step S n m = Some n'" "msg_type m \<in> {MsgUnreachable, MsgSnapStatus}"
  shows "quiet n n'"
  using assms quiet_trans [OF quiet_pr_put quiet_maybeCommit]
  by (auto simp: rn_step_def Let_def split: option.splits if_split_asm)

lemma sim_step:
  assumes sim: "sim_node ids i n e" and run: "rn_step S n m = Some n'"
    and m: "vote_view m \<noteq> Some Alien" "msg_to m = i" "\<forall>v. vote_view m = Some v \<longrightarrow> v \<in> net"
  shows "\<exists>e'. el_moves ids net i e e' \<and> sim_node ids i n' e' \<and> el_term e' \<le> max (el_term e) (msg_term m)"
proof -
  have pre: "msg_type m \<noteq> MsgPreVote" "msg_type m \<noteq> MsgPreVoteResp" using m(1) by (auto simp: vote_view_def)
  consider (loc) "msg_type m \<in> {MsgUnreachable, MsgSnapStatus}"
    | (stale) "msg_type m \<notin> {MsgUnreachable, MsgSnapStatus}" "msg_term m < rn_term n"
    | (same) "msg_type m \<notin> {MsgUnreachable, MsgSnapStatus}" "msg_term m = rn_term n"
    | (newer) "msg_type m \<notin> {MsgUnreachable, MsgSnapStatus}" "msg_term m > rn_term n" by fastforce
  then show ?thesis
  proof cases
    case loc
    with run have "quiet n n'" by (rule quiet_local)
    with sim_quiet [OF sim] show ?thesis by (metis max.cobounded1 rtranclp.rtrancl_refl)
  next
    case stale
    then have "quiet n n'"
      using run pre by (auto simp: rn_step_def Let_def el_simps split: if_split_asm)
    with sim_quiet [OF sim] show ?thesis by (metis max.cobounded1 rtranclp.rtrancl_refl)
  next
    case same
    with run have "(case rn_role n of Leader \<Rightarrow> rn_stepLeader S n m | Candidate \<Rightarrow> rn_stepCandidate S n m
        | PreCandidate \<Rightarrow> rn_stepCandidate S n m | Follower \<Rightarrow> rn_stepFollower S n m) = Some n'"
      by (simp add: rn_step_def Let_def)
    from sim_dispatch [OF sim same(2) this m] show ?thesis by auto
  next
    case newer
    let ?n = "rn_becomeFollower n (msg_term m) 0" and ?e = "el_follow (msg_term m) e"
    have t: "rn_term ?n = msg_term m" using el_fields_becomeFollower [of n "msg_term m" 0] by (simp add: el_fields_def)
    from newer run pre t have "(case rn_role ?n of Leader \<Rightarrow> rn_stepLeader S ?n m | Candidate \<Rightarrow> rn_stepCandidate S ?n m
        | PreCandidate \<Rightarrow> rn_stepCandidate S ?n m | Follower \<Rightarrow> rn_stepFollower S ?n m) = Some n'"
      by (simp add: rn_step_def Let_def)
    from sim_dispatch [OF sim_follow [OF sim] t [symmetric] this m] obtain e' where
      e': "el_moves ids net i ?e e'" "sim_node ids i n' e'" "el_term e' = el_term ?e" by blast
    have "el_move ids net i e ?e"
      using Follow [of e "msg_term m" ids net i] newer sim by (simp add: el_move_def sim_node_def el_follow_def)
    from converse_rtranclp_into_rtranclp [OF this e'(1)] have "el_moves ids net i e e'" .
    moreover have "el_term e' \<le> max (el_term e) (msg_term m)" using e'(3) by (simp add: el_follow_def)
    ultimately show ?thesis using e'(2) by blast
  qed
qed

lemma sim_tick:
  assumes sim: "sim_node ids i n e" and run: "rn_tick S n = Some (b, n')" and bound: "rn_term n < 2 ^ 64 - 1"
  shows "\<exists>e'. el_moves ids net i e e' \<and> sim_node ids i n' e' \<and> el_term e' \<le> el_term e + 1"
proof (cases "rn_role n = Leader")
  case True
  let ?n = "n\<lparr>rn_tickCount := (rn_tickCount n + 1) mod 2 ^ 32\<rparr>"
  have "quiet n ((rn_broadcastHeartbeat ?n)\<lparr>rn_tickCount := 0\<rparr>)"
    by (rule quiet_trans [OF quiet_trans [OF quiet_record(6) quiet_broadcastHeartbeat] quiet_record(6)])
  moreover have "n' = ?n \<or> n' = (rn_broadcastHeartbeat ?n)\<lparr>rn_tickCount := 0\<rparr>"
    using True run unfolding rn_tick_def Let_def by (simp only: if_True option.inject prod.inject split: if_split_asm) simp_all
  ultimately have "quiet n n'" using quiet_record(6) by metis
  with sim_quiet [OF sim] show ?thesis by (metis le_add1 rtranclp.rtrancl_refl)
next
  case False
  let ?n = "n\<lparr>rn_tickCount := (rn_tickCount n + 1) mod 2 ^ 32\<rparr>"
  have simn: "sim_node ids i ?n e" using sim_quiet [OF sim quiet_record(6)] .
  show ?thesis
  proof (cases "rn_tickCount ?n \<ge> rn_randomizedElectionTick ?n")
    case True
    with False run obtain n1 where n1: "rn_campaign S ?n = Some n1" "n' = n1\<lparr>rn_tickCount := 0\<rparr>"
      by (auto simp: rn_tick_def rn_tickElection_def Let_def split: Option.bind_splits)
    have "sim_node ids i n' (el_campaign ids i e)"
      unfolding n1(2) using sim_quiet [OF sim_campaign [OF simn n1(1)] quiet_record(6)] bound by simp
    moreover have "el_move ids net i e (el_campaign ids i e)"
      using Campaign [of e ids net i] False sim by (auto simp: el_move_def sim_node_def el_campaign_def)
    moreover have "el_term (el_campaign ids i e) \<le> el_term e + 1" by (simp add: el_campaign_def)
    ultimately show ?thesis by blast
  next
    case no: False
    with False run have "n' = ?n" by (auto simp: rn_tick_def rn_tickElection_def Let_def)
    with simn show ?thesis by (metis le_add1 rtranclp.rtrancl_refl)
  qed
qed

end
