(* ===== verification/Write_Ahead_Log.thy ===== *)
theory Write_Ahead_Log
  imports Raft_Log
begin

text \<open>
  The persistent log, \<^verbatim>\<open>app/storage/WriteAheadLog.cpp\<close>: an in-memory mirror and three files,
  \<^verbatim>\<open>log.bin\<close>, \<^verbatim>\<open>hardstate.bin\<close> and \<^verbatim>\<open>confstate.bin\<close>. A file is the bytes flushed to it; a
  missing \<^verbatim>\<open>log.bin\<close> is an empty one, since the constructor creates it, and the other two are \<open>None\<close> when
  missing. A process crash keeps the files and loses the rest. The mutex makes every operation atomic.
\<close>

section \<open>Reading and writing binary records\<close>

definition writeU8 :: "byte \<Rightarrow> byte list" where
  "writeU8 v = [v]"

definition writeU32 :: "nat \<Rightarrow> byte list" where
  "writeU32 v = le_bytes 4 (of_nat v :: u32)"

definition writeU64 :: "nat \<Rightarrow> byte list" where
  "writeU64 v = le_bytes 8 (of_nat v :: u64)"

text \<open>\<open>f.read\<close> into an object with bytes \<open>old\<close>: a short read overwrites a prefix and fails.\<close>

definition fread :: "nat \<Rightarrow> byte list \<Rightarrow> byte list \<Rightarrow> bool \<times> byte list \<times> byte list" where
  "fread n old bs = (n \<le> length bs, take n bs @ drop (length bs) old, drop n bs)"

definition readU8 :: "byte \<Rightarrow> byte list \<Rightarrow> bool \<times> byte \<times> byte list" where
  "readU8 old bs = (let (ok, b, r) = fread 1 [old] bs in (ok, hd b, r))"

definition readU32 :: "nat \<Rightarrow> byte list \<Rightarrow> bool \<times> nat \<times> byte list" where
  "readU32 old bs = (let (ok, b, r) = fread 4 (writeU32 old) bs in (ok, unat (le_word b :: u32), r))"

definition readU64 :: "nat \<Rightarrow> byte list \<Rightarrow> bool \<times> nat \<times> byte list" where
  "readU64 old bs = (let (ok, b, r) = fread 8 (writeU64 old) bs in (ok, unat (le_word b :: u64), r))"

definition writeEntry :: "Entry \<Rightarrow> byte list" where
  "writeEntry e =
     writeU64 (ent_term e) @ writeU64 (ent_index e) @ writeU8 (EntryType_to_u8 (ent_type e)) @
     writeU32 (length (ent_data e)) @ ent_data e"

text \<open>\<open>None\<close> is the result false, after which the callers do not use the object.\<close>

definition readEntry :: "byte list \<Rightarrow> (Entry \<times> byte list) option" where
  "readEntry f =
     (let (ok, t, f) = readU64 0 f in if \<not> ok then None else
      let (ok, i, f) = readU64 0 f in if \<not> ok then None else
      let (ok, ty, f) = readU8 0 f in if \<not> ok then None else
      let (ok, len, f) = readU32 0 f in if \<not> ok then None else
      let (ok, d, f) = fread len (replicate len 0) f in if len > 0 \<and> \<not> ok then None else
      Some (\<lparr>ent_term = t, ent_index = i, ent_type = EntryType_of_u8 ty, ent_data = d\<rparr>, f))"

definition writeHardState :: "HardState \<Rightarrow> byte list" where
  "writeHardState hs = writeU64 (hs_term hs) @ writeU64 (hs_vote hs) @ writeU64 (hs_commit hs)"

definition readHardState :: "byte list \<Rightarrow> HardState \<Rightarrow> bool \<times> HardState" where
  "readHardState f hs =
     (let (ok, v, f) = readU64 (hs_term hs) f; hs = hs\<lparr>hs_term := v\<rparr> in if \<not> ok then (False, hs) else
      let (ok, v, f) = readU64 (hs_vote hs) f; hs = hs\<lparr>hs_vote := v\<rparr> in if \<not> ok then (False, hs) else
      let (ok, v, f) = readU64 (hs_commit hs) f; hs = hs\<lparr>hs_commit := v\<rparr> in (ok, hs))"

definition writeIds :: "nat list \<Rightarrow> byte list" where
  "writeIds ids = writeU32 (length ids) @ concat (map writeU64 ids)"

fun readIds :: "nat list \<Rightarrow> byte list \<Rightarrow> bool \<times> nat list \<times> byte list" where
  "readIds [] f = (True, [], f)"
| "readIds (x # xs) f =
     (let (ok, v, f) = readU64 x f
      in if \<not> ok then (False, v # xs, f)
         else let (ok, vs, f) = readIds xs f in (ok, v # vs, f))"

definition vec_resize :: "'a \<Rightarrow> nat \<Rightarrow> 'a list \<Rightarrow> 'a list" where
  "vec_resize d n xs = take n xs @ replicate (n - length xs) d"

definition writeConfState :: "ConfState \<Rightarrow> byte list" where
  "writeConfState cs = writeIds (cs_nodes cs) @ writeIds (cs_learners cs)"

definition readConfState :: "byte list \<Rightarrow> ConfState \<Rightarrow> bool \<times> ConfState" where
  "readConfState f cs =
     (let (ok, n, f) = readU32 0 f in if \<not> ok then (False, cs) else
      let (ok, ids, f) = readIds (vec_resize 0 n (cs_nodes cs)) f; cs = cs\<lparr>cs_nodes := ids\<rparr> in
      if \<not> ok then (False, cs) else
      let (ok, n, f) = readU32 0 f in if \<not> ok then (False, cs) else
      let (ok, ids, f) = readIds (vec_resize 0 n (cs_learners cs)) f; cs = cs\<lparr>cs_learners := ids\<rparr> in (ok, cs))"

section \<open>State, construction and the read side\<close>

record Files =
  log_bin :: "byte list"
  hardstate_bin :: "byte list option"
  confstate_bin :: "byte list option"

record WriteAheadLog =
  wal_files :: Files
  wal_log :: "Entry list"
  wal_hardState :: HardState
  wal_confState :: ConfState
  wal_snapIndex :: nat
  wal_snapTerm :: nat

text \<open>The body of the loop of \<open>replay\<close>: grow the vector, then store.\<close>

definition replay_entry :: "Entry list \<Rightarrow> Entry \<Rightarrow> Entry list" where
  "replay_entry es e =
     (es @ replicate (ent_index e + 1 - length es) default_Entry)[ent_index e := e]"

lemma readEntry_shorter: "readEntry f = Some (e, f') \<Longrightarrow> length f' < length f"
  by (auto simp: readEntry_def readU64_def readU8_def readU32_def fread_def Let_def split: if_splits)

function replay_loop :: "Entry list \<Rightarrow> byte list \<Rightarrow> Entry list" where
  "replay_loop es f =
     (case readEntry f of None \<Rightarrow> es | Some (e, f') \<Rightarrow> replay_loop (replay_entry es e) f')"
  by auto
termination by (relation "measure (length \<circ> snd)") (auto simp: readEntry_shorter)

declare replay_loop.simps [simp del]

definition wal_replay :: "byte list \<Rightarrow> Entry list" where
  "wal_replay f = replay_loop [default_Entry] f"

definition wal_loadHardState :: "byte list option \<Rightarrow> HardState" where
  "wal_loadHardState f =
     (let hs = \<lparr>hs_term = 0, hs_vote = 0, hs_commit = 0\<rparr>
      in case f of None \<Rightarrow> hs | Some bs \<Rightarrow> snd (readHardState bs hs))"

definition wal_loadConfState :: "byte list option \<Rightarrow> ConfState" where
  "wal_loadConfState f =
     (let cs = \<lparr>cs_nodes = [], cs_learners = []\<rparr>
      in case f of None \<Rightarrow> cs | Some bs \<Rightarrow> snd (readConfState bs cs))"

definition wal_open :: "Files \<Rightarrow> WriteAheadLog" where
  "wal_open d =
     \<lparr>wal_files = d, wal_log = wal_replay (log_bin d),
      wal_hardState = wal_loadHardState (hardstate_bin d),
      wal_confState = wal_loadConfState (confstate_bin d),
      wal_snapIndex = 0, wal_snapTerm = 0\<rparr>"

definition wal_firstIndex :: "WriteAheadLog \<Rightarrow> nat" where
  "wal_firstIndex w = u64_add (wal_snapIndex w) 1"

definition wal_lastIndex :: "WriteAheadLog \<Rightarrow> nat" where
  "wal_lastIndex w = u64_sub (length (wal_log w)) 1"

text \<open>The loop of \<open>entries\<close> over the entries of the range.\<close>

fun wal_collect :: "nat \<Rightarrow> nat \<Rightarrow> Entry list \<Rightarrow> Entry list \<Rightarrow> Entry list" where
  "wal_collect maxSize sz res [] = res"
| "wal_collect maxSize sz res (e # es) =
     (let sz' = u64_add sz (sizeof_Entry + length (ent_data e))
      in if maxSize \<noteq> 0 \<and> sz' > maxSize \<and> res \<noteq> [] then res
         else wal_collect maxSize sz' (res @ [e]) es)"

definition wal_entries :: "WriteAheadLog \<Rightarrow> nat \<Rightarrow> nat \<Rightarrow> nat \<Rightarrow> Entry list option" where
  "wal_entries w lo hi maxSize =
     (if lo < wal_firstIndex w then None
      else if hi > u64_add (wal_lastIndex w) 1 then None
      else Some (wal_collect maxSize 0 [] (take (hi - lo) (drop lo (wal_log w)))))"

definition wal_term :: "WriteAheadLog \<Rightarrow> nat \<Rightarrow> nat option" where
  "wal_term w i =
     (if i < wal_firstIndex w \<or> i > wal_lastIndex w then None else Some (ent_term (wal_log w ! i)))"

definition wal_snapshot :: "WriteAheadLog \<Rightarrow> Snapshot" where
  "wal_snapshot w = \<lparr>snap_term = wal_snapTerm w, snap_index = wal_snapIndex w, snap_data = []\<rparr>"

definition wal_initialState :: "WriteAheadLog \<Rightarrow> HardState \<times> ConfState" where
  "wal_initialState w = (wal_hardState w, wal_confState w)"

text \<open>The object seen through its base class.\<close>

definition wal_view :: "WriteAheadLog \<Rightarrow> Storage" where
  "wal_view w =
     \<lparr>sto_initialState = wal_initialState w, sto_entries = wal_entries w, sto_term = wal_term w,
      sto_firstIndex = wal_firstIndex w, sto_lastIndex = wal_lastIndex w, sto_snapshot = wal_snapshot w\<rparr>"

section \<open>The write side\<close>

definition wal_rewrite :: "nat \<Rightarrow> Entry list \<Rightarrow> byte list" where
  "wal_rewrite snapIndex es = concat (map writeEntry (drop (snapIndex + 1) es))"

definition wal_appendNoSync :: "WriteAheadLog \<Rightarrow> Entry list \<Rightarrow> WriteAheadLog" where
  "wal_appendNoSync w ents =
     (if ents = [] then w
      else
        let first = ent_index (hd ents);
            w = (if first \<le> wal_lastIndex w
                 then let es = vec_resize default_Entry first (wal_log w)
                      in w\<lparr>wal_log := es,
                           wal_files := (wal_files w)\<lparr>log_bin := wal_rewrite (wal_snapIndex w) es\<rparr>\<rparr>
                 else w)
        in w\<lparr>wal_log := wal_log w @ ents,
             wal_files := (wal_files w)
               \<lparr>log_bin := log_bin (wal_files w) @ concat (map writeEntry ents)\<rparr>\<rparr>)"

text \<open>\<open>sync\<close> flushes once more: \<open>appendNoSync\<close> leaves nothing unflushed.\<close>

definition wal_sync :: "WriteAheadLog \<Rightarrow> WriteAheadLog" where
  "wal_sync w = w"

definition wal_append :: "WriteAheadLog \<Rightarrow> Entry list \<Rightarrow> WriteAheadLog" where
  "wal_append w ents = wal_sync (wal_appendNoSync w ents)"

definition wal_saveHardState :: "WriteAheadLog \<Rightarrow> HardState \<Rightarrow> WriteAheadLog" where
  "wal_saveHardState w hs =
     w\<lparr>wal_files := (wal_files w)\<lparr>hardstate_bin := Some (writeHardState hs)\<rparr>, wal_hardState := hs\<rparr>"

definition wal_saveConfState :: "WriteAheadLog \<Rightarrow> ConfState \<Rightarrow> WriteAheadLog" where
  "wal_saveConfState w cs =
     w\<lparr>wal_files := (wal_files w)\<lparr>confstate_bin := Some (writeConfState cs)\<rparr>, wal_confState := cs\<rparr>"

text \<open>\<open>None\<close>: the store to \<open>entries_[snap.index]\<close> is outside the vector.\<close>

definition wal_applySnapshot :: "WriteAheadLog \<Rightarrow> Snapshot \<Rightarrow> WriteAheadLog option" where
  "wal_applySnapshot w snap =
     (let es = (if snap_index snap < length (wal_log w)
                then vec_resize default_Entry (snap_index snap + 1) (wal_log w) else wal_log w);
          dummy = default_Entry\<lparr>ent_index := snap_index snap, ent_term := snap_term snap\<rparr>
      in if snap_index snap < length es
         then let es = es[snap_index snap := dummy]
              in Some (w\<lparr>wal_log := es,
                         wal_files := (wal_files w)\<lparr>log_bin := wal_rewrite (wal_snapIndex w) es\<rparr>,
                         wal_snapIndex := snap_index snap, wal_snapTerm := snap_term snap\<rparr>)
         else None)"

section \<open>Records read back\<close>

definition u64_ok :: "nat \<Rightarrow> bool" where
  "u64_ok v \<longleftrightarrow> v < 2 ^ 64"

definition entry_ok :: "Entry \<Rightarrow> bool" where
  "entry_ok e \<longleftrightarrow> u64_ok (ent_term e) \<and> u64_ok (ent_index e) \<and>
     ent_type e \<in> {Normal, ConfChange, ConfChangeV2} \<and> length (ent_data e) < 2 ^ 32"

definition hardState_ok :: "HardState \<Rightarrow> bool" where
  "hardState_ok hs \<longleftrightarrow> u64_ok (hs_term hs) \<and> u64_ok (hs_vote hs) \<and> u64_ok (hs_commit hs)"

lemma length_write [simp]:
  "length (writeU64 v) = 8" "length (writeU32 v) = 4" "length (writeU8 b) = 1"
  by (simp_all add: writeU64_def writeU32_def writeU8_def)

lemma readU64_write [simp]: "u64_ok v \<Longrightarrow> readU64 old (writeU64 v @ r) = (True, v, r)"
  by (simp add: readU64_def fread_def writeU64_def codec_simps u64_ok_def unat_of_nat)

lemma readU32_write [simp]: "v < 2 ^ 32 \<Longrightarrow> readU32 old (writeU32 v @ r) = (True, v, r)"
  by (simp add: readU32_def fread_def writeU32_def codec_simps unat_of_nat)

lemma readU8_write [simp]: "readU8 old (writeU8 b @ r) = (True, b, r)"
  by (simp add: readU8_def fread_def writeU8_def)

lemma readEntry_write [codec_simps]:
  "entry_ok e \<Longrightarrow> readEntry (writeEntry e @ r) = Some (e, r)"
  by (cases e) (auto simp: readEntry_def writeEntry_def entry_ok_def fread_def)

lemma readHardState_write [codec_simps]:
  "hardState_ok hs \<Longrightarrow> readHardState (writeHardState hs @ r) old = (True, hs)"
  using readU64_write [of "hs_commit hs"]
  by (cases hs; cases old) (simp add: readHardState_def writeHardState_def hardState_ok_def)

lemma readIds_write:
  "list_all u64_ok ids \<Longrightarrow> length old = length ids \<Longrightarrow>
   readIds old (concat (map writeU64 ids) @ r) = (True, ids, r)"
  by (induction old ids rule: list_induct2') auto

lemma readConfState_write [codec_simps]:
  assumes "list_all u64_ok (cs_nodes cs)" "list_all u64_ok (cs_learners cs)"
    and "length (cs_nodes cs) < 2 ^ 32" "length (cs_learners cs) < 2 ^ 32"
  shows "readConfState (writeConfState cs @ r) old = (True, cs)"
  using assms by (cases cs; cases old) (simp add: readConfState_def writeConfState_def writeIds_def readIds_write vec_resize_def)

text \<open>A record cut short is not read: every proper prefix of a record fails.\<close>

lemma fread_short: "length bs < n \<Longrightarrow> fst (fread n old bs) = False"
  by (simp add: fread_def)

lemma readEntry_torn:
  assumes g: "writeEntry e = f @ g" "g \<noteq> []" and data: "length (ent_data e) < 2 ^ 32"
  shows "readEntry f = None"
proof (cases "readEntry f")
  case (Some er)
  then obtain len where len: "length f \<ge> 21 + len" "len = unat (le_word (take 4 (drop 17 f)) :: u32)"
    by (auto simp: readEntry_def readU64_def readU8_def readU32_def fread_def Let_def split: if_splits)
  then have "21 \<le> length f" by simp
  with g have "take 4 (drop 17 f) = take 4 (drop 17 (writeEntry e))" by simp
  also have "\<dots> = writeU32 (length (ent_data e))" by (simp add: writeEntry_def)
  finally have "len = length (ent_data e)"
    using len(2) data by (simp add: writeU32_def codec_simps unat_of_nat)
  moreover have "length f < 21 + length (ent_data e)"
    using arg_cong [OF g(1), of length] g(2) by (simp add: writeEntry_def)
  ultimately show ?thesis using len(1) by simp
qed simp

section \<open>Invariant\<close>

text \<open>The mirror holds the entry of index \<open>i\<close> at position \<open>i\<close> above the snapshot.\<close>

definition wal_ok :: "WriteAheadLog \<Rightarrow> bool" where
  "wal_ok w \<longleftrightarrow>
     wal_snapIndex w < length (wal_log w) \<and> length (wal_log w) < 2 ^ 64 \<and>
     contiguous (wal_snapIndex w + 1) (drop (wal_snapIndex w + 1) (wal_log w))"

definition wal_at :: "WriteAheadLog \<Rightarrow> nat \<Rightarrow> Entry option" where
  "wal_at w i = (if wal_snapIndex w < i \<and> i < length (wal_log w) then Some (wal_log w ! i) else None)"

text \<open>The files hold the state of the mirror.\<close>

definition wal_durable :: "WriteAheadLog \<Rightarrow> bool" where
  "wal_durable w \<longleftrightarrow>
     wal_snapIndex w = 0 \<and> wal_snapTerm w = 0 \<and>
     wal_log w \<noteq> [] \<and> hd (wal_log w) = default_Entry \<and> list_all entry_ok (tl (wal_log w)) \<and>
     log_bin (wal_files w) = concat (map writeEntry (tl (wal_log w))) \<and>
     wal_hardState w = wal_loadHardState (hardstate_bin (wal_files w)) \<and>
     wal_confState w = wal_loadConfState (confstate_bin (wal_files w))"

lemma wal_index_simps:
  assumes "wal_ok w"
  shows "wal_firstIndex w = wal_snapIndex w + 1" "wal_lastIndex w = length (wal_log w) - 1"
    "u64_add (wal_lastIndex w) 1 = length (wal_log w)"
proof -
  have len: "wal_snapIndex w < length (wal_log w)" "length (wal_log w) < 2 ^ 64" "1 \<le> length (wal_log w)"
    using assms by (auto simp: wal_ok_def)
  show "wal_firstIndex w = wal_snapIndex w + 1"
    unfolding wal_firstIndex_def by (rule u64_add_small) (use len in linarith)
  show last: "wal_lastIndex w = length (wal_log w) - 1"
    unfolding wal_lastIndex_def by (rule u64_sub_small) (use len in linarith)
  have "u64_add (wal_lastIndex w) 1 = wal_lastIndex w + 1"
    by (rule u64_add_small) (use len last in linarith)
  with last len(3) show "u64_add (wal_lastIndex w) 1 = length (wal_log w)" by linarith
qed

lemma wal_at_index:
  assumes "wal_ok w" "wal_at w i = Some e"
  shows "ent_index e = i"
proof -
  from assms(2) have i: "wal_snapIndex w < i" "i < length (wal_log w)" "e = wal_log w ! i"
    by (auto simp: wal_at_def split: if_splits)
  from assms(1) have "\<forall>k<length (wal_log w) - (wal_snapIndex w + 1).
      ent_index (wal_log w ! (wal_snapIndex w + 1 + k)) = wal_snapIndex w + 1 + k"
    by (simp add: wal_ok_def contiguous_def)
  from spec [OF this, of "i - (wal_snapIndex w + 1)"] i show ?thesis by simp
qed

lemma wal_collect_prefix:
  "\<exists>k\<le>length es. wal_collect maxSize sz res es = res @ take k es \<and>
     (res = [] \<and> es \<noteq> [] \<longrightarrow> k > 0) \<and> (maxSize = noLimit \<longrightarrow> k = length es)"
proof (induction es arbitrary: sz res)
  case (Cons e es)
  let ?sz = "u64_add sz (sizeof_Entry + length (ent_data e))"
  show ?case
  proof (cases "maxSize \<noteq> 0 \<and> ?sz > maxSize \<and> res \<noteq> []")
    case True
    moreover have "?sz \<le> noLimit" using u64_add_bound [of sz] by (simp add: noLimit_def less_eq_Suc_le)
    ultimately show ?thesis by (intro exI [of _ 0]) (auto simp: Let_def)
  next
    case False
    obtain k where "k \<le> length es" "wal_collect maxSize ?sz (res @ [e]) es = (res @ [e]) @ take k es"
      "maxSize = noLimit \<longrightarrow> k = length es"
      using Cons.IH [of ?sz "res @ [e]"] by blast
    with False show ?thesis by (intro exI [of _ "Suc k"]) (auto simp: Let_def)
  qed
qed auto

lemma wal_entries_law:
  assumes ok: "wal_ok w" and r: "wal_firstIndex w \<le> lo" "lo \<le> hi" "hi \<le> wal_lastIndex w + 1"
  shows "\<exists>es. wal_entries w lo hi maxSize = Some es \<and> length es \<le> hi - lo \<and>
     (\<forall>k<length es. wal_at w (lo + k) = Some (es ! k)) \<and>
     (lo < hi \<longrightarrow> es \<noteq> []) \<and> (maxSize = noLimit \<longrightarrow> length es = hi - lo)"
proof -
  note ix = wal_index_simps [OF ok]
  have len: "wal_snapIndex w < length (wal_log w)" using ok by (simp add: wal_ok_def)
  with r ix have b: "wal_snapIndex w < lo" "hi \<le> length (wal_log w)" by auto
  let ?r = "take (hi - lo) (drop lo (wal_log w))"
  have lr: "length ?r = hi - lo" using b r by simp
  obtain k where k: "k \<le> length ?r" "wal_collect maxSize 0 [] ?r = take k ?r"
    "?r \<noteq> [] \<longrightarrow> k > 0" "maxSize = noLimit \<longrightarrow> k = length ?r"
    using wal_collect_prefix [of ?r maxSize 0 "[]"] unfolding append_Nil by blast
  show ?thesis
  proof (intro exI conjI)
    show "wal_entries w lo hi maxSize = Some (take k ?r)"
      using b r ix k(2) by (simp add: wal_entries_def)
    show "length (take k ?r) \<le> hi - lo" by simp
    show "\<forall>j<length (take k ?r). wal_at w (lo + j) = Some (take k ?r ! j)"
      using b by (auto simp: wal_at_def)
    show "lo < hi \<longrightarrow> take k ?r \<noteq> []" using k(3) lr by (metis length_0_conv not_gr0 take_eq_Nil2 zero_less_diff)
    show "maxSize = noLimit \<longrightarrow> length (take k ?r) = hi - lo" using k(4) lr by simp
  qed
qed

interpretation wal: raft_storage wal_view wal_at wal_ok
proof
  fix w i e lo hi maxSize
  assume ok: "wal_ok w"
  note ix = wal_index_simps [OF ok] and v = wal_view_def
  have len: "wal_snapIndex w < length (wal_log w)" "length (wal_log w) < 2 ^ 64"
    using ok by (simp_all add: wal_ok_def)
  show "1 \<le> sto_firstIndex (wal_view w)" by (simp add: v ix)
  show "sto_firstIndex (wal_view w) \<le> sto_lastIndex (wal_view w) + 1" using len by (simp add: v ix)
  show "sto_lastIndex (wal_view w) < 2 ^ 64 - 1" using len by (simp add: v ix)
  show "(wal_at w i \<noteq> None) = (sto_firstIndex (wal_view w) \<le> i \<and> i \<le> sto_lastIndex (wal_view w))"
    using len by (auto simp: v ix wal_at_def)
  show "wal_at w i = Some e \<Longrightarrow> ent_index e = i" using wal_at_index ok by blast
  show "sto_term (wal_view w) i = map_option ent_term (wal_at w i)"
    using len by (auto simp: v ix wal_at_def wal_term_def)
  show "sto_firstIndex (wal_view w) \<le> lo \<Longrightarrow> lo \<le> hi \<Longrightarrow> hi \<le> sto_lastIndex (wal_view w) + 1 \<Longrightarrow>
    \<exists>es. sto_entries (wal_view w) lo hi maxSize = Some es \<and> length es \<le> hi - lo \<and>
      (\<forall>k<length es. wal_at w (lo + k) = Some (es ! k)) \<and>
      (lo < hi \<longrightarrow> es \<noteq> []) \<and> (maxSize = noLimit \<longrightarrow> length es = hi - lo)"
    using wal_entries_law [OF ok] by (simp add: v)
qed

section \<open>Crash recovery\<close>

lemma replay_entry_next: "ent_index e = length es \<Longrightarrow> replay_entry es e = es @ [e]"
  by (simp add: replay_entry_def list_update_append)

text \<open>Replay appends the consecutive entries of the file and stops at the first torn record.\<close>

lemma replay_loop_records:
  "contiguous (length es) xs \<Longrightarrow> list_all entry_ok xs \<Longrightarrow> readEntry f = None \<Longrightarrow>
   replay_loop es (concat (map writeEntry xs) @ f) = es @ xs"
proof (induction xs arbitrary: es)
  case Nil
  then show ?case by (simp add: replay_loop.simps)
next
  case (Cons x xs)
  then have "replay_entry es x = es @ [x]" by (simp add: replay_entry_next contiguous_Cons)
  with Cons show ?case
    by (subst replay_loop.simps) (simp add: codec_simps contiguous_Cons)
qed

lemma readEntry_Nil [simp]: "readEntry [] = None"
  by (simp add: readEntry_def readU64_def fread_def)

text \<open>A prefix of a run of records is some whole records and a torn one.\<close>

lemma records_prefix:
  assumes "concat (map writeEntry xs) = p @ q" "list_all entry_ok xs"
  shows "\<exists>k\<le>length xs. \<exists>f. p = concat (map writeEntry (take k xs)) @ f \<and> readEntry f = None"
  using assms
proof (induction xs arbitrary: p)
  case (Cons x xs)
  from Cons.prems(1) consider
      us where "p = writeEntry x @ us" "concat (map writeEntry xs) = us @ q"
    | g where "writeEntry x = p @ g" "g \<noteq> []"
    by (auto simp: append_eq_append_conv2) (metis append_Nil2 append_Nil)+
  then show ?case
  proof cases
    case 1
    then obtain k f where "k \<le> length xs" "us = concat (map writeEntry (take k xs)) @ f" "readEntry f = None"
      using Cons.IH Cons.prems(2) by fastforce
    with 1 show ?thesis by (intro exI [of _ "Suc k"]) auto
  next
    case 2
    then have "readEntry p = None"
      using Cons.prems(2) by (intro readEntry_torn [of x p g]) (auto simp: entry_ok_def)
    then show ?thesis by (intro exI [of _ 0]) auto
  qed
qed simp

lemma wal_durable_log:
  assumes "wal_ok w" "wal_durable w"
  obtains es where "wal_log w = default_Entry # es" "contiguous 1 es" "list_all entry_ok es"
    "log_bin (wal_files w) = concat (map writeEntry es)"
  using assms by (cases "wal_log w") (auto simp: wal_ok_def wal_durable_def)

lemma wal_replay_durable:
  assumes "wal_ok w" "wal_durable w" "contiguous (length (wal_log w)) ents" "list_all entry_ok ents"
    and "readEntry f = None"
  shows "wal_replay (log_bin (wal_files w) @ concat (map writeEntry ents) @ f) = wal_log w @ ents"
proof -
  obtain es where es: "wal_log w = default_Entry # es" "contiguous 1 es" "list_all entry_ok es"
    "log_bin (wal_files w) = concat (map writeEntry es)"
    using assms(1,2) by (rule wal_durable_log)
  have "contiguous (length [default_Entry]) (es @ ents)"
    using es assms(3) by (simp add: contiguous_append)
  from replay_loop_records [OF this _ assms(5)] show ?thesis
    using es assms(4) by (simp add: wal_replay_def)
qed

lemma wal_reopen:
  assumes "wal_ok w" "wal_durable w"
  shows "wal_open (wal_files w) = w"
  using wal_replay_durable [OF assms, of "[]" "[]"] assms(2)
  by (cases w) (simp add: wal_open_def wal_durable_def)

text \<open>A crash inside an append past the end: a prefix of the batch survives, the old log is whole.\<close>

lemma wal_torn_append:
  assumes "wal_ok w" "wal_durable w" "contiguous (length (wal_log w)) ents" "list_all entry_ok ents"
    and "concat (map writeEntry ents) = p @ q"
  shows "\<exists>k\<le>length ents. wal_replay (log_bin (wal_files w) @ p) = wal_log w @ take k ents"
proof -
  from records_prefix [OF assms(5,4)] obtain k f where k: "k \<le> length ents"
    "p = concat (map writeEntry (take k ents)) @ f" "readEntry f = None" by blast
  moreover have "list_all entry_ok (take k ents)"
    using assms(4) by (auto simp: list_all_iff dest: in_set_takeD)
  ultimately show ?thesis
    using wal_replay_durable [OF assms(1,2), of "take k ents" f] assms(3) contiguous_take by auto
qed

section \<open>The write side keeps the invariant\<close>

text \<open>What \<open>appendNoSync\<close> may be called with: consecutive entries that start inside or right after the log.\<close>

definition wal_appendable :: "WriteAheadLog \<Rightarrow> Entry list \<Rightarrow> bool" where
  "wal_appendable w ents \<longleftrightarrow>
     (ents \<noteq> [] \<longrightarrow> wal_snapIndex w < ent_index (hd ents) \<and> ent_index (hd ents) \<le> length (wal_log w) \<and>
        contiguous (ent_index (hd ents)) ents \<and> list_all entry_ok ents \<and>
        ent_index (hd ents) + length ents < 2 ^ 64)"

lemma wal_append_log:
  assumes "wal_ok w" "wal_appendable w ents" "ents \<noteq> []"
  shows "wal_log (wal_appendNoSync w ents) = take (ent_index (hd ents)) (wal_log w) @ ents"
  using assms wal_index_simps [OF assms(1)]
  by (auto simp: wal_appendNoSync_def wal_appendable_def vec_resize_def Let_def)

lemma wal_append_snap [simp]:
  "wal_snapIndex (wal_appendNoSync w ents) = wal_snapIndex w"
  "wal_snapTerm (wal_appendNoSync w ents) = wal_snapTerm w"
  "wal_hardState (wal_appendNoSync w ents) = wal_hardState w"
  "wal_confState (wal_appendNoSync w ents) = wal_confState w"
  "hardstate_bin (wal_files (wal_appendNoSync w ents)) = hardstate_bin (wal_files w)"
  "confstate_bin (wal_files (wal_appendNoSync w ents)) = confstate_bin (wal_files w)"
  by (simp_all add: wal_appendNoSync_def Let_def)

lemma wal_ok_append:
  assumes "wal_ok w" "wal_appendable w ents"
  shows "wal_ok (wal_appendNoSync w ents)"
proof (cases "ents = []")
  case True
  with assms show ?thesis by (simp add: wal_appendNoSync_def)
next
  case False
  let ?f = "ent_index (hd ents)" and ?s = "wal_snapIndex w"
  have f: "?s < ?f" "?f \<le> length (wal_log w)" "contiguous ?f ents" "?f + length ents < 2 ^ 64"
    using assms(2) False by (auto simp: wal_appendable_def)
  have c: "contiguous (?s + 1) (drop (?s + 1) (wal_log w))" using assms(1) by (simp add: wal_ok_def)
  have "drop (?s + 1) (take ?f (wal_log w) @ ents) = take (?f - (?s + 1)) (drop (?s + 1) (wal_log w)) @ ents"
    using f by (simp add: drop_take min_absorb2)
  moreover have "contiguous (?s + 1) (take (?f - (?s + 1)) (drop (?s + 1) (wal_log w)) @ ents)"
    using f contiguous_take [OF c] by (simp add: contiguous_append)
  ultimately show ?thesis
    using f by (simp add: wal_ok_def wal_append_log [OF assms False] min_absorb2)
qed

lemma wal_at_append:
  assumes "wal_ok w" "wal_appendable w ents" "ents \<noteq> []"
  shows "wal_at (wal_appendNoSync w ents) i =
     (if i < ent_index (hd ents) then wal_at w i
      else if i < ent_index (hd ents) + length ents then Some (ents ! (i - ent_index (hd ents))) else None)"
  using assms(2,3) by (auto simp: wal_at_def wal_append_log [OF assms] wal_appendable_def nth_append min_absorb2)

lemma wal_durable_append:
  assumes "wal_ok w" "wal_durable w" "wal_appendable w ents"
  shows "wal_durable (wal_appendNoSync w ents)"
proof (cases "ents = []")
  case True
  with assms show ?thesis by (simp add: wal_appendNoSync_def)
next
  case False
  obtain es where es: "wal_log w = default_Entry # es" "list_all entry_ok es"
    "log_bin (wal_files w) = concat (map writeEntry es)" "wal_snapIndex w = 0"
    using assms(1,2) by (rule wal_durable_log) (use assms(2) in \<open>auto simp: wal_durable_def\<close>)
  obtain f where f: "ent_index (hd ents) = Suc f" "f \<le> length es" "list_all entry_ok ents"
    using assms(3) False es by (cases "ent_index (hd ents)") (auto simp: wal_appendable_def)
  have "log_bin (wal_files (wal_appendNoSync w ents)) = concat (map writeEntry (take f es @ ents))"
    using False es f wal_index_simps [OF assms(1)]
    by (auto simp: wal_appendNoSync_def wal_rewrite_def vec_resize_def Let_def)
  moreover have "list_all entry_ok (take f es)" using es(2) by (auto simp: list_all_iff dest: in_set_takeD)
  ultimately show ?thesis
    using assms(2) es f by (simp add: wal_durable_def wal_append_log [OF assms(1,3) False])
qed

lemma wal_ok_save [simp]:
  "wal_ok (wal_saveHardState w hs) \<longleftrightarrow> wal_ok w" "wal_ok (wal_saveConfState w cs) \<longleftrightarrow> wal_ok w"
  by (simp_all add: wal_ok_def wal_saveHardState_def wal_saveConfState_def)

lemma wal_durable_saveHardState:
  "wal_durable w \<Longrightarrow> hardState_ok hs \<Longrightarrow> wal_durable (wal_saveHardState w hs)"
  using readHardState_write [of hs "[]"]
  by (simp add: wal_durable_def wal_saveHardState_def wal_loadHardState_def)

lemma wal_durable_saveConfState:
  assumes "wal_durable w" "list_all u64_ok (cs_nodes cs)" "list_all u64_ok (cs_learners cs)"
    "length (cs_nodes cs) < 2 ^ 32" "length (cs_learners cs) < 2 ^ 32"
  shows "wal_durable (wal_saveConfState w cs)"
  using readConfState_write [of cs "[]"] assms
  by (simp add: wal_durable_def wal_saveConfState_def wal_loadConfState_def)

lemma wal_fresh:
  "wal_ok (wal_open \<lparr>log_bin = [], hardstate_bin = None, confstate_bin = None\<rparr>)"
  "wal_durable (wal_open \<lparr>log_bin = [], hardstate_bin = None, confstate_bin = None\<rparr>)"
  by (simp_all add: wal_open_def wal_ok_def wal_durable_def wal_replay_def replay_loop.simps)

end
