(* ===== verification/Snapshot_File.thy ===== *)
theory Snapshot_File
  imports Write_Ahead_Log
begin

text \<open>
  The snapshot file, \<^verbatim>\<open>app/storage/SnapshotFile.cpp\<close>. \<open>save\<close> writes \<^verbatim>\<open>snapshot.bin.tmp\<close> and
  renames it; the rename replaces the file in one step. \<open>None\<close> is a missing file.
\<close>

record SnapFiles =
  snapshot_bin :: "byte list option"
  snapshot_tmp :: "byte list option"

definition writeSnapshot :: "Snapshot \<Rightarrow> byte list" where
  "writeSnapshot s =
     writeU64 (snap_term s) @ writeU64 (snap_index s) @ writeU32 (length (snap_data s)) @ snap_data s"

definition sf_writeTmp :: "byte list \<Rightarrow> SnapFiles \<Rightarrow> SnapFiles" where
  "sf_writeTmp bs d = d\<lparr>snapshot_tmp := Some bs\<rparr>"

definition sf_rename :: "SnapFiles \<Rightarrow> SnapFiles" where
  "sf_rename d = \<lparr>snapshot_bin = snapshot_tmp d, snapshot_tmp = None\<rparr>"

definition sf_save :: "SnapFiles \<Rightarrow> Snapshot \<Rightarrow> SnapFiles" where
  "sf_save d s = sf_rename (sf_writeTmp (writeSnapshot s) d)"

definition sf_load :: "SnapFiles \<Rightarrow> Snapshot option" where
  "sf_load d =
     (case snapshot_bin d of
        None \<Rightarrow> None
      | Some f \<Rightarrow>
          let (ok, t, f) = readU64 0 f in if \<not> ok then None else
          let (ok, i, f) = readU64 0 f in if \<not> ok then None else
          let (ok, len, f) = readU32 0 f in if \<not> ok then None else
          let (ok, dat, f) = fread len (replicate len 0) f in if len > 0 \<and> \<not> ok then None else
          Some \<lparr>snap_term = t, snap_index = i, snap_data = dat\<rparr>)"

definition sf_remove :: "SnapFiles \<Rightarrow> SnapFiles" where
  "sf_remove d = d\<lparr>snapshot_bin := None\<rparr>"

definition snapshot_ok :: "Snapshot \<Rightarrow> bool" where
  "snapshot_ok s \<longleftrightarrow> u64_ok (snap_term s) \<and> u64_ok (snap_index s) \<and> length (snap_data s) < 2 ^ 32"

lemma sf_load_save: "snapshot_ok s \<Longrightarrow> sf_load (sf_save d s) = Some s"
  by (cases s)
    (simp add: sf_load_def sf_save_def sf_rename_def sf_writeTmp_def writeSnapshot_def snapshot_ok_def fread_def)

lemma sf_load_tmp [simp]: "sf_load (sf_writeTmp bs d) = sf_load d"
  by (simp add: sf_load_def sf_writeTmp_def)

lemma sf_load_remove [simp]: "sf_load (sf_remove d) = None"
  by (simp add: sf_load_def sf_remove_def)

end
