(* ===== verification/Server_Loop.thy ===== *)
theory Server_Loop
  imports Raw_Node Snapshot_File Order_Book_Interface
begin

text \<open>
  The running node, \<^verbatim>\<open>app/server/Server.cpp\<close> with \<^verbatim>\<open>app/Config.cpp\<close>. The Raft thread is a state
  machine over the points between which it releases its locks, so that the calls of client threads can
  fall between any two of them. The injected state machine and book reader are a table of functions.

  A client call is split where it waits: the first half registers a ticket (the shared
  \<open>PendingProposal\<close> or \<open>PendingRead\<close>), the answer is later found under that ticket.
\<close>

section \<open>Configuration\<close>

record PeerInfo =
  pi_id :: nat
  pi_host :: string
  pi_raftPort :: nat
  pi_clientPort :: nat

record AppConfig =
  ac_selfId :: nat
  ac_peers :: "PeerInfo list"
  ac_electionTick :: nat
  ac_heartbeatTick :: nat
  ac_maxSizePerMsg :: nat
  ac_maxInflightMsgs :: nat

datatype ReadMode = RM_ReadIndex | RM_LeaseBased | RM_Direct

definition ac_self :: "AppConfig \<Rightarrow> PeerInfo option" where
  "ac_self c = find (\<lambda>p. pi_id p = ac_selfId c) (ac_peers c)"

definition ac_peerAddrMap :: "AppConfig \<Rightarrow> (nat, string \<times> nat) std_map" where
  "ac_peerAddrMap c = fold (\<lambda>p m. std_put (<) (pi_id p) (pi_host p, pi_raftPort p) m) (ac_peers c) []"

definition ac_toRaftConfig :: "AppConfig \<Rightarrow> ReadMode \<Rightarrow> Config" where
  "ac_toRaftConfig c mode =
     \<lparr>cfg_id = ac_selfId c, cfg_leaderId = 0, cfg_electionTick = ac_electionTick c,
      cfg_heartbeatTick = ac_heartbeatTick c, cfg_maxSizePerMsg = ac_maxSizePerMsg c,
      cfg_maxInflightMsgs = ac_maxInflightMsgs c, cfg_peers = map pi_id (ac_peers c), cfg_learners = [],
      cfg_readOnlyOption = (if mode = RM_ReadIndex then Safe else LeaseBased)\<rparr>"

section \<open>State\<close>

record 'f StateMachine =
  fsm_apply :: "'f \<Rightarrow> byte list \<Rightarrow> (byte list \<times> 'f) option"
  fsm_snapshot :: "'f \<Rightarrow> byte list option"
  fsm_restore :: "'f \<Rightarrow> byte list \<Rightarrow> 'f option"
  br_bids :: "'f \<Rightarrow> nat \<Rightarrow> PriceLevel list option"
  br_asks :: "'f \<Rightarrow> nat \<Rightarrow> PriceLevel list option"

record PendingRead =
  rq_ticket :: nat
  rq_maxLevels :: nat
  rq_isBids :: bool

datatype Phase =
  Ticking | Draining | Polling
| AppendingLog Ready | SavingHardState Ready | InstallingSnapshot Ready | Sending Ready
| Applying Ready | Reading Ready | Advancing

record 'f Server =
  sv_readMode :: ReadMode
  sv_hasReader :: bool
  sv_node :: RawNode
  sv_wal :: WriteAheadLog
  sv_snap :: SnapFiles
  sv_fsm :: 'f
  sv_phase :: Phase
  sv_inbox :: "Message list"
  sv_pending :: "(nat, nat) std_map"
  sv_results :: "(nat \<times> byte list) list"
  sv_reads :: "(byte list \<times> PendingRead) list"
  sv_readResults :: "(nat \<times> PriceLevel list) list"
  sv_nextTicket :: nat
  sv_readToken :: nat
  sv_appliedIndex :: nat

text \<open>Construction from the files of the data directory, then \<open>start\<close>, which loads the snapshot.
  \<open>None\<close>: this node is not among the peers, so \<open>config.self()\<close> is dereferenced as a null pointer.\<close>

definition sv_new ::
  "AppConfig \<Rightarrow> ReadMode \<Rightarrow> bool \<Rightarrow> 'f \<Rightarrow> Files \<Rightarrow> SnapFiles \<Rightarrow> (nat \<Rightarrow> nat) \<Rightarrow> 'f Server option" where
  "sv_new c mode hasReader f files snaps entropy =
     (if ac_self c = None then None
      else let w = wal_open files
           in Some \<lparr>sv_readMode = mode, sv_hasReader = hasReader,
                sv_node = rn_new (ac_toRaftConfig c mode) (wal_view w) entropy,
                sv_wal = w, sv_snap = snaps, sv_fsm = f, sv_phase = Ticking, sv_inbox = [], sv_pending = [],
                sv_results = [], sv_reads = [], sv_readResults = [], sv_nextTicket = 0, sv_readToken = 1,
                sv_appliedIndex = 0\<rparr>)"

definition sv_start :: "'f StateMachine \<Rightarrow> 'f Server \<Rightarrow> 'f Server option" where
  "sv_start F sv =
     (case sf_load (sv_snap sv) of
        None \<Rightarrow> Some sv
      | Some snap \<Rightarrow> do {
          f \<leftarrow> fsm_restore F (sv_fsm sv) (snap_data snap);
          w \<leftarrow> wal_applySnapshot (sv_wal sv) snap;
          Some (sv\<lparr>sv_fsm := f, sv_wal := w\<rparr>)
        })"

abbreviation sv_storage :: "'f Server \<Rightarrow> Storage" where
  "sv_storage sv \<equiv> wal_view (sv_wal sv)"

section \<open>Client calls\<close>

definition sv_isLeader :: "'f Server \<Rightarrow> bool" where
  "sv_isLeader sv \<longleftrightarrow> rn_role (sv_node sv) = Leader"

definition sv_leaderId :: "'f Server \<Rightarrow> nat" where
  "sv_leaderId sv = rn_lead (sv_node sv)"

definition sv_onRaftMessage :: "'f Server \<Rightarrow> Message \<Rightarrow> 'f Server" where
  "sv_onRaftMessage sv m = sv\<lparr>sv_inbox := sv_inbox sv @ [m]\<rparr>"

text \<open>The part of \<open>submitRaw\<close> up to the wait: the ticket waited on, or none when not the leader.\<close>

definition sv_submitRaw :: "'f Server \<Rightarrow> byte list \<Rightarrow> (nat option \<times> 'f Server) option" where
  "sv_submitRaw sv cmd =
     (if \<not> sv_isLeader sv then Some (None, sv)
      else do {
        (ok, n) \<leftarrow> rn_propose (sv_storage sv) (sv_node sv) cmd;
        if \<not> ok then Some (None, sv\<lparr>sv_node := n\<rparr>)
        else
          let idx = rl_lastIndex (sv_storage sv) (rn_log n); tk = sv_nextTicket sv
          in Some (Some tk,
               sv\<lparr>sv_node := n, sv_pending := std_put (<) idx tk (sv_pending sv), sv_nextTicket := tk + 1\<rparr>)
      })"

datatype ClientOp = SET | GET | DEL

record ClientRequest =
  cq_op :: ClientOp
  cq_key :: "byte list"
  cq_value :: "byte list"

record ClientResponse =
  cr_ok :: bool
  cr_err :: string
  cr_found :: bool
  cr_value :: "byte list"
  cr_leaderHint :: nat

definition default_ClientResponse :: ClientResponse where
  "default_ClientResponse =
     \<lparr>cr_ok = True, cr_err = [], cr_found = False, cr_value = [], cr_leaderHint = 0\<rparr>"

text \<open>The part of \<open>onClientRequest\<close> up to the wait. \<open>encoded\<close> is the codec's answer for the request.\<close>

definition sv_onClientRequest ::
  "'f Server \<Rightarrow> byte list \<Rightarrow> ((ClientResponse + nat) \<times> 'f Server) option" where
  "sv_onClientRequest sv encoded =
     (let notLeader = default_ClientResponse\<lparr>cr_ok := False, cr_err := ''not leader'', cr_leaderHint := sv_leaderId sv\<rparr>
      in if \<not> sv_isLeader sv then Some (Inl notLeader, sv)
         else if encoded = []
         then Some (Inl (default_ClientResponse\<lparr>cr_ok := False, cr_err := ''bad request''\<rparr>), sv)
         else do {
           (tk, sv') \<leftarrow> sv_submitRaw sv encoded;
           Some (case tk of None \<Rightarrow> Inl notLeader | Some k \<Rightarrow> Inr k, sv')
         })"

text \<open>Reads: \<open>Inl\<close> is an answer at once, \<open>Inr\<close> the ticket waited on.\<close>

definition sv_read ::
  "'f StateMachine \<Rightarrow> bool \<Rightarrow> 'f Server \<Rightarrow> nat \<Rightarrow> ((PriceLevel list + nat) \<times> 'f Server) option" where
  "sv_read F isBids sv maxLevels =
     (if \<not> sv_hasReader sv then Some (Inl [], sv)
      else if sv_readMode sv = RM_Direct \<or> sv_readMode sv = RM_LeaseBased
      then do {
        levels \<leftarrow> (if isBids then br_bids F else br_asks F) (sv_fsm sv) maxLevels;
        Some (Inl levels, sv)
      }
      else if \<not> sv_isLeader sv then Some (Inl [], sv)
      else
        let token = writeU64 (sv_readToken sv); tk = sv_nextTicket sv;
            p = \<lparr>rq_ticket = tk, rq_maxLevels = maxLevels, rq_isBids = isBids\<rparr>;
            (_, n) = rn_readIndex (sv_node sv) token
        in Some (Inr tk,
            sv\<lparr>sv_node := n, sv_reads := AList.update token p (sv_reads sv),
               sv_readToken := u64_add (sv_readToken sv) 1, sv_nextTicket := tk + 1\<rparr>))"

definition sv_readBids ::
  "'f StateMachine \<Rightarrow> 'f Server \<Rightarrow> nat \<Rightarrow> ((PriceLevel list + nat) \<times> 'f Server) option" where
  "sv_readBids F = sv_read F True"

definition sv_readAsks ::
  "'f StateMachine \<Rightarrow> 'f Server \<Rightarrow> nat \<Rightarrow> ((PriceLevel list + nat) \<times> 'f Server) option" where
  "sv_readAsks F = sv_read F False"

section \<open>Applying and serving reads\<close>

definition sv_applyEntry :: "'f StateMachine \<Rightarrow> Entry \<Rightarrow> 'f Server \<Rightarrow> 'f Server option" where
  "sv_applyEntry F e sv =
     do {
       (result, f) \<leftarrow> fsm_apply F (sv_fsm sv) (ent_data e);
       let sv = sv\<lparr>sv_fsm := f, sv_appliedIndex := ent_index e\<rparr>;
       Some (case map_of (sv_pending sv) (ent_index e) of
               None \<Rightarrow> sv
             | Some tk \<Rightarrow> sv\<lparr>sv_pending := std_erase (ent_index e) (sv_pending sv),
                            sv_results := sv_results sv @ [(tk, result)]\<rparr>)
     }"

definition sv_applyCommittedEntries :: "'f StateMachine \<Rightarrow> Entry list \<Rightarrow> 'f Server \<Rightarrow> 'f Server option" where
  "sv_applyCommittedEntries F = for_each (sv_applyEntry F)"

text \<open>\<open>None\<close>: the thread that would advance \<open>appliedIndex_\<close> is the one that sleeps until it advances
  (or the state machine fails to answer).\<close>

definition sv_handleReadState :: "'f StateMachine \<Rightarrow> ReadState \<Rightarrow> 'f Server \<Rightarrow> 'f Server option" where
  "sv_handleReadState F rs sv =
     (case map_of (sv_reads sv) (rs_requestCtx rs) of
        None \<Rightarrow> Some sv
      | Some p \<Rightarrow>
          if sv_appliedIndex sv < rs_index rs then None
          else do {
            levels \<leftarrow> (if rq_isBids p then br_bids F else br_asks F) (sv_fsm sv) (rq_maxLevels p);
            Some (sv\<lparr>sv_readResults := sv_readResults sv @ [(rq_ticket p, levels)],
                     sv_reads := AList.delete (rs_requestCtx rs) (sv_reads sv)\<rparr>)
          })"

definition sv_handleReadStates :: "'f StateMachine \<Rightarrow> ReadState list \<Rightarrow> 'f Server \<Rightarrow> 'f Server option" where
  "sv_handleReadStates F = for_each (sv_handleReadState F)"

section \<open>The Raft thread\<close>

definition hs_nonzero :: "HardState \<Rightarrow> bool" where
  "hs_nonzero hs \<longleftrightarrow> hs_term hs \<noteq> 0 \<or> hs_commit hs \<noteq> 0"

text \<open>
  One step of the thread, with the messages it hands to the transport. The phases between \<open>Polling\<close> and
  \<open>Advancing\<close> are the body of \<open>processReady\<close> in its order: write the log, save the hard state, sync,
  install a snapshot, send, apply, answer reads.
\<close>

definition sv_thread_step :: "'f StateMachine \<Rightarrow> 'f Server \<Rightarrow> (Message list \<times> 'f Server) option" where
  "sv_thread_step F sv =
     (case sv_phase sv of
        Ticking \<Rightarrow> do {
          (_, n) \<leftarrow> rn_tick (sv_storage sv) (sv_node sv);
          Some ([], sv\<lparr>sv_node := n, sv_phase := Draining\<rparr>)
        }
      | Draining \<Rightarrow> do {
          n \<leftarrow> for_each (\<lambda>m n. rn_step (sv_storage sv) n m) (sv_inbox sv) (sv_node sv);
          Some ([], sv\<lparr>sv_node := n, sv_inbox := [], sv_phase := Polling\<rparr>)
        }
      | Polling \<Rightarrow>
          let (rd, n) = rn_poll (sv_storage sv) (sv_node sv)
          in Some ([], sv\<lparr>sv_node := n, sv_phase := AppendingLog rd\<rparr>)
      | AppendingLog rd \<Rightarrow>
          Some ([], sv\<lparr>sv_wal := (if rd_entries rd \<noteq> [] then wal_appendNoSync (sv_wal sv) (rd_entries rd) else sv_wal sv),
                       sv_phase := SavingHardState rd\<rparr>)
      | SavingHardState rd \<Rightarrow>
          let w = (if hs_nonzero (rd_hardState rd) then wal_saveHardState (sv_wal sv) (rd_hardState rd) else sv_wal sv);
              w = (if rd_entries rd \<noteq> [] \<or> hs_nonzero (rd_hardState rd) then wal_sync w else w)
          in Some ([], sv\<lparr>sv_wal := w, sv_phase := InstallingSnapshot rd\<rparr>)
      | InstallingSnapshot rd \<Rightarrow>
          (case rd_snapshot rd of
             None \<Rightarrow> Some ([], sv\<lparr>sv_phase := Sending rd\<rparr>)
           | Some snap \<Rightarrow> do {
               f \<leftarrow> fsm_restore F (sv_fsm sv) (snap_data snap);
               w \<leftarrow> wal_applySnapshot (sv_wal sv) snap;
               Some ([], sv\<lparr>sv_fsm := f, sv_snap := sf_save (sv_snap sv) snap, sv_wal := w, sv_phase := Sending rd\<rparr>)
             })
      | Sending rd \<Rightarrow> Some (rd_messages rd, sv\<lparr>sv_phase := Applying rd\<rparr>)
      | Applying rd \<Rightarrow> do {
          sv \<leftarrow> sv_applyCommittedEntries F (rd_committedEntries rd) sv;
          Some ([], sv\<lparr>sv_phase := Reading rd\<rparr>)
        }
      | Reading rd \<Rightarrow> do {
          sv \<leftarrow> sv_handleReadStates F (rd_readStates rd) sv;
          Some ([], sv\<lparr>sv_phase := Advancing\<rparr>)
        }
      | Advancing \<Rightarrow> do {
          n \<leftarrow> rn_advance (sv_storage sv) (sv_node sv);
          Some ([], sv\<lparr>sv_node := n, sv_phase := Ticking\<rparr>)
        })"

text \<open>The thread alone, without client calls in between: \<open>k\<close> steps and all they send.\<close>

fun sv_run :: "'f StateMachine \<Rightarrow> nat \<Rightarrow> 'f Server \<Rightarrow> (Message list \<times> 'f Server) option" where
  "sv_run F 0 sv = Some ([], sv)"
| "sv_run F (Suc k) sv =
     do {
       (ms, sv) \<leftarrow> sv_thread_step F sv;
       (ms', sv) \<leftarrow> sv_run F k sv;
       Some (ms @ ms', sv)
     }"

text \<open>One turn of \<open>raftLoop\<close>.\<close>

definition sv_raftLoop :: "'f StateMachine \<Rightarrow> 'f Server \<Rightarrow> (Message list \<times> 'f Server) option" where
  "sv_raftLoop F sv = sv_run F 10 (sv\<lparr>sv_phase := Ticking\<rparr>)"

end
