(* ===== verification/Raft_Cluster.thy ===== *)
theory Raft_Cluster
  imports Raw_Node_Election Server_Loop
begin

text \<open>
  A cluster of servers over an unreliable network. The Raft thread of a server, client calls, message
  delivery and restarts interleave freely. The network keeps every message ever sent, so delivery may
  lose, repeat and reorder. A restart keeps the files and nothing else.

  A restart falls between two operations on the files: the in-place rewrite of
  \<^verbatim>\<open>hardstate.bin\<close> is taken as atomic here (what a torn one does is a property of the log).
  The Raft thread is not run at term \<open>2\<^sup>6\<^sup>4 - 1\<close>, where \<open>term_ += 1\<close> would wrap.
\<close>

section \<open>The cluster\<close>

record 'f Cluster =
  cl_server :: "nat \<Rightarrow> 'f Server"
  cl_net :: "Message set"
  cl_led :: "(nat \<times> nat) set"

definition cl_ids :: "AppConfig \<Rightarrow> nat set" where
  "cl_ids c = set (map pi_id (ac_peers c))"

definition cl_put :: "nat \<Rightarrow> 'f Server \<Rightarrow> Message list \<Rightarrow> 'f Cluster \<Rightarrow> 'f Cluster" where
  "cl_put i v ms s =
     s\<lparr>cl_server := (cl_server s)(i := v), cl_net := cl_net s \<union> set ms,
       cl_led := cl_led s \<union> (if sv_isLeader v then {(rn_term (sv_node v), i)} else {})\<rparr>"

definition sv_boot ::
  "'f StateMachine \<Rightarrow> AppConfig \<Rightarrow> ReadMode \<Rightarrow> bool \<Rightarrow> 'f \<Rightarrow> nat \<Rightarrow> Files \<Rightarrow> SnapFiles \<Rightarrow> (nat \<Rightarrow> nat) \<Rightarrow> 'f Server option" where
  "sv_boot F c mode r f i files snaps entropy =
     Option.bind (sv_new (c\<lparr>ac_selfId := i\<rparr>) mode r f files snaps entropy) (sv_start F)"

inductive cl_step ::
  "'f StateMachine \<Rightarrow> AppConfig \<Rightarrow> ReadMode \<Rightarrow> bool \<Rightarrow> 'f \<Rightarrow> 'f Cluster \<Rightarrow> 'f Cluster \<Rightarrow> bool"
  for F :: "'f StateMachine" and c :: AppConfig and mode :: ReadMode and r :: bool and f :: 'f where
  Thread: "i \<in> cl_ids c \<Longrightarrow> rn_term (sv_node (cl_server s i)) < 2 ^ 64 - 1 \<Longrightarrow>
    sv_thread_step F (cl_server s i) = Some (ms, v) \<Longrightarrow> cl_step F c mode r f s (cl_put i v ms s)"
| Deliver: "i \<in> cl_ids c \<Longrightarrow> m \<in> cl_net s \<Longrightarrow> msg_to m = i \<Longrightarrow> msg_term m < 2 ^ 64 \<Longrightarrow>
    cl_step F c mode r f s (cl_put i (sv_onRaftMessage (cl_server s i) m) [] s)"
| Submit: "i \<in> cl_ids c \<Longrightarrow> sv_submitRaw (cl_server s i) cmd = Some (tk, v) \<Longrightarrow>
    cl_step F c mode r f s (cl_put i v [] s)"
| TextRequest: "i \<in> cl_ids c \<Longrightarrow> sv_onClientRequest (cl_server s i) cmd = Some (ans, v) \<Longrightarrow>
    cl_step F c mode r f s (cl_put i v [] s)"
| Read: "i \<in> cl_ids c \<Longrightarrow> sv_read F b (cl_server s i) k = Some (res, v) \<Longrightarrow>
    cl_step F c mode r f s (cl_put i v [] s)"
| Crash: "i \<in> cl_ids c \<Longrightarrow>
    sv_boot F c mode r f i (wal_files (sv_wal (cl_server s i))) (sv_snap (cl_server s i)) entropy = Some v \<Longrightarrow>
    cl_step F c mode r f s (cl_put i v [] s)"

definition fresh_files :: Files where
  "fresh_files = \<lparr>log_bin = [], hardstate_bin = None, confstate_bin = None\<rparr>"

definition fresh_snaps :: SnapFiles where
  "fresh_snaps = \<lparr>snapshot_bin = None, snapshot_tmp = None\<rparr>"

definition cl_initial ::
  "'f StateMachine \<Rightarrow> AppConfig \<Rightarrow> ReadMode \<Rightarrow> bool \<Rightarrow> 'f \<Rightarrow> 'f Cluster \<Rightarrow> bool" where
  "cl_initial F c mode r f s \<longleftrightarrow>
     (\<forall>i\<in>cl_ids c. \<exists>entropy. sv_boot F c mode r f i fresh_files fresh_snaps entropy = Some (cl_server s i)) \<and>
     cl_net s = {} \<and> cl_led s = {}"

inductive cl_reach ::
  "'f StateMachine \<Rightarrow> AppConfig \<Rightarrow> ReadMode \<Rightarrow> bool \<Rightarrow> 'f \<Rightarrow> 'f Cluster \<Rightarrow> bool"
  for F :: "'f StateMachine" and c :: AppConfig and mode :: ReadMode and r :: bool and f :: 'f where
  Boot: "cl_initial F c mode r f s \<Longrightarrow> cl_reach F c mode r f s"
| Run: "cl_reach F c mode r f s \<Longrightarrow> cl_step F c mode r f s s' \<Longrightarrow> cl_reach F c mode r f s'"

text \<open>Peer ids are distinct, nonzero values of \<open>uint64_t\<close>; \<^verbatim>\<open>main.cpp\<close> numbers the peers from one.\<close>

definition cl_conf_ok :: "AppConfig \<Rightarrow> bool" where
  "cl_conf_ok c \<longleftrightarrow> distinct (map pi_id (ac_peers c)) \<and> (\<forall>i\<in>cl_ids c. 0 < i \<and> i < 2 ^ 64)"

section \<open>Simulation of the election protocol\<close>

definition vviews :: "Message set \<Rightarrow> VoteMsg set" where
  "vviews N = {v. \<exists>m\<in>N. vote_view m = Some v}"

lemma vviews_simps [simp]: "vviews {} = {}" "vviews (A \<union> B) = vviews A \<union> vviews B" "vviews (set ms) = views ms"
  by (auto simp: vviews_def views_def)

definition saved_hs :: "'f Server \<Rightarrow> HardState" where
  "saved_hs v = wal_loadHardState (hardstate_bin (wal_files (sv_wal v)))"

definition covered :: "Elector \<Rightarrow> bool" where
  "covered e \<longleftrightarrow> el_term e = 0 \<or> el_sterm e = el_term e \<and> el_svote e = el_vote e"

text \<open>What is known of a \<open>Ready\<close> on its way through \<open>processReady\<close>.\<close>

definition phase_ok :: "Phase \<Rightarrow> Elector \<Rightarrow> bool" where
  "phase_ok p e =
     (case p of
        AppendingLog rd \<Rightarrow> views (rd_messages rd) \<subseteq> el_out e \<and> rd_snapshot rd = None \<and>
          hs_term (rd_hardState rd) = el_term e \<and> hs_vote (rd_hardState rd) = el_vote e
      | SavingHardState rd \<Rightarrow> views (rd_messages rd) \<subseteq> el_out e \<and> rd_snapshot rd = None \<and>
          hs_term (rd_hardState rd) = el_term e \<and> hs_vote (rd_hardState rd) = el_vote e
      | InstallingSnapshot rd \<Rightarrow> views (rd_messages rd) \<subseteq> el_out e \<and> rd_snapshot rd = None \<and> covered e
      | Sending rd \<Rightarrow> views (rd_messages rd) \<subseteq> el_out e \<and> rd_snapshot rd = None \<and> covered e
      | _ \<Rightarrow> True)"

definition sim_server :: "nat set \<Rightarrow> Message set \<Rightarrow> nat \<Rightarrow> 'f Server \<Rightarrow> Elector \<Rightarrow> bool" where
  "sim_server ids net i v e \<longleftrightarrow>
     sim_node ids i (sv_node v) e \<and> el_term e < 2 ^ 64 \<and>
     hs_term (saved_hs v) = el_sterm e \<and> hs_vote (saved_hs v) = el_svote e \<and>
     (\<forall>m\<in>set (sv_inbox v). m \<in> net \<and> msg_to m = i \<and> msg_term m < 2 ^ 64) \<and>
     sf_load (sv_snap v) = None \<and> confstate_bin (wal_files (sv_wal v)) = None \<and>
     phase_ok (sv_phase v) e"

definition sim_cluster :: "nat set \<Rightarrow> 'f Cluster \<Rightarrow> EP \<Rightarrow> bool" where
  "sim_cluster ids s a \<longleftrightarrow>
     (\<forall>i\<in>ids. sim_server ids (cl_net s) i (cl_server s i) (ep_node a i)) \<and>
     vviews (cl_net s) \<subseteq> ep_net a \<and> cl_led s \<subseteq> ep_won a \<and> ep_ok ids a"

lemma saved_hs_save:
  assumes "u64_ok (hs_term hs)" "u64_ok (hs_vote hs)"
  shows "hs_term (wal_loadHardState (Some (writeHardState hs))) = hs_term hs"
    "hs_vote (wal_loadHardState (Some (writeHardState hs))) = hs_vote hs"
  using assms by (simp_all add: wal_loadHardState_def readHardState_def writeHardState_def case_prod_unfold Let_def)

text \<open>A run of abstract steps of one node, closed by recording whether it leads.\<close>

lemma ep_steps_of_moves:
  assumes "(el_step ids (ep_net a) i)\<^sup>*\<^sup>* (ep_node a i) e'" "i \<in> ids"
  shows "\<exists>a'. (ep_step ids)\<^sup>*\<^sup>* a a' \<and> ep_node a' = (ep_node a)(i := e') \<and> ep_net a' = ep_net a \<and>
    ep_won a \<subseteq> ep_won a' \<and> (el_role e' = Leader \<longrightarrow> (el_term e', i) \<in> ep_won a')"
  using assms(1)
proof (induction rule: rtranclp_induct)
  case base
  from Act [OF assms(2) Stay] have "ep_step ids a (ep_put i (ep_node a i) {} a)" .
  then show ?case by (intro exI [of _ "ep_put i (ep_node a i) {} a"]) (auto simp: ep_put_def)
next
  case (step y z)
  then obtain b where b: "(ep_step ids)\<^sup>*\<^sup>* a b" "ep_node b = (ep_node a)(i := y)" "ep_net b = ep_net a" "ep_won a \<subseteq> ep_won b"
    by blast
  have "el_step ids (ep_net b) i (ep_node b i) z" using step(2) b by simp
  from Act [OF assms(2) this] have "ep_step ids b (ep_put i z {} b)" .
  with b show ?case by (intro exI [of _ "ep_put i z {} b"]) (auto simp: ep_put_def)
qed

lemma ep_ok_steps: "(ep_step ids)\<^sup>*\<^sup>* a a' \<Longrightarrow> 0 \<notin> ids \<Longrightarrow> ep_ok ids a \<Longrightarrow> ep_ok ids a'"
  by (induction rule: rtranclp_induct) (auto dest: ep_ok_step)

lemma sim_server_net: "sim_server ids net i v e \<Longrightarrow> sim_server ids (net \<union> ms) i v e"
  by (auto simp: sim_server_def)

text \<open>The common last step: one server moved, with its abstract node, and sent what is covered.\<close>

lemma sim_cluster_put:
  assumes sim: "sim_cluster ids s a" and i: "i \<in> ids" "0 \<notin> ids"
    and moves: "(el_step ids (ep_net a) i)\<^sup>*\<^sup>* (ep_node a i) e'"
    and v: "sim_server ids (cl_net s) i v e'" and ms: "views ms \<subseteq> el_out e'" "views ms = {} \<or> covered e'"
  shows "\<exists>a'. sim_cluster ids (cl_put i v ms s) a'"
proof -
  from ep_steps_of_moves [OF moves i(1)] obtain b where b: "(ep_step ids)\<^sup>*\<^sup>* a b"
    "ep_node b = (ep_node a)(i := e')" "ep_net b = ep_net a" "ep_won a \<subseteq> ep_won b"
    "el_role e' = Leader \<longrightarrow> (el_term e', i) \<in> ep_won b" by blast
  define c where "c = (if views ms = {} then b else ep_put i e' (views ms) b)"
  have "(ep_step ids)\<^sup>*\<^sup>* b c"
  proof (cases "views ms = {}")
    case False
    then have "ep_step ids b (ep_put i (ep_node b i) (views ms) b)"
      using ms b(2) i(1) by (intro Send) (auto simp: covered_def)
    with False b(2) show ?thesis by (auto simp: c_def)
  qed (simp add: c_def)
  with b(1) have ok: "ep_ok ids c"
    using ep_ok_steps i(2) sim by (metis (no_types, lifting) rtranclp_trans sim_cluster_def)
  have c: "ep_node c = (ep_node a)(i := e')" "ep_net c = ep_net a \<union> views ms" "ep_won b \<subseteq> ep_won c"
    using b by (auto simp: ep_put_def c_def)
  have "sim_server ids (cl_net s \<union> set ms) j (((cl_server s)(i := v)) j) (((ep_node a)(i := e')) j)" if "j \<in> ids" for j
    using sim v that by (auto simp: sim_cluster_def intro!: sim_server_net)
  moreover have "cl_led s \<union> (if sv_isLeader v then {(rn_term (sv_node v), i)} else {}) \<subseteq> ep_won c"
  proof -
    have "cl_led s \<subseteq> ep_won a" using sim by (simp add: sim_cluster_def)
    moreover have "(rn_term (sv_node v), i) \<in> ep_won b" if "sv_isLeader v"
      using b(5) v that by (simp add: sim_server_def sim_node_def sv_isLeader_def)
    ultimately show ?thesis using b(4) c(3) by auto
  qed
  moreover have "vviews (cl_net s \<union> set ms) \<subseteq> ep_net c" using sim c(2) by (auto simp: sim_cluster_def)
  ultimately have "sim_cluster ids (cl_put i v ms s) c"
    using ok c(1) by (simp add: sim_cluster_def cl_put_def)
  then show ?thesis by blast
qed

section \<open>Every step of the cluster is simulated\<close>

lemma moves_frame:
  assumes "el_moves ids net i e e'"
  shows "el_sterm e' = el_sterm e" "el_svote e' = el_svote e" "el_out e \<subseteq> el_out e'"
  using assms by (induction rule: rtranclp_induct) (auto simp: el_move_def)

lemma moves_steps: "el_moves ids net i e e' \<Longrightarrow> (el_step ids net i)\<^sup>*\<^sup>* e e'"
  by (erule rtranclp_mono [THEN predicate2D, rotated]) (auto simp: el_move_def)

lemma sim_drain:
  assumes "sim_node ids i n e" "el_term e < 2 ^ 64"
    and "\<forall>m\<in>set ms. msg_to m = i \<and> msg_term m < 2 ^ 64 \<and> (\<forall>v. vote_view m = Some v \<longrightarrow> v \<in> net)" "Alien \<notin> net"
    and "for_each (\<lambda>m n. rn_step S n m) ms n = Some n'"
  shows "\<exists>e'. el_moves ids net i e e' \<and> sim_node ids i n' e' \<and> el_term e' < 2 ^ 64"
  using assms
proof (induction ms arbitrary: n e)
  case Nil
  then show ?case by auto
next
  case (Cons m ms)
  from Cons.prems(5) obtain n1 where n1: "rn_step S n m = Some n1" "for_each (\<lambda>m n. rn_step S n m) ms n1 = Some n'"
    by (auto split: Option.bind_splits)
  have m: "vote_view m \<noteq> Some Alien" "msg_to m = i" "\<forall>v. vote_view m = Some v \<longrightarrow> v \<in> net" "msg_term m < 2 ^ 64"
    using Cons.prems(3,4) by auto
  from sim_step [OF Cons.prems(1) n1(1) m(1,2,3)] obtain e1 where
    e1: "el_moves ids net i e e1" "sim_node ids i n1 e1" "el_term e1 \<le> max (el_term e) (msg_term m)" by blast
  have "el_term e1 < 2 ^ 64" using e1(3) m(4) Cons.prems(2) by simp
  from Cons.IH [OF e1(2) this _ Cons.prems(4) n1(2)] Cons.prems(3) obtain e2 where
    "el_moves ids net i e1 e2" "sim_node ids i n' e2" "el_term e2 < 2 ^ 64" by auto
  with e1(1) show ?case by (meson rtranclp_trans)
qed

text \<open>A change of the server that the protocol does not see.\<close>

lemma sim_server_quiet:
  assumes "sim_server ids net i v e" "quiet (sv_node v) (sv_node v')"
    and "sv_wal v' = sv_wal v" "sv_inbox v' = sv_inbox v" "sv_snap v' = sv_snap v" "phase_ok (sv_phase v') e"
  shows "sim_server ids net i v' e"
  using assms sim_quiet by (auto simp: sim_server_def saved_hs_def)

lemma quiet_poll:
  assumes "rn_poll S n = (rd, n')"
  shows "rd_messages rd = rn_msgs n" "rd_snapshot rd = None" "hs_term (rd_hardState rd) = rn_term n"
    "hs_vote (rd_hardState rd) = rn_vote n"
    "el_fields n' = (rn_id n, rn_voters n, rn_term n, rn_vote n, rn_role n, rn_votes n, {})"
proof -
  have "rn_id n' = rn_id n \<and> rn_voters n' = rn_voters n \<and> rn_term n' = rn_term n \<and> rn_vote n' = rn_vote n \<and>
      rn_role n' = rn_role n \<and> rn_votes n' = rn_votes n \<and> rn_msgs n' = []"
    using assms unfolding rn_poll_def Let_def by (auto split: if_split)
  then show "el_fields n' = (rn_id n, rn_voters n, rn_term n, rn_vote n, rn_role n, rn_votes n, {})"
    by (simp add: el_fields_def)
qed (use assms in \<open>auto simp: rn_poll_def Let_def makeHardState_def\<close>)

lemma quiet_advance: "rn_advance S n = Some n' \<Longrightarrow> quiet n n'"
  by (auto simp: rn_advance_def Let_def quiet_def el_fields_def split: Option.bind_splits if_split_asm)

definition sv_raft :: "'f Server \<Rightarrow> RawNode \<times> WriteAheadLog \<times> Message list \<times> SnapFiles \<times> Phase" where
  "sv_raft v = (sv_node v, sv_wal v, sv_inbox v, sv_snap v, sv_phase v)"

lemma sv_raft_for_each:
  assumes "\<And>x v v'. g x v = Some v' \<Longrightarrow> sv_raft v' = sv_raft v"
  shows "for_each g xs v = Some v' \<Longrightarrow> sv_raft v' = sv_raft v"
proof (induction xs arbitrary: v)
  case (Cons x xs)
  then obtain v1 where "g x v = Some v1" "for_each g xs v1 = Some v'" by (auto split: Option.bind_splits)
  with Cons.IH assms show ?case by metis
qed simp

lemma sv_raft_apply: "sv_applyCommittedEntries F es v = Some v' \<Longrightarrow> sv_raft v' = sv_raft v"
  unfolding sv_applyCommittedEntries_def
  by (erule sv_raft_for_each [rotated])
    (auto simp: sv_applyEntry_def sv_raft_def Let_def split: Option.bind_splits option.splits)

lemma sv_raft_reads: "sv_handleReadStates F rs v = Some v' \<Longrightarrow> sv_raft v' = sv_raft v"
  unfolding sv_handleReadStates_def
  by (erule sv_raft_for_each [rotated])
    (auto simp: sv_handleReadState_def sv_raft_def bind_eq_Some_conv split: option.splits if_split_asm)

lemma sv_submitRaw_frame:
  assumes "sv_submitRaw v cmd = Some (tk, v')"
  shows "quiet (sv_node v) (sv_node v') \<and> sv_wal v' = sv_wal v \<and> sv_inbox v' = sv_inbox v \<and> sv_snap v' = sv_snap v \<and>
    sv_phase v' = sv_phase v"
  using assms quiet_propose [of "sv_storage v" "sv_node v" cmd]
  by (auto simp: sv_submitRaw_def Let_def split: Option.bind_splits if_split_asm)

lemma sv_onClientRequest_frame:
  assumes "sv_onClientRequest v cmd = Some (ans, v')"
  shows "quiet (sv_node v) (sv_node v') \<and> sv_wal v' = sv_wal v \<and> sv_inbox v' = sv_inbox v \<and> sv_snap v' = sv_snap v \<and>
    sv_phase v' = sv_phase v"
  using assms sv_submitRaw_frame [of v cmd]
  by (auto simp: sv_onClientRequest_def Let_def split: Option.bind_splits if_split_asm)

lemma sv_read_frame:
  assumes "sv_read F b v k = Some (res, v')"
  shows "quiet (sv_node v) (sv_node v') \<and> sv_wal v' = sv_wal v \<and> sv_inbox v' = sv_inbox v \<and> sv_snap v' = sv_snap v \<and>
    sv_phase v' = sv_phase v"
  using assms quiet_readIndex [of "sv_node v"]
  by (auto simp: sv_read_def Let_def case_prod_unfold bind_eq_Some_conv split: if_split_asm)

lemma sim_boot:
  assumes boot: "sv_boot F c mode r f i files snaps ent = Some v" and i: "i \<in> cl_ids c"
    and d: "distinct (map pi_id (ac_peers c))"
    and files: "confstate_bin files = None" "sf_load snaps = None"
    and e: "hs_term (wal_loadHardState (hardstate_bin files)) = el_sterm e"
      "hs_vote (wal_loadHardState (hardstate_bin files)) = el_svote e" "el_sterm e < 2 ^ 64"
  shows "sim_server (cl_ids c) net i v (el_restart e)"
proof -
  let ?w = "wal_open files" and ?c = "ac_toRaftConfig (c\<lparr>ac_selfId := i\<rparr>) mode"
  have ne: "ac_peers c \<noteq> []" using i by (auto simp: cl_ids_def)
  have "sv_start F w = Some w" if "sv_snap w = snaps" for w :: "'a Server" using files(2) that by (simp add: sv_start_def)
  with boot obtain v0 where v0: "sv_new (c\<lparr>ac_selfId := i\<rparr>) mode r f files snaps ent = Some v0" "v0 = v"
    by (auto simp: sv_boot_def sv_new_def Let_def split: Option.bind_splits if_split_asm)
  then have v: "sv_node v = rn_new ?c (wal_view ?w) ent" "sv_wal v = ?w" "sv_inbox v = []" "sv_snap v = snaps" "sv_phase v = Ticking"
    by (auto simp: sv_new_def Let_def split: if_split_asm)
  have "rn_voters (sv_node v) = map pi_id (ac_peers c)"
    using ne files(1) unfolding v(1)
    by (simp add: rn_new_def Let_def rn_randomize_def ac_toRaftConfig_def wal_view_def wal_initialState_def wal_open_def
        wal_loadConfState_def split: prod.split)
  moreover have "rn_id (sv_node v) = i" "rn_term (sv_node v) = el_sterm e" "rn_vote (sv_node v) = el_svote e"
    "rn_role (sv_node v) = Follower" "rn_votes (sv_node v) = []" "rn_msgs (sv_node v) = []"
    using e unfolding v(1)
    by (simp_all add: rn_new_def Let_def rn_randomize_def ac_toRaftConfig_def wal_view_def wal_initialState_def wal_open_def
        case_prod_unfold)
  ultimately have "sim_node (cl_ids c) i (sv_node v) (el_restart e)"
    using d by (simp add: sim_node_def el_restart_def cl_ids_def)
  then show ?thesis
    using v files e by (simp add: sim_server_def el_restart_def saved_hs_def wal_open_def phase_ok_def)
qed

text \<open>The phases of the Raft thread.\<close>

lemma sim_server_node:
  assumes "sim_server ids net i v e" "el_moves ids enet i e e'" "sim_node ids i n e'" "el_term e' < 2 ^ 64"
    and "sv_node v' = n" "sv_wal v' = sv_wal v" "set (sv_inbox v') \<subseteq> set (sv_inbox v)" "sv_snap v' = sv_snap v"
    and "sv_phase v' \<in> {Draining, Polling}"
  shows "sim_server ids net i v' e'"
  using assms moves_frame [OF assms(2)] by (auto simp: sim_server_def saved_hs_def phase_ok_def)

lemma sim_ticking:
  assumes "sim_server ids net i v e" "sv_thread_step F v = Some (ms, v')" "sv_phase v = Ticking"
    and "rn_term (sv_node v) < 2 ^ 64 - 1"
  shows "\<exists>e'. (el_step ids enet i)\<^sup>*\<^sup>* e e' \<and> sim_server ids net i v' e' \<and> ms = []"
proof -
  from assms(2,3) obtain b n where n: "rn_tick (sv_storage v) (sv_node v) = Some (b, n)"
    "v' = v\<lparr>sv_node := n, sv_phase := Draining\<rparr>" "ms = []"
    by (auto simp: sv_thread_step_def split: Option.bind_splits)
  have sn: "sim_node ids i (sv_node v) e" using assms(1) by (simp add: sim_server_def)
  from sim_tick [OF sn n(1) assms(4), of enet] obtain e' where e': "el_moves ids enet i e e'" "sim_node ids i n e'"
    "el_term e' \<le> el_term e + 1" by blast
  have b': "el_term e' < 2 ^ 64" using e'(3) sn assms(4) by (simp add: sim_node_def)
  have "sim_server ids net i v' e'" by (rule sim_server_node [OF assms(1) e'(1,2) b']) (simp_all add: n(2))
  with e'(1) n(3) moves_steps show ?thesis by blast
qed

lemma sim_draining:
  assumes "sim_server ids net i v e" "sv_thread_step F v = Some (ms, v')" "sv_phase v = Draining"
    and net: "vviews net \<subseteq> enet" "Alien \<notin> enet"
  shows "\<exists>e'. (el_step ids enet i)\<^sup>*\<^sup>* e e' \<and> sim_server ids net i v' e' \<and> ms = []"
proof -
  from assms(2,3) obtain n where n: "for_each (\<lambda>m n. rn_step (sv_storage v) n m) (sv_inbox v) (sv_node v) = Some n"
    "v' = v\<lparr>sv_node := n, sv_inbox := [], sv_phase := Polling\<rparr>" "ms = []"
    by (auto simp: sv_thread_step_def split: Option.bind_splits)
  have sn: "sim_node ids i (sv_node v) e" "el_term e < 2 ^ 64" using assms(1) by (simp_all add: sim_server_def)
  have "\<forall>m\<in>set (sv_inbox v). msg_to m = i \<and> msg_term m < 2 ^ 64 \<and> (\<forall>x. vote_view m = Some x \<longrightarrow> x \<in> enet)"
    using assms(1) net(1) by (auto simp: sim_server_def vviews_def)
  from sim_drain [OF sn this net(2) n(1)] obtain e' where e': "el_moves ids enet i e e'" "sim_node ids i n e'"
    "el_term e' < 2 ^ 64" by blast
  have "sim_server ids net i v' e'" by (rule sim_server_node [OF assms(1) e']) (simp_all add: n(2))
  with e'(1) n(3) moves_steps show ?thesis by blast
qed

lemma sim_polling:
  assumes "sim_server ids net i v e" "sv_thread_step F v = Some (ms, v')" "sv_phase v = Polling"
  shows "sim_server ids net i v' e \<and> ms = []"
proof -
  obtain rd n where n: "rn_poll (sv_storage v) (sv_node v) = (rd, n)" by fastforce
  with assms(2,3) have v': "v' = v\<lparr>sv_node := n, sv_phase := AppendingLog rd\<rparr>" "ms = []"
    by (simp_all add: sv_thread_step_def)
  have "sim_node ids i n e" using assms(1) quiet_poll(5) [OF n] by (simp add: sim_server_def sim_node_def el_fields_def)
  then show ?thesis
    using assms(1) quiet_poll(1-4) [OF n] v' by (simp add: sim_server_def saved_hs_def phase_ok_def sim_node_def)
qed

lemma sim_appending:
  assumes "sim_server ids net i v e" "sv_thread_step F v = Some (ms, v')" "sv_phase v = AppendingLog rd"
  shows "sim_server ids net i v' e \<and> ms = []"
  using assms by (auto simp: sv_thread_step_def sim_server_def saved_hs_def phase_ok_def)

lemma sim_saving:
  assumes sim: "sim_server ids net i v e" and step: "sv_thread_step F v = Some (ms, v')" "sv_phase v = SavingHardState rd"
    and vote: "el_vote e < 2 ^ 64"
  shows "\<exists>e'. (el_step ids enet i)\<^sup>*\<^sup>* e e' \<and> sim_server ids net i v' e' \<and> ms = []"
proof (cases "hs_nonzero (rd_hardState rd)")
  case True
  have hs: "hs_term (rd_hardState rd) = el_term e" "hs_vote (rd_hardState rd) = el_vote e" "el_term e < 2 ^ 64"
    using sim step(2) by (simp_all add: sim_server_def phase_ok_def)
  have "saved_hs v' = wal_loadHardState (Some (writeHardState (rd_hardState rd)))"
    using step True by (auto simp: sv_thread_step_def saved_hs_def wal_saveHardState_def wal_sync_def Let_def)
  then have "hs_term (saved_hs v') = el_term e" "hs_vote (saved_hs v') = el_vote e"
    using saved_hs_save [of "rd_hardState rd"] hs vote by (simp_all add: u64_ok_def)
  then have "sim_server ids net i v' (el_save e)"
    using sim step True
    by (auto simp: sv_thread_step_def sim_server_def phase_ok_def el_save_def sim_node_def covered_def wal_saveHardState_def
        wal_sync_def Let_def)
  moreover have "ms = []" using step by (auto simp: sv_thread_step_def Let_def)
  ultimately show ?thesis using Save [of ids enet i e] by blast
next
  case False
  then have "el_term e = 0" using sim step(2) by (simp add: sim_server_def phase_ok_def hs_nonzero_def)
  then have "sim_server ids net i v' e" "ms = []"
    using sim step False
    by (auto simp: sv_thread_step_def sim_server_def phase_ok_def saved_hs_def covered_def wal_sync_def Let_def)
  then show ?thesis by blast
qed

lemma sim_late:
  assumes sim: "sim_server ids net i v e" and step: "sv_thread_step F v = Some (ms, v')"
    and phase: "sv_phase v \<in> {InstallingSnapshot rd, Sending rd, Applying rd, Reading rd, Advancing}"
  shows "sim_server ids net i v' e \<and> views ms \<subseteq> el_out e \<and> (views ms = {} \<or> covered e)"
proof (cases "sv_phase v")
  case InstallingSnapshot
  with assms show ?thesis by (auto simp: sv_thread_step_def sim_server_def saved_hs_def phase_ok_def)
next
  case Sending
  with assms show ?thesis by (auto simp: sv_thread_step_def sim_server_def saved_hs_def phase_ok_def)
next
  case (Applying rd)
  with step obtain w where w: "sv_applyCommittedEntries F (rd_committedEntries rd) v = Some w"
    "v' = w\<lparr>sv_phase := Reading rd\<rparr>" "ms = []"
    by (auto simp: sv_thread_step_def split: Option.bind_splits)
  with sv_raft_apply [OF w(1)] sim show ?thesis
    by (auto simp: sv_raft_def sim_server_def saved_hs_def phase_ok_def)
next
  case (Reading rd)
  with step obtain w where w: "sv_handleReadStates F (rd_readStates rd) v = Some w"
    "v' = w\<lparr>sv_phase := Advancing\<rparr>" "ms = []"
    by (auto simp: sv_thread_step_def split: Option.bind_splits)
  with sv_raft_reads [OF w(1)] sim show ?thesis
    by (auto simp: sv_raft_def sim_server_def saved_hs_def phase_ok_def)
next
  case Advancing
  with step obtain n where n: "rn_advance (sv_storage v) (sv_node v) = Some n"
    "v' = v\<lparr>sv_node := n, sv_phase := Ticking\<rparr>" "ms = []"
    by (auto simp: sv_thread_step_def split: Option.bind_splits)
  have "sim_server ids net i v' e"
    by (rule sim_server_quiet [OF sim]) (simp_all add: n quiet_advance [OF n(1)] phase_ok_def)
  with n show ?thesis by simp
qed (use phase in auto)

lemma sim_thread:
  assumes sim: "sim_server ids net i v e" and step: "sv_thread_step F v = Some (ms, v')"
    and bound: "rn_term (sv_node v) < 2 ^ 64 - 1" and net: "vviews net \<subseteq> enet" "Alien \<notin> enet"
    and vote: "el_vote e < 2 ^ 64"
  shows "\<exists>e'. (el_step ids enet i)\<^sup>*\<^sup>* e e' \<and> sim_server ids net i v' e' \<and> views ms \<subseteq> el_out e' \<and>
    (views ms = {} \<or> covered e')"
proof (cases "sv_phase v")
  case Ticking
  from sim_ticking [OF sim step this bound, of enet] show ?thesis by auto
next
  case Draining
  from sim_draining [OF sim step this net] show ?thesis by auto
next
  case Polling
  from sim_polling [OF sim step this] show ?thesis by auto
next
  case AppendingLog
  from sim_appending [OF sim step this] show ?thesis by auto
next
  case SavingHardState
  from sim_saving [OF sim step this vote, of enet] show ?thesis by auto
qed (use sim_late [OF sim step] in auto)

section \<open>Reachable clusters\<close>

lemma sim_clusterD:
  assumes "sim_cluster ids s a"
  shows "i \<in> ids \<Longrightarrow> sim_server ids (cl_net s) i (cl_server s i) (ep_node a i)"
    "vviews (cl_net s) \<subseteq> ep_net a" "cl_led s \<subseteq> ep_won a" "ep_ok ids a" "Alien \<notin> ep_net a"
  using assms ep_okD(3) by (auto simp: sim_cluster_def net_ok_def)

lemma cl_conf_ids:
  assumes "cl_conf_ok c"
  shows "distinct (map pi_id (ac_peers c))" "0 \<notin> cl_ids c" "i \<in> cl_ids c \<Longrightarrow> i < 2 ^ 64" "finite (cl_ids c)"
  using assms by (auto simp: cl_conf_ok_def cl_ids_def)

lemma sim_frame:
  assumes sim: "sim_cluster ids s a" and i: "i \<in> ids" "0 \<notin> ids"
    and frame: "quiet (sv_node (cl_server s i)) (sv_node v) \<and> sv_wal v = sv_wal (cl_server s i) \<and>
      sv_inbox v = sv_inbox (cl_server s i) \<and> sv_snap v = sv_snap (cl_server s i) \<and> sv_phase v = sv_phase (cl_server s i)"
  shows "\<exists>a'. sim_cluster ids (cl_put i v [] s) a'"
proof (rule sim_cluster_put [OF sim i rtranclp.rtrancl_refl])
  have S: "sim_server ids (cl_net s) i (cl_server s i) (ep_node a i)" by (rule sim_clusterD(1) [OF sim i(1)])
  moreover from S have "phase_ok (sv_phase v) (ep_node a i)" using frame by (simp add: sim_server_def)
  ultimately show "sim_server ids (cl_net s) i v (ep_node a i)" using frame sim_server_quiet by blast
qed simp_all

lemma sim_cl_step:
  assumes conf: "cl_conf_ok c" and sim: "sim_cluster (cl_ids c) s a" and step: "cl_step F c mode r f s s'"
  shows "\<exists>a'. sim_cluster (cl_ids c) s' a'"
  using step
proof cases
  note C = cl_conf_ids [OF conf] and D = sim_clusterD [OF sim]
  {
    case (Thread i ms v)
    have "el_counted (cl_ids c) (ep_node a i)" by (rule ep_okD(2) [OF D(4) Thread(2)])
    then have "el_vote (ep_node a i) < 2 ^ 64" using C(3) by (auto simp: el_counted_def)
    from sim_thread [OF D(1) [OF Thread(2)] Thread(4,3) D(2,5) this] obtain e' where
      "(el_step (cl_ids c) (ep_net a) i)\<^sup>*\<^sup>* (ep_node a i) e'" "sim_server (cl_ids c) (cl_net s) i v e'"
      "views ms \<subseteq> el_out e'" "views ms = {} \<or> covered e'" by blast
    from sim_cluster_put [OF sim Thread(2) C(2) this] Thread(1) show ?thesis by simp
  next
    case (Deliver i m)
    have "sim_server (cl_ids c) (cl_net s) i (sv_onRaftMessage (cl_server s i) m) (ep_node a i)"
      using D(1) [OF Deliver(2)] Deliver by (auto simp: sim_server_def sv_onRaftMessage_def saved_hs_def)
    from sim_cluster_put [OF sim Deliver(2) C(2) rtranclp.rtrancl_refl this, of "[]"] Deliver(1) show ?thesis by simp
  next
    case (Submit i cmd tk v)
    from sim_frame [OF sim Submit(2) C(2) sv_submitRaw_frame [OF Submit(3)]] Submit(1) show ?thesis by simp
  next
    case (TextRequest i cmd ans v)
    from sim_frame [OF sim TextRequest(2) C(2) sv_onClientRequest_frame [OF TextRequest(3)]] TextRequest(1) show ?thesis by simp
  next
    case (Read i b k res v)
    from sim_frame [OF sim Read(2) C(2) sv_read_frame [OF Read(3)]] Read(1) show ?thesis by simp
  next
    case (Crash i entropy v)
    note S = D(1) [OF Crash(2)]
    have "el_sterm (ep_node a i) < 2 ^ 64"
      using S el_ok_D(1) [OF ep_okD(1) [OF D(4) Crash(2)]] by (simp add: sim_server_def)
    with S have "sim_server (cl_ids c) (cl_net s) i v (el_restart (ep_node a i))"
      by (intro sim_boot [OF Crash(3,2) C(1)]) (simp_all add: sim_server_def saved_hs_def)
    from sim_cluster_put [OF sim Crash(2) C(2) r_into_rtranclp [where r = "el_step (cl_ids c) (ep_net a) i", OF Restart] this, of "[]"]
      Crash(1) show ?thesis by simp
  }
qed

lemma sim_initial:
  assumes conf: "cl_conf_ok c" and init: "cl_initial F c mode r f s"
  shows "sim_cluster (cl_ids c) s ep_init"
proof -
  have "sim_server (cl_ids c) {} i (cl_server s i) (ep_node ep_init i)" if i: "i \<in> cl_ids c" for i
  proof -
    obtain ent where "sv_boot F c mode r f i fresh_files fresh_snaps ent = Some (cl_server s i)"
      using init i by (auto simp: cl_initial_def)
    then have "sim_server (cl_ids c) {} i (cl_server s i) (el_restart (ep_node ep_init i))"
      by (rule sim_boot [OF _ i cl_conf_ids(1) [OF conf]])
        (simp_all add: fresh_files_def fresh_snaps_def sf_load_def wal_loadHardState_def ep_init_def)
    then show ?thesis by (simp add: ep_init_def el_restart_def)
  qed
  with init show ?thesis by (simp add: sim_cluster_def cl_initial_def ep_ok_init)
qed

lemma sim_reach:
  assumes "cl_conf_ok c" "cl_reach F c mode r f s"
  shows "\<exists>a. sim_cluster (cl_ids c) s a"
  using assms(2)
proof (induction rule: cl_reach.induct)
  case (Boot s)
  from sim_initial [OF assms(1) Boot] show ?case by blast
next
  case (Run s s')
  then obtain a where "sim_cluster (cl_ids c) s a" by blast
  from sim_cl_step [OF assms(1) this Run(2)] show ?case .
qed

lemma one_leader_per_term:
  assumes "cl_conf_ok c" "cl_reach F c mode r f s" "(t, i) \<in> cl_led s" "(t, j) \<in> cl_led s"
  shows "i = j"
proof -
  obtain a where a: "sim_cluster (cl_ids c) s a" using sim_reach [OF assms(1,2)] by blast
  note D = sim_clusterD [OF a]
  from one_leader [OF D(4) cl_conf_ids(4) [OF assms(1)]] D(3) assms(3,4) show ?thesis by blast
qed

end
