(* ===== verification/Raft_Properties.thy ===== *)
theory Raft_Properties
  imports Raft_Cluster
begin

text \<open>
  The properties of the Raft library and of its persistence: elections, voting, the replicated log over
  the write-ahead log, flow control, commitment, crash recovery, and the places where the code departs
  from its comments.
\<close>

section \<open>Elections\<close>

text \<open>C1. Election safety: in every reachable state of a cluster of servers, with messages lost, repeated
  and reordered and servers restarted from their files, a term has had at most one leader.\<close>

theorem election_safety:
  assumes "cl_conf_ok c" "cl_reach F c mode r f s"
    and "(t, i) \<in> cl_led s" "(t, j) \<in> cl_led s"
  shows "i = j"
  using assms by (rule one_leader_per_term)

definition demo_peer :: "nat \<Rightarrow> PeerInfo" where
  "demo_peer i = \<lparr>pi_id = i, pi_host = ''127.0.0.1'', pi_raftPort = 9000, pi_clientPort = 8000\<rparr>"

definition demo_conf :: "nat list \<Rightarrow> AppConfig" where
  "demo_conf ids =
     \<lparr>ac_selfId = 0, ac_peers = map demo_peer ids, ac_electionTick = 1, ac_heartbeatTick = 1,
      ac_maxSizePerMsg = 1048576, ac_maxInflightMsgs = 4\<rparr>"

definition null_machine :: "unit StateMachine" where
  "null_machine =
     \<lparr>fsm_apply = (\<lambda>u _. Some ([], u)), fsm_snapshot = (\<lambda>_. Some []), fsm_restore = (\<lambda>u _. Some u),
      br_bids = (\<lambda>_ _. Some []), br_asks = (\<lambda>_ _. Some [])\<rparr>"

definition demo_server :: "nat list \<Rightarrow> nat \<Rightarrow> unit Server" where
  "demo_server ids i =
     the (sv_boot null_machine (demo_conf ids) RM_Direct False () i fresh_files fresh_snaps (\<lambda>k. i + k))"

definition demo_cluster :: "nat list \<Rightarrow> unit Cluster" where
  "demo_cluster ids = \<lparr>cl_server = demo_server ids, cl_net = {}, cl_led = {}\<rparr>"

abbreviation demo_reach :: "nat list \<Rightarrow> unit Cluster \<Rightarrow> bool" where
  "demo_reach ids \<equiv> cl_reach null_machine (demo_conf ids) RM_Direct False ()"

lemma demo_conf_ok: "cl_conf_ok (demo_conf [1, 2, 3])"
  by (simp add: cl_conf_ok_def demo_conf_def demo_peer_def cl_ids_def)

lemma demo_ids: "cl_ids (demo_conf [1, 2, 3]) = {1, 2, 3}"
  by (simp add: demo_conf_def demo_peer_def cl_ids_def)

lemma demo_boot: "demo_reach [1, 2, 3] (demo_cluster [1, 2, 3])"
proof (rule Boot)
  have "sv_boot null_machine (demo_conf [1, 2, 3]) RM_Direct False () i fresh_files fresh_snaps (\<lambda>k. i + k) = Some (demo_server [1, 2, 3] i)"
    if "i \<in> {1, 2, 3}" for i
    using that by (auto simp: demo_server_def sv_boot_def sv_new_def sv_start_def ac_self_def demo_conf_def demo_peer_def
        sf_load_def fresh_snaps_def Let_def)
  then show "cl_initial null_machine (demo_conf [1, 2, 3]) RM_Direct False () (demo_cluster [1, 2, 3])"
    unfolding cl_initial_def demo_ids by (auto simp: demo_cluster_def)
qed

text \<open>An executable scheduler for concrete runs: threads run and numbered messages are delivered.\<close>

datatype Action = RunThread nat | DeliverTo nat nat

type_synonym 'f Run = "(nat \<Rightarrow> 'f Server) \<times> Message list \<times> (nat \<times> nat) list"

fun run_action :: "'f StateMachine \<Rightarrow> nat list \<Rightarrow> Action \<Rightarrow> 'f Run \<Rightarrow> 'f Run option" where
  "run_action F ids (RunThread i) (sv, net, led) =
     (if i \<in> set ids \<and> rn_term (sv_node (sv i)) < 2 ^ 64 - 1
      then (case sv_thread_step F (sv i) of
              None \<Rightarrow> None
            | Some (ms, v) \<Rightarrow>
                Some (sv(i := v), net @ ms, (if sv_isLeader v then (rn_term (sv_node v), i) # led else led)))
      else None)"
| "run_action F ids (DeliverTo i k) (sv, net, led) =
     (if i \<in> set ids \<and> k < length net \<and> msg_to (net ! k) = i \<and> msg_term (net ! k) < 2 ^ 64
      then let v = sv_onRaftMessage (sv i) (net ! k)
           in Some (sv(i := v), net, (if sv_isLeader v then (rn_term (sv_node v), i) # led else led))
      else None)"

definition run_actions :: "'f StateMachine \<Rightarrow> nat list \<Rightarrow> Action list \<Rightarrow> 'f Run \<Rightarrow> 'f Run option" where
  "run_actions F ids = for_each (run_action F ids)"

definition run_cluster :: "'f Run \<Rightarrow> 'f Cluster" where
  "run_cluster x = (case x of (sv, net, led) \<Rightarrow> \<lparr>cl_server = sv, cl_net = set net, cl_led = set led\<rparr>)"

lemma run_action_step:
  assumes "run_action F ids a x = Some y" "cl_ids c = set ids"
  shows "cl_step F c mode r f (run_cluster x) (run_cluster y)"
proof -
  obtain sv net led where x: "x = (sv, net, led)" by (cases x)
  show ?thesis
  proof (cases a)
    case (RunThread i)
    with assms(1) x obtain ms v where s: "i \<in> set ids" "rn_term (sv_node (sv i)) < 2 ^ 64 - 1"
      "sv_thread_step F (sv i) = Some (ms, v)"
      "y = (sv(i := v), net @ ms, if sv_isLeader v then (rn_term (sv_node v), i) # led else led)"
      by (auto split: if_split_asm option.splits)
    have "cl_step F c mode r f (run_cluster x) (cl_put i v ms (run_cluster x))"
      by (rule Thread) (use s x assms(2) in \<open>simp_all add: run_cluster_def\<close>)
    then show ?thesis using s(4) x by (simp add: run_cluster_def cl_put_def split: if_splits)
  next
    case (DeliverTo i k)
    let ?v = "sv_onRaftMessage (sv i) (net ! k)"
    from DeliverTo assms(1) x have s: "i \<in> set ids" "k < length net" "msg_to (net ! k) = i" "msg_term (net ! k) < 2 ^ 64"
      "y = (sv(i := ?v), net, if sv_isLeader ?v then (rn_term (sv_node ?v), i) # led else led)"
      by (simp_all only: run_action.simps Let_def split: if_split_asm) simp_all
    have "cl_step F c mode r f (run_cluster x) (cl_put i (sv_onRaftMessage (cl_server (run_cluster x) i) (net ! k)) [] (run_cluster x))"
      by (rule Deliver) (use s x assms(2) in \<open>simp_all add: run_cluster_def\<close>)
    then show ?thesis using s(5) x by (simp add: run_cluster_def cl_put_def split: if_splits)
  qed
qed

lemma run_actions_reach:
  assumes "cl_reach F c mode r f (run_cluster x)" "run_actions F ids as x = Some y" "cl_ids c = set ids"
  shows "cl_reach F c mode r f (run_cluster y)"
  using assms(1,2)
proof (induction "as" arbitrary: x)
  case (Cons a as)
  then obtain z where z: "run_action F ids a x = Some z" "run_actions F ids as z = Some y"
    by (auto simp: run_actions_def split: Option.bind_splits)
  from Run [OF Cons.prems(1) run_action_step [OF z(1) assms(3)]] Cons.IH z(2) show ?case by blast
qed (simp add: run_actions_def)

definition demo_schedule :: "Action list" where
  "demo_schedule =
     [RunThread 2, RunThread 2, RunThread 2, RunThread 2, RunThread 2, RunThread 2, RunThread 2, DeliverTo 1 0,
      RunThread 1, RunThread 1, RunThread 1, RunThread 1, RunThread 1, RunThread 1, RunThread 1, DeliverTo 2 2,
      RunThread 2, RunThread 2, RunThread 2, RunThread 2, RunThread 2]"

lemmas run_defs = demo_server_def sv_boot_def sv_new_def sv_start_def ac_self_def demo_conf_def demo_peer_def
  sf_load_def fresh_snaps_def fresh_files_def wal_open_def wal_replay_def replay_loop.simps rn_new_def wal_view_def
  wal_initialState_def wal_lastIndex_def wal_firstIndex_def wal_loadHardState_def wal_loadConfState_def
  ac_toRaftConfig_def rn_randomize_def uniform_def rl_init_def u64_add_def u64_sub_def wal_snapshot_def lu_init_def
  ro_new_def ro_setOption_def Let_def sv_thread_step_def rn_tick_def rn_tickElection_def rn_campaign_def
  rn_becomeCandidate_def rn_quorum_def ro_reset_def rn_send_def rn_new_msg_def rl_lastTerm_def rl_term_def
  rl_firstIndex_def rl_lastIndex_def lu_maybeFirstIndex_def lu_maybeLastIndex_def lu_maybeTerm_def new_Message_def
  run_actions_def sv_isLeader_def rn_poll_def rl_unstableEntries_def rl_nextCommittedEntries_def makeHardState_def
  hs_nonzero_def wal_saveHardState_def wal_sync_def sv_onRaftMessage_def rn_step_def rn_becomeFollower_def
  rn_stepFollower_def sv_applyCommittedEntries_def sv_handleReadStates_def rn_advance_def rn_stepCandidate_def
  rn_pollVote_def rn_becomeLeader_def pr_put_def pr_index_def pr_new_def inf_new_def pr_reset_def inf_reset_def
  pr_becomeReplicate_def rn_broadcastAppend_def rn_sendAppend_def rl_slice_def default_Entry_def
  default_Snapshot_def wal_term_def

lemma demo_elects:
  "map_option (\<lambda>(sv, net, led). led) (run_actions null_machine [1, 2, 3] demo_schedule (demo_server [1, 2, 3], [], [])) =
     Some [(1, 2)]"
  unfolding demo_schedule_def by (simp add: run_defs del: One_nat_def)

lemma demo_elected: "\<exists>s. demo_reach [1, 2, 3] s \<and> cl_led s = {(1, 2)}"
proof -
  obtain sv net where run:
    "run_actions null_machine [1, 2, 3] demo_schedule (demo_server [1, 2, 3], [], []) = Some (sv, net, [(1, 2)])"
    using demo_elects by auto
  have "demo_reach [1, 2, 3] (run_cluster (demo_server [1, 2, 3], [], []))"
    using demo_boot by (simp add: run_cluster_def demo_cluster_def)
  moreover have "cl_ids (demo_conf [1, 2, 3]) = set [1, 2, 3]" using demo_ids by simp
  ultimately have "demo_reach [1, 2, 3] (run_cluster (sv, net, [(1, 2)]))" using run_actions_reach [OF _ run] by blast
  then show ?thesis by (auto simp: run_cluster_def)
qed

theorem election_safety_witness:
  "cl_conf_ok (demo_conf [1, 2, 3]) \<and> (\<exists>s. demo_reach [1, 2, 3] s \<and> {j. (1, j) \<in> cl_led s} = {2})"
proof -
  obtain s where s: "demo_reach [1, 2, 3] s" "cl_led s = {(1, 2)}" using demo_elected by blast
  have "{j. (1, j) \<in> cl_led s} = {2}"
    using election_safety [OF demo_conf_ok s(1), of 1 2] s(2) by auto
  with s(1) demo_conf_ok show ?thesis by blast
qed

text \<open>C8. Votes are durable before they are sent: for every granted vote on the network, the voter's
  \<^verbatim>\<open>hardstate.bin\<close> holds that vote or a later term.\<close>

theorem granted_votes_durable:
  assumes "cl_conf_ok c" "cl_reach F c mode r f s"
    and "m \<in> cl_net s" "msg_type m = MsgVoteResp" "\<not> msg_reject m"
  shows "msg_from m \<in> cl_ids c \<and>
    (let hs = wal_loadHardState (hardstate_bin (wal_files (sv_wal (cl_server s (msg_from m)))))
     in msg_term m < hs_term hs \<or> msg_term m = hs_term hs \<and> hs_vote hs = msg_to m)"
proof -
  obtain a where a: "sim_cluster (cl_ids c) s a" using sim_reach [OF assms(1,2)] by blast
  note D = sim_clusterD [OF a]
  have "Grant (msg_from m) (msg_to m) (msg_term m) \<in> vviews (cl_net s)"
    using assms(3-5) by (auto simp: vviews_def vote_view_def intro!: bexI [of _ m])
  with D(2) ep_okD(3) [OF D(4)] have "msg_from m \<in> cl_ids c" "stands_saved (ep_node a (msg_from m)) (msg_term m) (msg_to m)"
    by (auto simp: net_ok_def)
  with D(1) show ?thesis by (auto simp: sim_server_def saved_hs_def stands_saved_def Let_def)
qed

lemma demo_votes:
  "map_option (\<lambda>(sv, net, led). map (\<lambda>m. (msg_type m, msg_from m, msg_to m, msg_term m, msg_reject m)) net)
     (run_actions null_machine [1, 2, 3] demo_schedule (demo_server [1, 2, 3], [], [])) =
   Some [(MsgVote, 2, 1, 1, False), (MsgVote, 2, 3, 1, False), (MsgVoteResp, 1, 2, 1, False)]"
  unfolding demo_schedule_def by (simp add: run_defs del: One_nat_def)

lemma demo_voted:
  "\<exists>s m. demo_reach [1, 2, 3] s \<and> m \<in> cl_net s \<and> msg_type m = MsgVoteResp \<and> msg_from m = 1 \<and> msg_to m = 2 \<and>
     msg_term m = 1 \<and> \<not> msg_reject m"
proof -
  obtain sv net led where run:
    "run_actions null_machine [1, 2, 3] demo_schedule (demo_server [1, 2, 3], [], []) = Some (sv, net, led)"
    and net: "map (\<lambda>m. (msg_type m, msg_from m, msg_to m, msg_term m, msg_reject m)) net =
      [(MsgVote, 2, 1, 1, False), (MsgVote, 2, 3, 1, False), (MsgVoteResp, 1, 2, 1, False)]"
    using demo_votes by auto
  have "demo_reach [1, 2, 3] (run_cluster (demo_server [1, 2, 3], [], []))"
    using demo_boot by (simp add: run_cluster_def demo_cluster_def)
  moreover have "cl_ids (demo_conf [1, 2, 3]) = set [1, 2, 3]" using demo_ids by simp
  ultimately have "demo_reach [1, 2, 3] (run_cluster (sv, net, led))" using run_actions_reach [OF _ run] by blast
  moreover have "(MsgVoteResp, 1, 2, 1, False) \<in> set (map (\<lambda>m. (msg_type m, msg_from m, msg_to m, msg_term m, msg_reject m)) net)"
    unfolding net by simp
  then obtain m where "m \<in> set net" "msg_type m = MsgVoteResp" "msg_from m = 1" "msg_to m = 2" "msg_term m = 1" "\<not> msg_reject m"
    by auto
  moreover have "cl_net (run_cluster (sv, net, led)) = set net" by (simp add: run_cluster_def)
  ultimately show ?thesis by blast
qed

theorem granted_votes_durable_witness:
  "\<exists>s m. demo_reach [1, 2, 3] s \<and> m \<in> cl_net s \<and> msg_type m = MsgVoteResp \<and> \<not> msg_reject m \<and>
     (let hs = wal_loadHardState (hardstate_bin (wal_files (sv_wal (cl_server s 1))))
      in 1 < hs_term hs \<or> 1 = hs_term hs \<and> hs_vote hs = 2)"
proof -
  obtain s m where s: "demo_reach [1, 2, 3] s" "m \<in> cl_net s" "msg_type m = MsgVoteResp" "msg_from m = 1" "msg_to m = 2"
    "msg_term m = 1" "\<not> msg_reject m" using demo_voted by blast
  from granted_votes_durable [OF demo_conf_ok s(1,2,3,7)] s show ?thesis by auto
qed

lemma stepFollower_keeps:
  assumes "rn_stepFollower S n m = Some n'" "msg_type m \<noteq> MsgTimeoutNow"
  shows "rn_term n' = rn_term n \<and> (rn_vote n \<noteq> 0 \<longrightarrow> rn_vote n' = rn_vote n)"
proof -
  consider "msg_type m = MsgVote" | "msg_type m \<in> {MsgPreVote, MsgPreVoteResp}" | "vote_view m \<noteq> Some Alien" "msg_type m \<noteq> MsgVote"
    using assms(2) by (cases "msg_type m") (auto simp: vote_view_def)
  then show ?thesis
  proof cases
    case 1
    from stepFollower_vote [OF assms(1) this] show ?thesis by (auto simp: quiet_def el_fields_def)
  next
    case 2
    with assms(1) show ?thesis
      by (auto simp: rn_stepFollower_def Let_def rn_send_def split: Option.bind_splits)
  next
    case 3
    from stepFollower_other [OF assms(1) 3] show ?thesis by (simp add: quiet_def el_fields_def)
  qed
qed

text \<open>Within a term a follower's vote is final: no message makes it vote for somebody else.\<close>

theorem vote_is_final:
  assumes "rn_step S n m = Some n'" "rn_role n = Follower" "rn_vote n \<noteq> 0" "rn_term n' = rn_term n"
    and "msg_type m \<noteq> MsgTimeoutNow"
  shows "rn_vote n' = rn_vote n"
proof -
  consider (loc) "msg_type m \<in> {MsgUnreachable, MsgSnapStatus}"
    | (stale) "rn_vote n' = rn_vote n"
    | (here) "rn_stepFollower S n m = Some n'"
    | (newer) "rn_stepFollower S (rn_becomeFollower n (msg_term m) 0) m = Some n'" "msg_term m > rn_term n"
  proof (cases "msg_type m \<in> {MsgUnreachable, MsgSnapStatus}")
    case True
    then show ?thesis by (rule that(1))
  next
    case False
    have "rn_role (rn_becomeFollower n (msg_term m) 0) = Follower" "rn_term (rn_becomeFollower n (msg_term m) 0) = msg_term m"
      using el_fields_becomeFollower [of n "msg_term m" 0] by (simp_all add: el_fields_def)
    with False assms(1,2) that(2,3,4) show ?thesis
      by (auto simp: rn_step_def rn_send_def Let_def split: if_split_asm)
  qed
  then show ?thesis
  proof cases
    case loc
    from quiet_local [OF assms(1) loc] show ?thesis by (simp add: quiet_def el_fields_def)
  next
    case stale
    then show ?thesis .
  next
    case here
    from stepFollower_keeps [OF here assms(5)] assms(3) show ?thesis by simp
  next
    case newer
    from stepFollower_keeps [OF newer(1) assms(5)] newer(2) assms(4) show ?thesis
      using el_fields_becomeFollower [of n "msg_term m" 0] by (simp add: el_fields_def)
  qed
qed

definition demo_follower :: RawNode where
  "demo_follower = (sv_node (demo_server [1, 2, 3] 1))\<lparr>rn_vote := 3, rn_term := 1\<rparr>"

theorem vote_is_final_witness:
  "\<exists>n'. rn_step (wal_view (wal_open fresh_files)) demo_follower (new_Message MsgVote 1 2 1) = Some n' \<and> rn_vote n' = 3"
proof -
  let ?S = "wal_view (wal_open fresh_files)" and ?m = "new_Message MsgVote 1 2 1"
  have "\<exists>n'. rn_step ?S demo_follower ?m = Some n' \<and> rn_term n' = 1"
    by (simp add: demo_follower_def run_defs del: One_nat_def)
  then obtain n' where n': "rn_step ?S demo_follower ?m = Some n'" "rn_term n' = 1" by blast
  moreover have "rn_role demo_follower = Follower" "rn_vote demo_follower = 3" "rn_term demo_follower = 1"
    by (simp_all add: demo_follower_def run_defs del: One_nat_def)
  ultimately show ?thesis using vote_is_final [OF n'(1)] by simp
qed

section \<open>Timeouts and reads\<close>



text \<open>The upper end is reached: the interval is closed, where \<^verbatim>\<open>RawNode.h\<close> documents a half-open one.\<close>

theorem election_timeout_upper_end:
  "\<exists>n. rn_electionTick n = 1 \<and> rn_randomizedElectionTick (rn_randomize n) = 2 * rn_electionTick n"
  by (rule exI [of _ "demo_follower\<lparr>rn_drawn := 0\<rparr>"]) (simp add: demo_follower_def run_defs del: One_nat_def)

text \<open>A follower drops the read token of a heartbeat: whatever token the heartbeat carries, the response
  carries none, and a leader that receives a response without a token leaves its pending reads alone.\<close>

theorem heartbeat_drops_token:
  assumes "rn_stepFollower S n m = Some n'" "msg_type m = MsgHeartbeat"
  shows "\<exists>resp. rn_msgs n' = rn_msgs n @ [resp] \<and> msg_type resp = MsgHeartbeatResp \<and> msg_to resp = msg_from m \<and>
    msg_context resp = [] \<and> (\<forall>leader. rn_recvReadAck leader resp = leader)"
  using assms
  by (cases "rl_committed (rn_log n) < msg_commit m")
    (auto simp: rn_stepFollower_def Let_def rn_send_def rn_new_msg_def rn_recvReadAck_def)

theorem heartbeat_drops_token_witness:
  "\<exists>n'. rn_stepFollower (wal_view (wal_open fresh_files)) demo_follower
       ((new_Message MsgHeartbeat 1 2 1)\<lparr>msg_context := [1, 2, 3]\<rparr>) = Some n' \<and> msg_context (last (rn_msgs n')) = []"
proof -
  let ?S = "wal_view (wal_open fresh_files)" and ?m = "(new_Message MsgHeartbeat 1 2 1)\<lparr>msg_context := [1, 2, 3]\<rparr>"
  obtain n' where n': "rn_stepFollower ?S demo_follower ?m = Some n'"
    by (simp add: rn_stepFollower_def Let_def new_Message_def)
  from heartbeat_drops_token [OF this] have "msg_context (last (rn_msgs n')) = []" by (auto simp: new_Message_def)
  with n' show ?thesis by blast
qed

section \<open>Commitment and flow control\<close>

lemma descending_quorum:
  fixes xs :: "nat list"
  assumes "q \<le> length xs" "0 < q"
  shows "q \<le> length (filter (\<lambda>x. rev (sort xs) ! (q - 1) \<le> x) xs)"
proof -
  let ?d = "rev (sort xs)" and ?P = "\<lambda>x. rev (sort xs) ! (q - 1) \<le> x"
  have "?P (?d ! i)" if "i < q" for i
    using that assms by (auto simp: rev_nth intro!: sorted_nth_mono)
  then have "filter ?P (take q ?d) = take q ?d"
    using assms by (intro filter_True) (auto simp: in_set_conv_nth)
  then have "q = length (filter ?P (take q ?d))" using assms by simp
  also have "\<dots> \<le> length (filter ?P (take q ?d)) + length (filter ?P (drop q ?d))" by simp
  also have "\<dots> = length (filter ?P ?d)" by (metis append_take_drop_id filter_append length_append)
  also have "\<dots> = length (filter ?P xs)" by (simp add: rev_filter [symmetric] filter_sort)
  finally show ?thesis .
qed

text \<open>The index a tracked node is known to hold; the leader holds its whole log.\<close>

definition match_of :: "Storage \<Rightarrow> RawNode \<Rightarrow> nat \<times> Progress \<Rightarrow> nat" where
  "match_of S n = (\<lambda>(k, pr). if k = rn_id n then rl_lastIndex S (rn_log n) else pr_matchIndex pr)"

text \<open>C10. The commit rule: when a leader advances its commit index, the new index is larger, the entry there
  is of the leader's term, and at least a quorum of the tracked nodes is known to hold it.\<close>

theorem commit_rule:
  assumes "rn_maybeCommit S n = Some (True, n')"
  shows "rl_committed (rn_log n) < rl_committed (rn_log n') \<and>
    rl_term S (rn_log n) (rl_committed (rn_log n')) = Some (rn_term n) \<and>
    rn_quorum n \<le> length (filter (\<lambda>p. rl_committed (rn_log n') \<le> match_of S n p) (rn_pr n))"
proof -
  let ?ms = "map (match_of S n) (rn_pr n)"
  define N where "N = rev (sort ?ms) ! (rn_quorum n - 1)"
  have q: "rn_quorum n \<le> length ?ms" "0 < rn_quorum n"
    and c: "N > rl_committed (rn_log n)" "rl_term S (rn_log n) N = Some (rn_term n)"
      "n' = n\<lparr>rn_log := (rn_log n)\<lparr>rl_committed := N\<rparr>\<rparr>"
    using assms unfolding rn_maybeCommit_def match_of_def [symmetric] N_def Let_def
    by (auto simp: rl_maybeCommit_def rn_quorum_def split: if_split_asm Option.bind_splits)
  have "rn_quorum n \<le> length (filter (\<lambda>x. N \<le> x) ?ms)"
    unfolding N_def by (rule descending_quorum [OF q])
  then have "rn_quorum n \<le> length (filter (\<lambda>p. N \<le> match_of S n p) (rn_pr n))"
    by (simp add: filter_map o_def)
  with c show ?thesis by simp
qed

text \<open>C32. The in-flight window is a bounded first-in first-out queue: it is full exactly at its capacity,
  adding to a window that is not full never aborts and appends at the end, and acknowledging an index
  drops the leading entries up to it.\<close>

theorem inflights_fifo:
  assumes "inf_ok f"
  shows "(inf_full f \<longleftrightarrow> length (inf_content f) = length (inf_buffer f)) \<and>
    (inf_full f \<or> (\<exists>f'. inf_add f i = Some f' \<and> inf_ok f' \<and> inf_content f' = inf_content f @ [i])) \<and>
    inf_ok (inf_freeTo f i) \<and> inf_content (inf_freeTo f i) = dropWhile (\<lambda>x. x \<le> i) (inf_content f) \<and>
    inf_content (inf_reset f) = []"
  using assms inflights.full_law [OF assms] inflights.add_law [OF assms, of i] inflights.free_law [OF assms, of i]
    inflights.clear_law [OF assms] by blast

theorem inflights_fifo_witness:
  "inf_ok (inf_new 2) \<and> inf_content (the (inf_add (inf_new 2) 7)) = [7]"
  using inflights_fifo [OF inf_ok_new [of 2], of 7] inf_ok_new [of 2]
  by (auto simp: inf_new_def inf_full_def inf_content_def)

text \<open>C35. Probing backs off: a rejection of the probed index strictly lowers \<open>nextIndex\<close>, never below one, so
  at most \<open>nextIndex\<close> rejections in a row are possible.\<close>

theorem probe_backs_off:
  assumes "pr_state p \<noteq> Replicate" "1 < pr_nextIndex p" "pr_nextIndex p < 2 ^ 64"
  shows "\<exists>p'. pr_maybeDecrFromRejectHint p (pr_nextIndex p - 1) hint = (True, p') \<and>
    1 \<le> pr_nextIndex p' \<and> pr_nextIndex p' < pr_nextIndex p \<and> pr_nextIndex p' \<le> max 1 (hint + 1)"
proof -
  have "u64_sub (pr_nextIndex p) 1 = pr_nextIndex p - 1" using assms(2) by (intro u64_sub_small) simp
  moreover have "hint < pr_nextIndex p - 1 \<Longrightarrow> u64_add hint 1 = hint + 1" using assms(3) by (intro u64_add_small) simp
  ultimately show ?thesis using assms by (auto simp: pr_maybeDecrFromRejectHint_def Let_def)
qed

theorem probe_backs_off_witness:
  "\<exists>p'. pr_maybeDecrFromRejectHint ((pr_new 4 False)\<lparr>pr_nextIndex := 9\<rparr>) 8 3 = (True, p') \<and> pr_nextIndex p' < 9"
  using probe_backs_off [of "(pr_new 4 False)\<lparr>pr_nextIndex := 9\<rparr>" 3] by (simp add: pr_new_def) blast

definition demo_leader :: RawNode where
  "demo_leader = (sv_node (demo_server [1, 2, 3] 1))
     \<lparr>rn_term := 1, rn_role := Leader,
      rn_log := \<lparr>rl_unstable = lu_append lu_init [\<lparr>ent_term = 1, ent_index = 1, ent_type = Normal, ent_data = []\<rparr>],
                 rl_committed = 0, rl_applied = 0\<rparr>,
      rn_pr := [(1, pr_new 4 False), (2, (pr_new 4 False)\<lparr>pr_matchIndex := 1\<rparr>), (3, pr_new 4 False)]\<rparr>"

theorem commit_rule_witness:
  "\<exists>n'. rn_maybeCommit (wal_view (wal_open fresh_files)) demo_leader = Some (True, n') \<and> 0 < rl_committed (rn_log n')"
proof -
  have "\<exists>n'. rn_maybeCommit (wal_view (wal_open fresh_files)) demo_leader = Some (True, n')"
    by (simp add: demo_leader_def rn_maybeCommit_def rl_maybeCommit_def lu_append_def lu_truncateAndAppend_def run_defs)
  then obtain n' where n': "rn_maybeCommit (wal_view (wal_open fresh_files)) demo_leader = Some (True, n')" by blast
  from commit_rule [OF this] have "0 < rl_committed (rn_log n')" by linarith
  with n' show ?thesis by blast
qed

text \<open>A successful snapshot transfer is forgotten: \<open>becomeProbe\<close> clears the pending index before \<open>step\<close>
  copies it, so after \<open>MsgSnapStatus\<close> the peer is taken to hold nothing and probing restarts at one.\<close>

theorem snap_status_forgets_match:
  assumes "rn_step S n m = Some n'" "msg_type m = MsgSnapStatus" "\<not> msg_reject m"
    and "map_of (rn_pr n) (msg_from m) = Some pr" "pr_state pr = SendingSnapshot" "std_sorted (<) (rn_pr n)"
  shows "\<exists>pr'. map_of (rn_pr n') (msg_from m) = Some pr' \<and> pr_matchIndex pr' = 0 \<and> pr_nextIndex pr' = 1"
proof -
  let ?p = "(pr_becomeProbe pr)\<lparr>pr_matchIndex := 0, pr_nextIndex := 1\<rparr>"
  have "Some n' = map_option snd (rn_maybeCommit S (pr_put (msg_from m) ?p n))"
    using assms by (auto simp: rn_step_def Let_def pr_becomeProbe_def u64_add_def)
  then have "rn_pr n' = rn_pr (pr_put (msg_from m) ?p n)"
    by (auto simp: rn_maybeCommit_def Let_def split: if_split_asm Option.bind_splits)
  then have "map_of (rn_pr n') (msg_from m) = Some ?p"
    using less_nat.put_map_of [OF assms(6)] by (simp add: pr_put_def)
  then show ?thesis by simp
qed

theorem snap_status_forgets_match_witness:
  "\<exists>n'. rn_step (wal_view (wal_open fresh_files))
       (demo_leader\<lparr>rn_pr := [(1, pr_new 4 False), (2, pr_becomeSnapshot (pr_new 4 False) 5)]\<rparr>)
       (new_Message MsgSnapStatus 1 2 0) = Some n' \<and>
     map_option pr_matchIndex (map_of (rn_pr n') 2) = Some 0"
proof -
  let ?S = "wal_view (wal_open fresh_files)" and ?m = "new_Message MsgSnapStatus 1 2 0"
    and ?n = "demo_leader\<lparr>rn_pr := [(1, pr_new 4 False), (2, pr_becomeSnapshot (pr_new 4 False) 5)]\<rparr>"
  have "\<exists>n'. rn_step ?S ?n ?m = Some n'"
    by (simp add: demo_leader_def rn_maybeCommit_def rl_maybeCommit_def lu_append_def lu_truncateAndAppend_def
        pr_becomeSnapshot_def pr_becomeProbe_def run_defs)
  then obtain n' where n': "rn_step ?S ?n ?m = Some n'" by blast
  from snap_status_forgets_match [OF n', of "pr_becomeSnapshot (pr_new 4 False) 5"]
  have "map_option pr_matchIndex (map_of (rn_pr n') 2) = Some 0" by (auto simp: pr_becomeSnapshot_def)
  with n' show ?thesis by blast
qed

end
