(* ===== verification/Log_Properties.thy ===== *)
theory Log_Properties
  imports Raw_Node Snapshot_File
begin

text \<open>
  Properties of the replicated log over the write-ahead log, through the interpretation of the storage
  contract on \<^verbatim>\<open>WriteAheadLog\<close>, and of crash recovery.
\<close>

definition demo_entry :: "nat \<Rightarrow> nat \<Rightarrow> Entry" where
  "demo_entry i t = \<lparr>ent_term = t, ent_index = i, ent_type = Normal, ent_data = [of_nat i]\<rparr>"

definition demo_wal :: WriteAheadLog where
  "demo_wal = wal_appendNoSync (wal_open \<lparr>log_bin = [], hardstate_bin = None, confstate_bin = None\<rparr>)
     [demo_entry 1 1, demo_entry 2 1, demo_entry 3 1]"

definition demo_raft_log :: RaftLog where
  "demo_raft_log = \<lparr>rl_unstable = lu_append lu_init [demo_entry 4 2], rl_committed = 3, rl_applied = 1\<rparr>"

lemmas log_defs = wal_open_def wal_replay_def replay_loop.simps wal_appendNoSync_def wal_lastIndex_def wal_firstIndex_def
  wal_snapshot_def wal_view_def wal_term_def wal_entries_def Let_def u64_add_def u64_sub_def demo_entry_def default_Entry_def
  lu_init_def lu_append_def lu_truncateAndAppend_def lu_maybeLastIndex_def lu_maybeFirstIndex_def rl_lastIndex_def
  rl_firstIndex_def vec_resize_def

lemma demo_wal_ok: "wal_ok demo_wal"
  by (simp add: demo_wal_def wal_ok_def contiguous_Cons log_defs)

lemma demo_raft_log_ok: "rl_ok (wal_view demo_wal) demo_raft_log" "rl_covers (wal_view demo_wal) demo_raft_log"
  "rl_lastIndex (wal_view demo_wal) demo_raft_log = 4" "rl_synced (wal_view demo_wal) demo_raft_log"
  by (simp_all add: demo_wal_def demo_raft_log_def rl_ok_def rl_covers_def rl_synced_def lu_ok_def contiguous_Cons log_defs)

section \<open>The replicated log\<close>



text \<open>A leader only appends: consecutive entries after the end of its log keep every earlier entry, the
  commit index and the invariant, and the call returns the new last index.\<close>

theorem leader_append_only:
  assumes "wal_ok w" "rl_ok (wal_view w) rl" "es \<noteq> []" "contiguous (rl_lastIndex (wal_view w) rl + 1) es"
    and "rl_lastIndex (wal_view w) rl + 1 + length es < 2 ^ 64 - 1"
  shows "\<exists>rl'. rl_append (wal_view w) rl es = (rl_lastIndex (wal_view w) rl + length es, rl') \<and>
    rl_ok (wal_view w) rl' \<and> rl_synced (wal_view w) rl' \<and> rl_committed rl' = rl_committed rl \<and>
    (\<forall>i. rl_at (wal_at w) rl' i =
       (if i \<le> rl_lastIndex (wal_view w) rl then rl_at (wal_at w) rl i
        else if i \<le> rl_lastIndex (wal_view w) rl + length es
        then Some (es ! (i - rl_lastIndex (wal_view w) rl - 1)) else None))"
  using assms by (rule wal.leader_append)

theorem leader_append_only_witness:
  "\<exists>rl'. rl_append (wal_view demo_wal) demo_raft_log [demo_entry 5 2] = (5, rl') \<and> rl_at (wal_at demo_wal) rl' 5 = Some (demo_entry 5 2)"
  using leader_append_only [OF demo_wal_ok demo_raft_log_ok(1), of "[demo_entry 5 2]"]
  by (auto simp: demo_raft_log_ok(3) contiguous_Cons demo_entry_def)



text \<open>C36. Right after a restart nothing is delivered, whatever is committed: the fresh window has offset zero,
  so \<open>slice\<close> never asks the storage and returns nothing until the next append.\<close>

theorem restart_delivers_nothing:
  assumes "rl_unstable rl = rl_unstable (rl_init S)" "1 \<le> rl_firstIndex S rl"
  shows "rl_nextCommittedEntries S rl b = []"
  using assms
  by (auto simp: rl_nextCommittedEntries_def rl_slice_def rl_init_def lu_init_def lu_slice_def limit_size_def Let_def
      split: option.split)

theorem restart_delivers_nothing_witness:
  "wal_at demo_wal 1 = Some (demo_entry 1 1) \<and>
   rl_nextCommittedEntries (wal_view demo_wal) ((rl_init (wal_view demo_wal))\<lparr>rl_committed := 3\<rparr>) True = []"
  using restart_delivers_nothing [of "(rl_init (wal_view demo_wal))\<lparr>rl_committed := 3\<rparr>" "wal_view demo_wal" True]
  by (simp add: demo_wal_def wal_at_def rl_init_def log_defs)

text \<open>A well-formed log can answer a term for an index past its own end: after an overwrite in memory the
  persisted tail that it replaces still answers.\<close>

theorem stale_term_past_end:
  "\<exists>w rl. wal_ok w \<and> rl_ok (wal_view w) rl \<and> rl_lastIndex (wal_view w) rl = 2 \<and> rl_term (wal_view w) rl 3 = Some 1"
proof (intro exI conjI)
  let ?rl = "\<lparr>rl_unstable = lu_append lu_init [demo_entry 2 2], rl_committed = 1, rl_applied = 0\<rparr>"
  show "wal_ok demo_wal" by (rule demo_wal_ok)
  show "rl_ok (wal_view demo_wal) ?rl" "rl_lastIndex (wal_view demo_wal) ?rl = 2" "rl_term (wal_view demo_wal) ?rl 3 = Some 1"
    by (simp_all add: demo_wal_def rl_ok_def lu_ok_def contiguous_Cons rl_term_def lu_maybeTerm_def log_defs)
qed


section \<open>Crash recovery\<close>

text \<open>The states of a write-ahead log used as documented: from empty files, by appends of consecutive
  entries that start inside or right after the log, and by saving the hard and configuration state.\<close>

inductive wal_used :: "WriteAheadLog \<Rightarrow> bool" where
  Fresh: "wal_used (wal_open \<lparr>log_bin = [], hardstate_bin = None, confstate_bin = None\<rparr>)"
| Append: "wal_used w \<Longrightarrow> wal_appendable w ents \<Longrightarrow> wal_used (wal_append w ents)"
| SaveHard: "wal_used w \<Longrightarrow> hardState_ok hs \<Longrightarrow> wal_used (wal_saveHardState w hs)"
| SaveConf: "wal_used w \<Longrightarrow> list_all u64_ok (cs_nodes cs) \<Longrightarrow> list_all u64_ok (cs_learners cs) \<Longrightarrow>
    length (cs_nodes cs) < 2 ^ 32 \<Longrightarrow> length (cs_learners cs) < 2 ^ 32 \<Longrightarrow> wal_used (wal_saveConfState w cs)"

lemma wal_used_ok: "wal_used w \<Longrightarrow> wal_ok w \<and> wal_durable w"
  by (induction rule: wal_used.induct)
    (simp_all add: wal_fresh wal_append_def wal_sync_def wal_ok_append wal_durable_append wal_durable_saveHardState
      wal_durable_saveConfState)

text \<open>C19. Crash recovery: however the log has been used, reopening its files gives back the whole state, the
  entries, the hard state and the configuration.\<close>

theorem wal_recovers:
  assumes "wal_used w"
  shows "wal_open (wal_files w) = w"
  using wal_used_ok [OF assms] wal_reopen by blast

lemma demo_wal_used: "wal_used demo_wal"
proof -
  let ?w = "wal_open \<lparr>log_bin = [], hardstate_bin = None, confstate_bin = None\<rparr>"
  have "wal_appendable ?w [demo_entry 1 1, demo_entry 2 1, demo_entry 3 1]"
    by (simp add: wal_appendable_def contiguous_Cons entry_ok_def u64_ok_def log_defs)
  from Append [OF Fresh this] show ?thesis by (simp add: demo_wal_def wal_append_def wal_sync_def)
qed

theorem wal_recovers_witness:
  "length (wal_log (wal_open (wal_files demo_wal))) = 4"
  using wal_recovers [OF demo_wal_used] by (simp add: demo_wal_def log_defs)



text \<open>A crash in the middle of the in-place rewrite of \<^verbatim>\<open>hardstate.bin\<close> is not noticed: when only the
  term reached the file, loading gives the new term with no vote, so a vote already given is forgotten.\<close>

theorem torn_hardstate_forgets_vote:
  assumes "u64_ok (hs_term hs)"
  shows "wal_loadHardState (Some (take 8 (writeHardState hs))) = \<lparr>hs_term = hs_term hs, hs_vote = 0, hs_commit = 0\<rparr>"
proof -
  have "readU64 0 (writeU64 (hs_term hs)) = (True, hs_term hs, [])"
    using readU64_write [OF assms, of 0 "[]"] by simp
  moreover have "readU64 0 [] = (False, 0, [])"
    using le_word_le_bytes [of 8 "0 :: u64"] by (simp add: readU64_def fread_def writeU64_def)
  ultimately show ?thesis by (simp add: wal_loadHardState_def readHardState_def writeHardState_def)
qed

theorem torn_hardstate_forgets_vote_witness:
  "wal_loadHardState (Some (take 8 (writeHardState \<lparr>hs_term = 7, hs_vote = 2, hs_commit = 5\<rparr>))) =
     \<lparr>hs_term = 7, hs_vote = 0, hs_commit = 0\<rparr>"
  using torn_hardstate_forgets_vote [of "\<lparr>hs_term = 7, hs_vote = 2, hs_commit = 5\<rparr>"] by (simp add: u64_ok_def)

text \<open>C21. Snapshots are replaced atomically: any amount of the temporary file written leaves the old snapshot
  loadable, and after the rename the new one is loaded whole.\<close>

theorem snapshot_replaced_atomically:
  assumes "snapshot_ok s"
  shows "sf_load (sf_writeTmp (take k (writeSnapshot s)) d) = sf_load d \<and> sf_load (sf_save d s) = Some s"
  using assms by (simp add: sf_load_save)

theorem snapshot_replaced_atomically_witness:
  "sf_load (sf_save \<lparr>snapshot_bin = None, snapshot_tmp = None\<rparr> \<lparr>snap_term = 2, snap_index = 9, snap_data = [1, 2]\<rparr>) =
     Some \<lparr>snap_term = 2, snap_index = 9, snap_data = [1, 2]\<rparr>"
  using snapshot_replaced_atomically [of "\<lparr>snap_term = 2, snap_index = 9, snap_data = [1, 2]\<rparr>"]
  by (simp add: snapshot_ok_def u64_ok_def)

text \<open>Installing a snapshot drops the entries after it: the mirror keeps nothing above the snapshot index,
  where the comment says the entries above it are kept.\<close>

theorem install_drops_suffix:
  assumes "wal_applySnapshot w snap = Some w'" "snap_index snap < length (wal_log w)"
  shows "length (wal_log w') = snap_index snap + 1 \<and> wal_at w' i = None"
  using assms by (auto simp: wal_applySnapshot_def Let_def vec_resize_def wal_at_def split: if_split_asm)

theorem install_drops_suffix_witness:
  "\<exists>w'. wal_applySnapshot demo_wal \<lparr>snap_term = 1, snap_index = 1, snap_data = []\<rparr> = Some w' \<and>
     wal_at demo_wal 3 = Some (demo_entry 3 1) \<and> wal_at w' 3 = None"
proof -
  let ?s = "\<lparr>snap_term = 1, snap_index = 1, snap_data = []\<rparr>"
  have l: "snap_index ?s < length (wal_log demo_wal)" by (simp add: demo_wal_def log_defs)
  have "\<exists>w'. wal_applySnapshot demo_wal ?s = Some w'"
    by (simp add: demo_wal_def wal_applySnapshot_def log_defs)
  then obtain w' where w': "wal_applySnapshot demo_wal ?s = Some w'" by blast
  moreover have "wal_at demo_wal 3 = Some (demo_entry 3 1)" by (simp add: demo_wal_def wal_at_def log_defs)
  ultimately show ?thesis using install_drops_suffix [OF w' l, of 3] by blast
qed

end
