(* ===== verification/Server_Properties.thy ===== *)
theory Server_Properties
  imports Server_Loop LOB_State_Machine
begin

text \<open>
  The server over the order-book state machine: what applying committed entries does to the book and to
  the waiting clients, and where serving reads and answering clients goes wrong.
\<close>

section \<open>The order-book state machine behind the server\<close>

definition lob_machine :: "'b IOrderBook \<Rightarrow> 'b LOBStateMachine StateMachine" where
  "lob_machine ops =
     \<lparr>fsm_apply = lob_apply ops, fsm_snapshot = lob_snapshot ops,
      fsm_restore = lob_restore ops,
      br_bids = lob_bids ops, br_asks = lob_asks ops\<rparr>"

text \<open>The answers that a batch of entries with results \<open>rs\<close> gives to the tickets waiting at their indices.\<close>

fun answers :: "(nat, nat) std_map \<Rightarrow> Entry list \<Rightarrow> byte list list \<Rightarrow> (nat \<times> byte list) list" where
  "answers pend (e # es) (r # rs) =
     (case map_of pend (ent_index e) of None \<Rightarrow> [] | Some tk \<Rightarrow> [(tk, r)]) @ answers pend es rs"
| "answers pend _ _ = []"

lemma answers_erase: "k \<notin> ent_index ` set es \<Longrightarrow> answers (std_erase k pend) es rs = answers pend es rs"
  by (induction pend es rs rule: answers.induct) (auto simp: std_map_of_erase)

context order_book
begin

lemma apply_entry:
  assumes "inv (lsm_book (sv_fsm sv))"
  shows "\<exists>sv'. sv_applyEntry (lob_machine ops) e sv = Some sv' \<and>
    lsm_abs absb (sv_fsm sv') = snd (spec_apply (lsm_abs absb (sv_fsm sv)) (ent_data e)) \<and>
    inv (lsm_book (sv_fsm sv')) \<and> sv_appliedIndex sv' = ent_index e \<and>
    sv_pending sv' = std_erase (ent_index e) (sv_pending sv) \<and>
    sv_results sv' = sv_results sv @ answers (sv_pending sv) [e] [fst (spec_apply (lsm_abs absb (sv_fsm sv)) (ent_data e))]"
proof -
  obtain st where st: "lob_apply ops (sv_fsm sv) (ent_data e) = Some (fst (spec_apply (lsm_abs absb (sv_fsm sv)) (ent_data e)), st)"
    "lsm_abs absb st = snd (spec_apply (lsm_abs absb (sv_fsm sv)) (ent_data e))" "inv (lsm_book st)"
    using apply_refines [OF assms, of "ent_data e"] by blast
  show ?thesis
  proof (cases "map_of (sv_pending sv) (ent_index e)")
    case None
    then have "ent_index e \<notin> fst ` set (sv_pending sv)" by (simp add: map_of_eq_None_iff)
    with None st show ?thesis by (simp add: sv_applyEntry_def lob_machine_def Let_def std_erase_id)
  next
    case (Some tk)
    with st show ?thesis by (simp add: sv_applyEntry_def lob_machine_def Let_def)
  qed
qed

lemma apply_entries:
  assumes "inv (lsm_book (sv_fsm sv))" "distinct (map ent_index es)"
  shows "\<exists>sv'. sv_applyCommittedEntries (lob_machine ops) es sv = Some sv' \<and>
    lsm_abs absb (sv_fsm sv') = snd (spec_run (lsm_abs absb (sv_fsm sv)) (map ent_data es)) \<and>
    inv (lsm_book (sv_fsm sv')) \<and> sv_appliedIndex sv' = (if es = [] then sv_appliedIndex sv else ent_index (last es)) \<and>
    sv_results sv' = sv_results sv @ answers (sv_pending sv) es (fst (spec_run (lsm_abs absb (sv_fsm sv)) (map ent_data es)))"
  using assms
proof (induction es arbitrary: sv)
  case Nil
  then show ?case by (simp add: sv_applyCommittedEntries_def)
next
  case (Cons e es)
  obtain r s where rs: "spec_apply (lsm_abs absb (sv_fsm sv)) (ent_data e) = (r, s)" by (rule prod.exhaust)
  obtain sv1 where sv1: "sv_applyEntry (lob_machine ops) e sv = Some sv1" "lsm_abs absb (sv_fsm sv1) = s"
    "inv (lsm_book (sv_fsm sv1))" "sv_appliedIndex sv1 = ent_index e"
    "sv_pending sv1 = std_erase (ent_index e) (sv_pending sv)"
    "sv_results sv1 = sv_results sv @ answers (sv_pending sv) [e] [r]"
    using apply_entry [OF Cons.prems(1), of e] unfolding rs by auto
  have d: "distinct (map ent_index es)" "ent_index e \<notin> ent_index ` set es" using Cons.prems(2) by auto
  obtain sv' where "sv_applyCommittedEntries (lob_machine ops) es sv1 = Some sv'"
    "lsm_abs absb (sv_fsm sv') = snd (spec_run s (map ent_data es))" "inv (lsm_book (sv_fsm sv'))"
    "sv_appliedIndex sv' = (if es = [] then ent_index e else ent_index (last es))"
    "sv_results sv' = sv_results sv1 @ answers (sv_pending sv) es (fst (spec_run s (map ent_data es)))"
    using Cons.IH [OF sv1(3) d(1)] answers_erase [OF d(2)] unfolding sv1(2,4,5) by auto
  with sv1 rs show ?case
    by (simp add: sv_applyCommittedEntries_def case_prod_unfold Let_def)
qed

end

text \<open>C12. Applying committed entries drives the replicated book: over the map engine it never fails, the book
  and every answer are those of the abstract order book on the payloads in log order, each client waiting
  at an index gets the result of the entry at that index, and the applied index is that of the last entry.\<close>

theorem server_applies_book:
  assumes "mob_ok (lsm_book (sv_fsm sv))" "distinct (map ent_index es)"
  shows "\<exists>sv'. sv_applyCommittedEntries (lob_machine map_book_ops) es sv = Some sv' \<and>
    lsm_abs mob_abs (sv_fsm sv') = snd (spec_run (lsm_abs mob_abs (sv_fsm sv)) (map ent_data es)) \<and>
    mob_ok (lsm_book (sv_fsm sv')) \<and>
    sv_appliedIndex sv' = (if es = [] then sv_appliedIndex sv else ent_index (last es)) \<and>
    sv_results sv' =
      sv_results sv @ answers (sv_pending sv) es (fst (spec_run (lsm_abs mob_abs (sv_fsm sv)) (map ent_data es)))"
  using assms by (rule map_book.apply_entries)

definition demo_book_server :: "MapOrderBook LOBStateMachine Server" where
  "demo_book_server =
     \<lparr>sv_readMode = RM_ReadIndex, sv_hasReader = True,
      sv_node = rn_new \<lparr>cfg_id = 1, cfg_leaderId = 1, cfg_electionTick = 10, cfg_heartbeatTick = 1, cfg_maxSizePerMsg = 1048576,
          cfg_maxInflightMsgs = 4, cfg_peers = [1, 2, 3], cfg_learners = [], cfg_readOnlyOption = Safe\<rparr>
        (wal_view (wal_open \<lparr>log_bin = [], hardstate_bin = None, confstate_bin = None\<rparr>)) (\<lambda>_. 0),
      sv_wal = wal_open \<lparr>log_bin = [], hardstate_bin = None, confstate_bin = None\<rparr>,
      sv_snap = \<lparr>snapshot_bin = None, snapshot_tmp = None\<rparr>, sv_fsm = lsm_init (mob_empty []), sv_phase = Ticking,
      sv_inbox = [], sv_pending = [], sv_results = [], sv_reads = [], sv_readResults = [], sv_nextTicket = 0,
      sv_readToken = 1, sv_appliedIndex = 0\<rparr>"

definition demo_command :: Entry where
  "demo_command = \<lparr>ent_term = 1, ent_index = 1, ent_type = Normal, ent_data = encodeNew 7 Buy 100 5\<rparr>"

theorem server_applies_book_witness:
  "\<exists>sv'. sv_applyCommittedEntries (lob_machine map_book_ops) [demo_command] (demo_book_server\<lparr>sv_pending := [(1, 9)]\<rparr>) = Some sv' \<and>
     sv_appliedIndex sv' = 1 \<and> map fst (sv_results sv') = [9]"
proof -
  let ?sv = "demo_book_server\<lparr>sv_pending := [(1, 9)]\<rparr>"
  have "mob_ok (lsm_book (sv_fsm ?sv))" by (simp add: demo_book_server_def lsm_init_def mob_ok_empty)
  from server_applies_book [OF this, of "[demo_command]"] obtain sv' where
    sv': "sv_applyCommittedEntries (lob_machine map_book_ops) [demo_command] ?sv = Some sv'" "sv_appliedIndex sv' = 1"
    "sv_results sv' = answers [(1, 9)] [demo_command] (fst (spec_run (lsm_abs mob_abs (sv_fsm ?sv)) [ent_data demo_command]))"
    by (auto simp: demo_command_def demo_book_server_def)
  then have "map fst (sv_results sv') = [9]" by (simp add: demo_command_def case_prod_unfold Let_def)
  with sv'(1,2) show ?thesis by (intro exI [of _ sv'] conjI)
qed

section \<open>Answers by index\<close>




text \<open>The Raft thread can block itself: when a read state names an index above the applied one, the thread
  that alone could apply more waits inside \<open>handleReadStates\<close> and makes no further step.\<close>

theorem read_blocks_raft_thread:
  assumes "sv_phase sv = Reading rd" "rd_readStates rd = rs # rest"
    and "map_of (sv_reads sv) (rs_requestCtx rs) = Some p" "sv_appliedIndex sv < rs_index rs"
  shows "sv_thread_step F sv = None"
  using assms by (simp add: sv_thread_step_def sv_handleReadStates_def sv_handleReadState_def)

theorem read_blocks_raft_thread_witness:
  "sv_thread_step (lob_machine map_book_ops)
     (demo_book_server\<lparr>sv_reads := [([1], \<lparr>rq_ticket = 0, rq_maxLevels = 0, rq_isBids = True\<rparr>)],
       sv_phase := Reading \<lparr>rd_entries = [], rd_hardState = makeHardState 1 0 0, rd_messages = [], rd_committedEntries = [],
         rd_snapshot = None, rd_readStates = [\<lparr>rs_index = 3, rs_requestCtx = [1]\<rparr>]\<rparr>\<rparr>) = None"
  by (rule read_blocks_raft_thread [where rd = "\<lparr>rd_entries = [], rd_hardState = makeHardState 1 0 0, rd_messages = [],
        rd_committedEntries = [], rd_snapshot = None, rd_readStates = [\<lparr>rs_index = 3, rs_requestCtx = [1]\<rparr>]\<rparr>" and rs = "\<lparr>rs_index = 3, rs_requestCtx = [1]\<rparr>" and rest = "[]"])
    (simp_all add: demo_book_server_def)

end
