(* ===== verification/Engine_Properties.thy ===== *)
theory Engine_Properties
  imports Order_Book_Properties
begin

text \<open>
  The two matching engines are interchangeable behind the interface, and the skip list is a map: for
  every sequence of coin flips, every sequence of operations and every sequence of payloads.
\<close>

section \<open>The skip list as a map\<close>

datatype 'v level_op = Put int 'v | Del int

fun sl_do :: "Side \<Rightarrow> 'v level_op \<Rightarrow> (int, 'v) SkipList \<Rightarrow> (bool \<times> (int, 'v) SkipList) option" where
  "sl_do s (Put k v) sl = sl_insert (price_before s) sl k v"
| "sl_do s (Del k) sl = sl_remove (price_before s) sl k"

fun sl_run :: "Side \<Rightarrow> 'v level_op list \<Rightarrow> (int, 'v) SkipList \<Rightarrow> (bool list \<times> (int, 'v) SkipList) option" where
  "sl_run s [] sl = Some ([], sl)"
| "sl_run s (x # xs) sl = do { (r, sl) \<leftarrow> sl_do s x sl; (rs, sl) \<leftarrow> sl_run s xs sl; Some (r # rs, sl) }"

text \<open>The same calls on a mathematical map; an insertion keeps the value of a key that is present.\<close>

fun map_do :: "'v level_op \<Rightarrow> (int \<rightharpoonup> 'v) \<Rightarrow> bool \<times> (int \<rightharpoonup> 'v)" where
  "map_do (Put k v) m = (m k = None, if m k = None then m(k \<mapsto> v) else m)"
| "map_do (Del k) m = (m k \<noteq> None, m(k := None))"

fun map_run :: "'v level_op list \<Rightarrow> (int \<rightharpoonup> 'v) \<Rightarrow> bool list \<times> (int \<rightharpoonup> 'v)" where
  "map_run [] m = ([], m)"
| "map_run (x # xs) m = (let (r, m) = map_do x m; (rs, m) = map_run xs m in (r # rs, m))"

lemma sl_do_refines:
  assumes ok: "sl_ok (price_before s) sl"
  shows "\<exists>sl'. sl_do s x sl = Some (fst (map_do x (map_of (sl_abs sl))), sl') \<and> sl_ok (price_before s) sl' \<and>
    map_of (sl_abs sl') = snd (map_do x (map_of (sl_abs sl)))"
proof (cases x)
  case (Put k v)
  then show ?thesis
    using skip.insert_refines [OF ok, of k v] price.put_map_of [OF sl_ok_sorted [OF ok], of k v] by auto
next
  case (Del k)
  then show ?thesis using skip.remove_refines [OF ok, of k] by (auto simp: std_map_of_erase)
qed

lemma sl_run_refines:
  "sl_ok (price_before s) sl \<Longrightarrow>
     \<exists>sl'. sl_run s xs sl = Some (fst (map_run xs (map_of (sl_abs sl))), sl') \<and> sl_ok (price_before s) sl' \<and>
       map_of (sl_abs sl') = snd (map_run xs (map_of (sl_abs sl)))"
proof (induction xs arbitrary: sl)
  case (Cons x xs)
  from sl_do_refines [OF Cons.prems, of x] obtain sl1 where sl1:
    "sl_do s x sl = Some (fst (map_do x (map_of (sl_abs sl))), sl1)" "sl_ok (price_before s) sl1"
    "map_of (sl_abs sl1) = snd (map_do x (map_of (sl_abs sl)))" by blast
  from Cons.IH [OF sl1(2)] sl1 show ?case by (auto simp: case_prod_unfold Let_def)
qed auto

lemma sl_find_value:
  assumes "sl_ok (price_before s) sl"
  shows "\<exists>r. sl_find (price_before s) sl k = Some r \<and>
    (case r of None \<Rightarrow> map_of (sl_abs sl) k = None
     | Some a \<Rightarrow> map_option nd_value (node_at (sl_mem sl) a) = map_of (sl_abs sl) k \<and> map_of (sl_abs sl) k \<noteq> None)"
  using assms by (cases rule: skip.find_cases [where k = k]) auto

text \<open>C13. The skip list is a map. Whatever the coins show, every sequence of insertions and removals on
  a new skip list returns (no search loop runs forever, no null or foreign pointer is followed), answers
  as a mathematical map does, and leaves a list whose bottom level is strictly ordered by the comparator
  and holds exactly the pairs of the map; \<open>find\<close> then returns a node with the value of the key, or
  null for an absent key.\<close>

theorem skip_list_is_map:
  "\<exists>sl. sl_run s xs (sl_new k0 v0 maxN coins) = Some (fst (map_run xs Map.empty), sl) \<and>
     std_sorted (price_before s) (sl_abs sl) \<and> map_of (sl_abs sl) = snd (map_run xs Map.empty) \<and>
     sl_getSize sl = int (length (sl_abs sl)) \<and>
     (\<forall>k. \<exists>r. sl_find (price_before s) sl k = Some r \<and>
        (case r of None \<Rightarrow> snd (map_run xs Map.empty) k = None
         | Some a \<Rightarrow> map_option nd_value (node_at (sl_mem sl) a) = snd (map_run xs Map.empty) k \<and>
                     snd (map_run xs Map.empty) k \<noteq> None))"
proof -
  have ok: "sl_ok (price_before s) (sl_new k0 v0 maxN coins)" by (rule sl_new_ok)
  from sl_run_refines [OF ok, of xs] obtain sl where sl: "sl_run s xs (sl_new k0 v0 maxN coins) = Some (fst (map_run xs Map.empty), sl)"
    "sl_ok (price_before s) sl" "map_of (sl_abs sl) = snd (map_run xs Map.empty)" by (auto simp: sl_new_ok)
  have "sl_getSize sl = int (length (sl_abs sl))"
    using sl_invD(11) [OF sl(2) [unfolded sl_ok_def]] by (simp add: sl_getSize_def sl_abs_def)
  with sl sl_ok_sorted [OF sl(2)] sl_find_value [OF sl(2), unfolded sl(3)] show ?thesis by auto
qed

section \<open>The engines agree\<close>

text \<open>C2. The engines are interchangeable. On every sequence of payloads, with any coins, the state
  machine over the skip-list engine and the one over the map engine both return, give the same answers,
  then take the same snapshot and show the same depth, best prices, order count and symbol.\<close>

theorem engines_agree:
  "\<exists>rs st st'. lob_run map_book_ops (lsm_init (mob_empty n)) ds = Some (rs, st) \<and>
     lob_run skip_book_ops (lsm_init (skb_new n device)) ds = Some (rs, st') \<and>
     lob_snapshot skip_book_ops st' = lob_snapshot map_book_ops st \<and> lob_snapshot map_book_ops st \<noteq> None \<and>
     lob_bids skip_book_ops st' k = lob_bids map_book_ops st k \<and> lob_asks skip_book_ops st' k = lob_asks map_book_ops st k \<and>
     lob_bestBid skip_book_ops st' = lob_bestBid map_book_ops st \<and> lob_bestAsk skip_book_ops st' = lob_bestAsk map_book_ops st \<and>
     lob_orderCount skip_book_ops st' = lob_orderCount map_book_ops st \<and> lob_symbol skip_book_ops st' = lob_symbol map_book_ops st"
proof -
  have init: "lsm_abs skb_abs (lsm_init (skb_new n device)) = (spec_reset n, 1)"
    by (simp add: lsm_abs_def lsm_init_def skb_new_ok)
  obtain st where st: "lob_run map_book_ops (lsm_init (mob_empty n)) ds = Some (fst (spec_run (spec_reset n, 1) ds), st)"
    "lsm_abs mob_abs st = snd (spec_run (spec_reset n, 1) ds)" "mob_ok (lsm_book st)"
    using map_book.run_refines [of "lsm_init (mob_empty n)" ds] mob_ok_empty unfolding lsm_abs_init
    by (auto simp: lsm_init_def)
  obtain st' where st': "lob_run skip_book_ops (lsm_init (skb_new n device)) ds = Some (fst (spec_run (spec_reset n, 1) ds), st')"
    "lsm_abs skb_abs st' = snd (spec_run (spec_reset n, 1) ds)" "skb_ok (lsm_book st')"
    using skip_book.run_refines [of "lsm_init (skb_new n device)" ds] skb_new_ok unfolding init by (auto simp: lsm_init_def)
  have abs: "skb_abs (lsm_book st') = mob_abs (lsm_book st)" using arg_cong [OF trans [OF st'(2) st(2) [symmetric]], of fst] by (simp add: lsm_abs_def)
  show ?thesis
    using st(1) st'(1) st(2) st'(2) map_book.snapshot_refines [OF st(3)] skip_book.snapshot_refines [OF st'(3)] abs
      map_book.symbol_refines [of "lsm_book st"] skip_book.symbol_refines [of "lsm_book st'"]
    by (intro exI [of _ st] exI [of _ st'] exI [of _ "fst (spec_run (spec_reset n, 1) ds)"])
      (simp add: lob_bids_def lob_asks_def lob_bestBid_def lob_bestAsk_def lob_orderCount_def lob_symbol_def
        map_book.bids_refines [OF st(3)] skip_book.bids_refines [OF st'(3)]
        map_book.asks_refines [OF st(3)] skip_book.asks_refines [OF st'(3)]
        map_book.bestBid_refines [OF st(3)] skip_book.bestBid_refines [OF st'(3)]
        map_book.bestAsk_refines [OF st(3)] skip_book.bestAsk_refines [OF st'(3)]
        map_book.count_refines [OF st(3)] skip_book.count_refines [OF st'(3)])
qed

end
