(* ===== verification/Socket_IO.thy ===== *)
theory Socket_IO
  imports Prelude
begin

text \<open>
  Blocking reads and writes in loops, as \<^verbatim>\<open>app/net\<close> does them: \<open>readN\<close> and \<open>writeAll\<close> of \<^verbatim>\<open>RaftTransport.cpp\<close>, with the same
  loops in \<^verbatim>\<open>OrderClientServer.cpp\<close> and \<^verbatim>\<open>ClientServer.cpp\<close>.

  The network cuts a stream into segments. A socket to read from is the list of segments that are still to arrive
  (an empty one is a failed or closed \<open>recv\<close>); the answers of the \<open>send\<close> calls are a list as well. The lemmas show that
  the segmentation does not matter, which lets the other theories work on the plain byte stream.
\<close>

section \<open>Reading\<close>

type_synonym segments = "byte list list"

definition recv :: "nat \<Rightarrow> segments \<Rightarrow> byte list \<times> segments" where
  "recv n segs =
     (case segs of
        [] \<Rightarrow> ([], [])
      | seg # rest \<Rightarrow> if length seg \<le> n then (seg, rest) else (take n seg, drop n seg # rest))"

function readN :: "nat \<Rightarrow> segments \<Rightarrow> (byte list \<times> segments) option" where
  "readN n segs =
     (if n = 0 then Some ([], segs)
      else
        let (got, segs) = recv n segs
        in if got = [] then None
           else do { (bs, segs) \<leftarrow> readN (n - length got) segs; Some (got @ bs, segs) })"
  by auto
termination
  by (relation "measure fst") auto

declare readN.simps [simp del]

lemma readN_length: "readN n segs = Some (bs, rest) \<Longrightarrow> length bs = n \<and> length (concat segs) = n + length (concat rest)"
proof (induction n arbitrary: segs bs rule: less_induct)
  case (less n)
  show ?case
  proof (cases "n = 0")
    case True
    with less.prems show ?thesis by (simp add: readN.simps)
  next
    case False
    obtain got segs1 where r: "recv n segs = (got, segs1)" by (rule prod.exhaust)
    then have got: "concat segs = got @ concat segs1" "length got \<le> n"
      by (auto simp: recv_def split: list.splits if_splits)
    obtain bs1 where "got \<noteq> []" "readN (n - length got) segs1 = Some (bs1, rest)" "bs = got @ bs1"
      using less.prems False r by (subst (asm) readN.simps) (auto simp: bind_eq_Some_conv split: if_splits)
    with less.IH [of "n - length got" segs1 bs1] got False show ?thesis by auto
  qed
qed

definition open_socket :: "segments \<Rightarrow> bool" where
  "open_socket segs \<longleftrightarrow> [] \<notin> set segs"

lemma recv_stream:
  assumes "recv n segs = (got, rest)" "open_socket segs" "0 < n"
  shows "concat segs = got @ concat rest" "open_socket rest" "length got \<le> n" "got = [] \<Longrightarrow> segs = []"
  using assms by (auto simp: recv_def open_socket_def split: list.splits if_splits)

lemma readN_stream:
  "open_socket segs \<Longrightarrow>
     (if length (concat segs) < n then readN n segs = None
      else \<exists>rest. readN n segs = Some (take n (concat segs), rest) \<and> concat rest = drop n (concat segs) \<and> open_socket rest)"
proof (induction n arbitrary: segs rule: less_induct)
  case (less n)
  show ?case
  proof (cases "n = 0")
    case True
    with less.prems show ?thesis by (simp add: readN.simps)
  next
    case False
    obtain got segs1 where r: "recv n segs = (got, segs1)" by (rule prod.exhaust)
    from False have "0 < n" by simp
    note s = recv_stream [OF r less.prems this]
    show ?thesis
    proof (cases "got = []")
      case True
      with s(4) False r show ?thesis by (subst readN.simps) (simp add: readN.simps)
    next
      case nonempty: False
      then have "n - length got < n" using False by simp
      from less.IH [OF this s(2)] s(1,3) nonempty False r show ?thesis
        by (subst (1 2) readN.simps) (auto split: if_splits)
    qed
  qed
qed

lemma readN_short: "open_socket segs \<Longrightarrow> length (concat segs) < n \<Longrightarrow> readN n segs = None"
  using readN_stream [of segs n] by simp

lemma readN_full:
  assumes "open_socket segs" "n \<le> length (concat segs)"
  obtains rest where "readN n segs = Some (take n (concat segs), rest)" "concat rest = drop n (concat segs)" "open_socket rest"
  using readN_stream [OF assms(1), of n] assms(2) by (auto split: if_splits)

section \<open>Writing\<close>

text \<open>What went out, and the result: \<open>None\<close> when the loop still waits for the socket.\<close>

fun writeAll :: "byte list \<Rightarrow> nat option list \<Rightarrow> byte list \<times> bool option" where
  "writeAll buf [] = ([], if buf = [] then Some True else None)"
| "writeAll buf (answer # answers) =
     (if buf = [] then ([], Some True)
      else case answer of
        None \<Rightarrow> ([], Some False)
      | Some s \<Rightarrow>
          let n = min s (length buf); (out, ok) = writeAll (drop n buf) answers
          in (take n buf @ out, ok))"

lemma writeAll_prefix: "\<exists>rest. buf = fst (writeAll buf answers) @ rest"
proof (induction buf answers rule: writeAll.induct)
  case (2 buf answer answers)
  show ?case
  proof (cases "buf = [] \<or> answer = None")
    case False
    then obtain s where s: "answer = Some s" "buf \<noteq> []" by auto
    from "2.IH" [OF s(2,1) refl] obtain rest where
      "drop (min s (length buf)) buf = fst (writeAll (drop (min s (length buf)) buf) answers) @ rest" by blast
    then have "buf = take (min s (length buf)) buf @ fst (writeAll (drop (min s (length buf)) buf) answers) @ rest"
      by (metis append_take_drop_id)
    then have "\<exists>rest. buf = take (min s (length buf)) buf @ fst (writeAll (drop (min s (length buf)) buf) answers) @ rest" ..
    then show ?thesis using s by (simp add: Let_def case_prod_unfold)
  qed auto
qed simp

lemma writeAll_ok: "snd (writeAll buf answers) = Some True \<Longrightarrow> fst (writeAll buf answers) = buf"
proof (induction buf answers rule: writeAll.induct)
  case (2 buf answer answers)
  show ?case
  proof (cases "buf = [] \<or> answer = None")
    case False
    then obtain s where s: "answer = Some s" "buf \<noteq> []" by auto
    from "2.IH" [OF s(2,1) refl] "2.prems" s show ?thesis by (simp add: Let_def case_prod_unfold)
  qed (use "2.prems" in auto)
qed (simp split: if_splits)

end
