(* ===== verification/Raft_Transport.thy ===== *)
theory Raft_Transport
  imports Write_Ahead_Log Wire Std_Map Socket_IO
begin

text \<open>
  The peer-to-peer transport, \<^verbatim>\<open>app/net/RaftTransport.cpp\<close>: the wire format of a message, the receive
  loop of a connection, and the table of persistent connections.

  A connection is the list of bytes that arrive on it before it closes; the receive loop turns it into
  the messages it hands to the server. Whether a connect or a write succeeds is up to the operating
  system and is a parameter of \<open>rt_send\<close>.
\<close>

section \<open>The wire format\<close>

definition appendU8 :: "byte \<Rightarrow> byte list \<Rightarrow> byte list" where
  "appendU8 v buf = buf @ [v]"

definition appendU32 :: "nat \<Rightarrow> byte list \<Rightarrow> byte list" where
  "appendU32 v buf = buf @ le_bytes 4 (of_nat v :: u32)"

definition appendU64 :: "nat \<Rightarrow> byte list \<Rightarrow> byte list" where
  "appendU64 v buf = buf @ le_bytes 8 (of_nat v :: u64)"

definition net_readU8 :: "byte list \<Rightarrow> nat \<Rightarrow> (byte \<times> nat) option" where
  "net_readU8 buf off = (if off + 1 > length buf then None else Some (buf ! off, off + 1))"

definition net_readU32 :: "byte list \<Rightarrow> nat \<Rightarrow> (nat \<times> nat) option" where
  "net_readU32 buf off =
     (if off + 4 > length buf then None else Some (unat (le_word (take 4 (drop off buf)) :: u32), off + 4))"

definition net_readU64 :: "byte list \<Rightarrow> nat \<Rightarrow> (nat \<times> nat) option" where
  "net_readU64 buf off =
     (if off + 8 > length buf then None else Some (unat (le_word (take 8 (drop off buf)) :: u64), off + 8))"

text \<open>The casts between the enum and its underlying byte.\<close>

definition MessageType_to_u8 :: "MessageType \<Rightarrow> byte" where
  "MessageType_to_u8 t =
     (case t of MsgPropose \<Rightarrow> 0 | MsgApp \<Rightarrow> 1 | MsgAppResp \<Rightarrow> 2 | MsgVote \<Rightarrow> 3 | MsgVoteResp \<Rightarrow> 4
      | MsgPreVote \<Rightarrow> 5 | MsgPreVoteResp \<Rightarrow> 6 | MsgSnap \<Rightarrow> 7 | MsgHeartbeat \<Rightarrow> 8 | MsgHeartbeatResp \<Rightarrow> 9
      | MsgUnreachable \<Rightarrow> 10 | MsgSnapStatus \<Rightarrow> 11 | MsgCheckQuorum \<Rightarrow> 12 | MsgTransferLeader \<Rightarrow> 13
      | MsgTimeoutNow \<Rightarrow> 14 | MsgReadIndex \<Rightarrow> 15 | MsgReadIndexResp \<Rightarrow> 16 | MessageType_value b \<Rightarrow> b)"

definition MessageType_of_u8 :: "byte \<Rightarrow> MessageType" where
  "MessageType_of_u8 b =
     (if b = 0 then MsgPropose else if b = 1 then MsgApp else if b = 2 then MsgAppResp
      else if b = 3 then MsgVote else if b = 4 then MsgVoteResp else if b = 5 then MsgPreVote
      else if b = 6 then MsgPreVoteResp else if b = 7 then MsgSnap else if b = 8 then MsgHeartbeat
      else if b = 9 then MsgHeartbeatResp else if b = 10 then MsgUnreachable else if b = 11 then MsgSnapStatus
      else if b = 12 then MsgCheckQuorum else if b = 13 then MsgTransferLeader else if b = 14 then MsgTimeoutNow
      else if b = 15 then MsgReadIndex else if b = 16 then MsgReadIndexResp else MessageType_value b)"

definition serializeEntry :: "Entry \<Rightarrow> byte list \<Rightarrow> byte list" where
  "serializeEntry e buf =
     (let buf = appendU64 (ent_term e) buf;
          buf = appendU64 (ent_index e) buf;
          buf = appendU8 (EntryType_to_u8 (ent_type e)) buf;
          buf = appendU32 (length (ent_data e)) buf
      in buf @ ent_data e)"

definition serializeMessage :: "Message \<Rightarrow> byte list" where
  "serializeMessage m =
     (let buf = appendU8 (MessageType_to_u8 (msg_type m)) [];
          buf = appendU64 (msg_to m) buf;
          buf = appendU64 (msg_from m) buf;
          buf = appendU64 (msg_term m) buf;
          buf = appendU64 (msg_logTerm m) buf;
          buf = appendU64 (msg_index m) buf;
          buf = appendU64 (msg_commit m) buf;
          buf = appendU8 (if msg_reject m then 1 else 0) buf;
          buf = appendU64 (msg_rejectHint m) buf;
          buf = appendU32 (length (msg_entries m)) buf;
          buf = fold serializeEntry (msg_entries m) buf;
          buf = appendU64 (snap_term (msg_snapshot m)) buf;
          buf = appendU64 (snap_index (msg_snapshot m)) buf;
          buf = appendU32 (length (snap_data (msg_snapshot m))) buf;
          buf = buf @ snap_data (msg_snapshot m);
          buf = appendU32 (length (msg_context m)) buf;
          buf = buf @ msg_context m;
          totalLen = length buf;
          framed = appendU32 totalLen []
      in framed @ buf)"

text \<open>A length and that many bytes.\<close>

definition net_readData :: "byte list \<Rightarrow> nat \<Rightarrow> (byte list \<times> nat) option" where
  "net_readData buf off =
     do {
       (dl, off) \<leftarrow> net_readU32 buf off;
       if off + dl > length buf then None else Some (take dl (drop off buf), off + dl)
     }"

definition deserializeEntry :: "byte list \<Rightarrow> nat \<Rightarrow> (Entry \<times> nat) option" where
  "deserializeEntry buf off =
     do {
       (t, off) \<leftarrow> net_readU64 buf off;
       (i, off) \<leftarrow> net_readU64 buf off;
       (et, off) \<leftarrow> net_readU8 buf off;
       (d, off) \<leftarrow> net_readData buf off;
       Some (\<lparr>ent_term = t, ent_index = i, ent_type = EntryType_of_u8 et, ent_data = d\<rparr>, off)
     }"

fun deserializeEntries :: "nat \<Rightarrow> byte list \<Rightarrow> nat \<Rightarrow> (Entry list \<times> nat) option" where
  "deserializeEntries 0 buf off = Some ([], off)"
| "deserializeEntries (Suc n) buf off =
     do {
       (e, off) \<leftarrow> deserializeEntry buf off;
       (es, off) \<leftarrow> deserializeEntries n buf off;
       Some (e # es, off)
     }"

definition deserializeMessage :: "byte list \<Rightarrow> Message option" where
  "deserializeMessage buf =
     do {
       (t, off) \<leftarrow> net_readU8 buf 0;
       (to, off) \<leftarrow> net_readU64 buf off;
       (from, off) \<leftarrow> net_readU64 buf off;
       (trm, off) \<leftarrow> net_readU64 buf off;
       (logTerm, off) \<leftarrow> net_readU64 buf off;
       (index, off) \<leftarrow> net_readU64 buf off;
       (commit, off) \<leftarrow> net_readU64 buf off;
       (rej, off) \<leftarrow> net_readU8 buf off;
       (rejectHint, off) \<leftarrow> net_readU64 buf off;
       (nEntries, off) \<leftarrow> net_readU32 buf off;
       (entries, off) \<leftarrow> deserializeEntries nEntries buf off;
       (snapTerm, off) \<leftarrow> net_readU64 buf off;
       (snapIndex, off) \<leftarrow> net_readU64 buf off;
       (snapData, off) \<leftarrow> net_readData buf off;
       (ctx, off) \<leftarrow> net_readData buf off;
       Some \<lparr>msg_type = MessageType_of_u8 t, msg_to = to, msg_from = from, msg_term = trm,
             msg_logTerm = logTerm, msg_index = index, msg_commit = commit, msg_reject = (rej \<noteq> 0),
             msg_rejectHint = rejectHint, msg_entries = entries,
             msg_snapshot = \<lparr>snap_term = snapTerm, snap_index = snapIndex, snap_data = snapData\<rparr>,
             msg_context = ctx\<rparr>
     }"

section \<open>Receiving\<close>

text \<open>The segments that arrive on one connection, and the messages passed to the callback. The loop ends when
  the peer closes in the middle of a frame, or at a length that is 0 or above 16 MiB.\<close>

function rt_connLoop :: "segments \<Rightarrow> Message list" where
  "rt_connLoop segs =
     (case readN 4 segs of
        None \<Rightarrow> []
      | Some (lenBuf, segs) \<Rightarrow>
          let msgLen = unat (le_word lenBuf :: u32)
          in if msgLen = 0 \<or> msgLen > 16 * 2 ^ 20 then []
             else
               (case readN msgLen segs of
                  None \<Rightarrow> []
                | Some (body, segs) \<Rightarrow>
                    (case deserializeMessage body of None \<Rightarrow> [] | Some m \<Rightarrow> [m]) @ rt_connLoop segs))"
  by auto
termination
  by (relation "measure (\<lambda>segs. length (concat segs))") (auto dest!: readN_length simp del: length_concat)

declare rt_connLoop.simps [simp del]

text \<open>The same on the byte stream.\<close>

function connLoop :: "byte list \<Rightarrow> Message list" where
  "connLoop bs =
     (if length bs < 4 then []
      else
        let msgLen = unat (le_word (take 4 bs) :: u32); bs' = drop 4 bs
        in if msgLen = 0 \<or> msgLen > 16 * 2 ^ 20 then []
           else if length bs' < msgLen then []
           else (case deserializeMessage (take msgLen bs') of None \<Rightarrow> [] | Some m \<Rightarrow> [m]) @
                connLoop (drop msgLen bs'))"
  by auto
termination
  by (relation "measure length") auto

declare connLoop.simps [simp del]

lemma connLoop_segments: "open_socket segs \<Longrightarrow> rt_connLoop segs = connLoop (concat segs)"
proof (induction segs rule: rt_connLoop.induct)
  case (1 segs)
  let ?bs = "concat segs" let ?len = "unat (le_word (take 4 ?bs) :: u32)"
  show ?case
  proof (cases "length ?bs < 4")
    case True
    then show ?thesis using readN_short [OF "1.prems"] by (simp add: rt_connLoop.simps connLoop.simps del: length_concat)
  next
    case False
    with "1.prems" obtain segs1 where r1: "readN 4 segs = Some (take 4 ?bs, segs1)" "concat segs1 = drop 4 ?bs" "open_socket segs1"
      by (auto elim: readN_full [of segs 4] simp del: length_concat)
    show ?thesis
    proof (cases "?len = 0 \<or> ?len > 16 * 2 ^ 20 \<or> length (drop 4 ?bs) < ?len")
      case True
      then show ?thesis
        using False r1 readN_short [OF r1(3), of ?len]
        by (subst rt_connLoop.simps, subst connLoop.simps) (auto simp: Let_def simp del: length_concat)
    next
      case ok: False
      with r1(2,3) obtain segs2 where r2: "readN ?len segs1 = Some (take ?len (drop 4 ?bs), segs2)"
        "concat segs2 = drop ?len (drop 4 ?bs)" "open_socket segs2"
        by (auto elim: readN_full [of segs1 ?len] simp del: length_concat)
      have "rt_connLoop segs2 = connLoop (concat segs2)"
        using "1.IH" [OF r1(1) refl refl _ r2(1) refl r2(3)] ok by auto
      then show ?thesis
        using False ok r1(1) r2(1,2)
        by (subst rt_connLoop.simps, subst connLoop.simps) (simp add: Let_def del: length_concat)
    qed
  qed
qed

section \<open>Sending\<close>

definition isHeartbeat :: "MessageType \<Rightarrow> bool" where
  "isHeartbeat t \<longleftrightarrow> t = MsgHeartbeat \<or> t = MsgHeartbeatResp"

record RaftTransport =
  rt_peers :: "(nat, string \<times> nat) std_map"
  rt_conns :: "((nat \<times> nat) \<times> nat) list"

definition rt_setPeers :: "RaftTransport \<Rightarrow> (nat, string \<times> nat) std_map \<Rightarrow> RaftTransport" where
  "rt_setPeers t peers = t\<lparr>rt_peers := peers\<rparr>"

text \<open>\<open>connect\<close> gives the socket of a new connection, or \<open>None\<close> when it cannot be opened.\<close>

definition rt_getOrCreateConn ::
  "(string \<times> nat \<Rightarrow> nat option) \<Rightarrow> RaftTransport \<Rightarrow> nat \<Rightarrow> nat \<Rightarrow> nat option \<times> RaftTransport" where
  "rt_getOrCreateConn connect t to channel =
     (case map_of (rt_conns t) (to, channel) of
        Some sock \<Rightarrow> (Some sock, t)
      | None \<Rightarrow>
          (case map_of (rt_peers t) to of
             None \<Rightarrow> (None, t)
           | Some addr \<Rightarrow>
               (case connect addr of
                  None \<Rightarrow> (None, t)
                | Some sock \<Rightarrow> (Some sock, t\<lparr>rt_conns := AList.update (to, channel) sock (rt_conns t)\<rparr>))))"

text \<open>\<open>answers\<close> are the results of the \<open>send\<close> calls on the socket. \<open>None\<close>: the call still waits.\<close>

definition rt_sendOnConn :: "nat \<Rightarrow> Message \<Rightarrow> nat option list \<Rightarrow> byte list \<times> bool option" where
  "rt_sendOnConn sock m answers = writeAll (serializeMessage m) answers"

definition rt_send ::
  "(string \<times> nat \<Rightarrow> nat option) \<Rightarrow> nat option list \<Rightarrow> RaftTransport \<Rightarrow> Message \<Rightarrow> (bool \<times> RaftTransport) option" where
  "rt_send connect answers t m =
     (let channel = (if isHeartbeat (msg_type m) then 1 else 0);
          (sock, t) = rt_getOrCreateConn connect t (msg_to m) channel;
          forget = t\<lparr>rt_conns := AList.delete (msg_to m, channel) (rt_conns t)\<rparr>
      in case sock of
           None \<Rightarrow> Some (False, forget)
         | Some s \<Rightarrow> do {
             ok \<leftarrow> snd (rt_sendOnConn s m answers);
             Some (if ok then (True, t) else (False, forget))
           })"

definition rt_stop :: "RaftTransport \<Rightarrow> RaftTransport" where
  "rt_stop t = t\<lparr>rt_conns := []\<rparr>"

section \<open>The format as concatenated fields\<close>

definition entry_wire :: "Entry \<Rightarrow> byte list" where
  "entry_wire e = writeU64 (ent_term e) @ writeU64 (ent_index e) @ [EntryType_to_u8 (ent_type e)] @
     writeU32 (length (ent_data e)) @ ent_data e"

definition message_wire :: "Message \<Rightarrow> byte list" where
  "message_wire m =
     [MessageType_to_u8 (msg_type m)] @ writeU64 (msg_to m) @ writeU64 (msg_from m) @ writeU64 (msg_term m) @
     writeU64 (msg_logTerm m) @ writeU64 (msg_index m) @ writeU64 (msg_commit m) @
     [if msg_reject m then 1 else 0] @ writeU64 (msg_rejectHint m) @ writeU32 (length (msg_entries m)) @
     concat (map entry_wire (msg_entries m)) @
     writeU64 (snap_term (msg_snapshot m)) @ writeU64 (snap_index (msg_snapshot m)) @
     writeU32 (length (snap_data (msg_snapshot m))) @ snap_data (msg_snapshot m) @
     writeU32 (length (msg_context m)) @ msg_context m"

definition message_ok :: "Message \<Rightarrow> bool" where
  "message_ok m \<longleftrightarrow>
     list_all u64_ok [msg_to m, msg_from m, msg_term m, msg_logTerm m, msg_index m, msg_commit m, msg_rejectHint m,
       snap_term (msg_snapshot m), snap_index (msg_snapshot m)] \<and>
     MessageType_of_u8 (MessageType_to_u8 (msg_type m)) = msg_type m \<and>
     list_all entry_ok (msg_entries m) \<and> length (msg_entries m) < 2 ^ 32 \<and>
     length (snap_data (msg_snapshot m)) < 2 ^ 32 \<and> length (msg_context m) < 2 ^ 32"

lemma append_writes: "appendU8 v buf = buf @ [v]" "appendU32 n buf = buf @ writeU32 n" "appendU64 n buf = buf @ writeU64 n"
  by (simp_all add: appendU8_def appendU32_def appendU64_def writeU32_def writeU64_def)

lemma fold_serializeEntry: "fold serializeEntry es buf = buf @ concat (map entry_wire es)"
  by (induction es arbitrary: buf) (simp_all add: serializeEntry_def entry_wire_def append_writes)

lemma serializeMessage_wire: "serializeMessage m = writeU32 (length (message_wire m)) @ message_wire m"
  by (simp add: serializeMessage_def message_wire_def append_writes fold_serializeEntry Let_def add.assoc)

lemma bytes_at_length: "bytes_at buf off bs \<Longrightarrow> 0 < length bs \<Longrightarrow> off + length bs \<le> length buf"
proof -
  assume "bytes_at buf off bs" "0 < length bs"
  then obtain r where "drop off buf = bs @ r" by (auto simp: bytes_at_def)
  from arg_cong [OF this, of length] \<open>0 < length bs\<close> show ?thesis
    by (simp only: length_drop length_append)
qed

lemma net_readU8_at: "bytes_at buf off [b] \<Longrightarrow> net_readU8 buf off = Some (b, off + 1)"
  using get_iffs(1) [of buf off b "off + 1"] by (simp add: net_readU8_def getU8_def)

lemma net_readU32_at: "bytes_at buf off (writeU32 v) \<Longrightarrow> v < 2 ^ 32 \<Longrightarrow> net_readU32 buf off = Some (v, off + 4)"
  using bytes_at_length [of buf off "writeU32 v"] le_word_le_bytes [of 4 "of_nat v :: u32"]
  by (simp add: net_readU32_def bytes_at_take) (simp add: writeU32_def unat_of_nat)

lemma net_readU64_at: "bytes_at buf off (writeU64 v) \<Longrightarrow> u64_ok v \<Longrightarrow> net_readU64 buf off = Some (v, off + 8)"
  using bytes_at_length [of buf off "writeU64 v"] le_word_le_bytes [of 8 "of_nat v :: u64"]
  by (simp add: net_readU64_def bytes_at_take) (simp add: writeU64_def unat_of_nat u64_ok_def)

lemma net_readData_at:
  assumes "bytes_at buf off (writeU32 (length d) @ d)" "length d < 2 ^ 32"
  shows "net_readData buf off = Some (d, off + 4 + length d)"
proof -
  have "bytes_at buf (off + 4) d" "bytes_at buf off (writeU32 (length d))"
    using assms(1) by (simp_all add: bytes_at_append)
  moreover have "off + 4 + length d \<le> length buf"
    using bytes_at_length [OF assms(1)] by simp
  ultimately show ?thesis using assms(2) by (simp add: net_readData_def net_readU32_at bytes_at_take)
qed

lemmas net_reads = net_readU8_at net_readU32_at net_readU64_at net_readData_at

lemma deserializeEntry_at:
  assumes "bytes_at buf off (entry_wire e)" "entry_ok e"
  shows "deserializeEntry buf off = Some (e, off + length (entry_wire e))"
proof -
  have at: "bytes_at buf off (writeU64 (ent_term e))" "bytes_at buf (off + 8) (writeU64 (ent_index e))"
    "bytes_at buf (off + 8 + 8) [EntryType_to_u8 (ent_type e)]"
    "bytes_at buf (off + 8 + 8 + 1) (writeU32 (length (ent_data e)) @ ent_data e)"
    using assms(1) unfolding entry_wire_def by (simp_all only: bytes_at_append length_write list.size add_0 One_nat_def)
  have ok: "u64_ok (ent_term e)" "u64_ok (ent_index e)" "length (ent_data e) < 2 ^ 32"
    "EntryType_of_u8 (EntryType_to_u8 (ent_type e)) = ent_type e" using assms(2) by (auto simp: entry_ok_def)
  show ?thesis
    unfolding deserializeEntry_def
    using at(1,2) [THEN net_readU64_at] net_readU8_at [OF at(3)] net_readData_at [OF at(4)] ok
    by (simp add: entry_wire_def)
qed

lemma deserializeEntries_at:
  "bytes_at buf off (concat (map entry_wire es)) \<Longrightarrow> list_all entry_ok es \<Longrightarrow>
     deserializeEntries (length es) buf off = Some (es, off + length (concat (map entry_wire es)))"
proof (induction es arbitrary: off)
  case (Cons e es)
  then have "deserializeEntry buf off = Some (e, off + length (entry_wire e))"
    "deserializeEntries (length es) buf (off + length (entry_wire e)) =
      Some (es, off + length (entry_wire e) + length (concat (map entry_wire es)))"
    by (simp_all add: bytes_at_append deserializeEntry_at)
  then show ?case by simp
qed simp

text \<open>Reading a message front to back; every read leaves the rest of the image at the cursor.\<close>

lemma net_read_next:
  "bytes_at buf off (b # rs) \<Longrightarrow> net_readU8 buf off = Some (b, off + 1) \<and> bytes_at buf (off + 1) rs"
  "bytes_at buf off (writeU64 v @ rs) \<Longrightarrow> u64_ok v \<Longrightarrow> net_readU64 buf off = Some (v, off + 8) \<and> bytes_at buf (off + 8) rs"
  "bytes_at buf off (writeU32 n @ rs) \<Longrightarrow> n < 2 ^ 32 \<Longrightarrow> net_readU32 buf off = Some (n, off + 4) \<and> bytes_at buf (off + 4) rs"
  "bytes_at buf off (writeU32 (length d) @ d @ rs) \<Longrightarrow> length d < 2 ^ 32 \<Longrightarrow>
     \<exists>off'. net_readData buf off = Some (d, off') \<and> bytes_at buf off' rs"
  "bytes_at buf off (concat (map entry_wire es) @ rs) \<Longrightarrow> list_all entry_ok es \<Longrightarrow>
     \<exists>off'. deserializeEntries (length es) buf off = Some (es, off') \<and> bytes_at buf off' rs"
  using bytes_at_append [of buf off "[b]" rs] bytes_at_append [of buf off "writeU64 v" rs] bytes_at_append [of buf off "writeU32 n" rs]
    bytes_at_append [of buf off "writeU32 (length d) @ d" rs] bytes_at_append [of buf off "concat (map entry_wire es)" rs]
    net_readU8_at [of buf off b] net_readData_at [of buf off d]
  by (simp_all add: net_reads(2,3) deserializeEntries_at add.assoc)

lemma deserialize_wire:
  assumes ok: "message_ok m"
  shows "deserializeMessage (message_wire m @ rest) = Some m"
proof -
  define buf where "buf = message_wire m @ rest"
  have at: "bytes_at buf 0 (message_wire m)" unfolding bytes_at_0 buf_def by blast
  have u: "u64_ok (msg_to m)" "u64_ok (msg_from m)" "u64_ok (msg_term m)" "u64_ok (msg_logTerm m)" "u64_ok (msg_index m)"
    "u64_ok (msg_commit m)" "u64_ok (msg_rejectHint m)" "u64_ok (snap_term (msg_snapshot m))" "u64_ok (snap_index (msg_snapshot m))"
    "MessageType_of_u8 (MessageType_to_u8 (msg_type m)) = msg_type m" "list_all entry_ok (msg_entries m)"
    "length (msg_entries m) < 2 ^ 32" "length (snap_data (msg_snapshot m)) < 2 ^ 32" "length (msg_context m) < 2 ^ 32"
    using ok by (simp_all add: message_ok_def)
  from at [unfolded message_wire_def] have r: "bytes_at buf 0 (MessageType_to_u8 (msg_type m) # writeU64 (msg_to m) @ writeU64 (msg_from m) @
      writeU64 (msg_term m) @ writeU64 (msg_logTerm m) @ writeU64 (msg_index m) @ writeU64 (msg_commit m) @
      (if msg_reject m then 1 else 0) # writeU64 (msg_rejectHint m) @ writeU32 (length (msg_entries m)) @
      concat (map entry_wire (msg_entries m)) @ writeU64 (snap_term (msg_snapshot m)) @ writeU64 (snap_index (msg_snapshot m)) @
      writeU32 (length (snap_data (msg_snapshot m))) @ snap_data (msg_snapshot m) @
      writeU32 (length (msg_context m)) @ msg_context m @ [])" by simp
  note r1 = net_read_next(1) [OF r]
  note r2 = net_read_next(2) [OF r1 [THEN conjunct2] u(1)]
  note r3 = net_read_next(2) [OF r2 [THEN conjunct2] u(2)]
  note r4 = net_read_next(2) [OF r3 [THEN conjunct2] u(3)]
  note r5 = net_read_next(2) [OF r4 [THEN conjunct2] u(4)]
  note r6 = net_read_next(2) [OF r5 [THEN conjunct2] u(5)]
  note r7 = net_read_next(2) [OF r6 [THEN conjunct2] u(6)]
  note r8 = net_read_next(1) [OF r7 [THEN conjunct2]]
  note r9 = net_read_next(2) [OF r8 [THEN conjunct2] u(7)]
  note r10 = net_read_next(3) [OF r9 [THEN conjunct2] u(12)]
  obtain o1 where r11: "deserializeEntries (length (msg_entries m)) buf (0 + 1 + 8 + 8 + 8 + 8 + 8 + 8 + 1 + 8 + 4) = Some (msg_entries m, o1)"
    "bytes_at buf o1 (writeU64 (snap_term (msg_snapshot m)) @ writeU64 (snap_index (msg_snapshot m)) @
      writeU32 (length (snap_data (msg_snapshot m))) @ snap_data (msg_snapshot m) @
      writeU32 (length (msg_context m)) @ msg_context m @ [])"
    using net_read_next(5) [OF r10 [THEN conjunct2] u(11)] by blast
  note r12 = net_read_next(2) [OF r11(2) u(8)]
  note r13 = net_read_next(2) [OF r12 [THEN conjunct2] u(9)]
  from net_read_next(4) [OF r13 [THEN conjunct2] u(13)] obtain o2 where
    r14: "net_readData buf (o1 + 8 + 8) = Some (snap_data (msg_snapshot m), o2)"
      "bytes_at buf o2 (writeU32 (length (msg_context m)) @ msg_context m @ [])" by blast
  from net_read_next(4) [OF r14(2) u(14)] obtain o3 where r15: "net_readData buf o2 = Some (msg_context m, o3)" by blast
  note reads = r1 [THEN conjunct1] r2 [THEN conjunct1] r3 [THEN conjunct1] r4 [THEN conjunct1] r5 [THEN conjunct1]
    r6 [THEN conjunct1] r7 [THEN conjunct1] r8 [THEN conjunct1] r9 [THEN conjunct1] r10 [THEN conjunct1] r11(1)
    r12 [THEN conjunct1] r13 [THEN conjunct1] r14(1) r15
  show ?thesis
    unfolding buf_def [symmetric] deserializeMessage_def
    by (simp only: reads Option.bind.simps prod.case u(10)) simp
qed

section \<open>What the receive loop delivers\<close>

definition fits_frame :: "Message \<Rightarrow> bool" where
  "fits_frame m \<longleftrightarrow> message_ok m \<and> length (message_wire m) \<le> 16 * 2 ^ 20"

lemma wire_nonempty: "0 < length (message_wire m)"
  by (simp add: message_wire_def)

lemma frame_length: "n < 2 ^ 32 \<Longrightarrow> unat (le_word (take 4 (writeU32 n @ r)) :: u32) = n"
  using le_word_le_bytes [of 4 "of_nat n :: u32"] by (simp add: writeU32_def unat_of_nat)

lemma connLoop_frame:
  assumes "fits_frame m"
  shows "connLoop (serializeMessage m @ rest) = m # connLoop rest"
proof -
  have n: "length (message_wire m) < 2 ^ 32" "length (message_wire m) \<le> 16777216" using assms by (simp_all add: fits_frame_def)
  show ?thesis
    using n frame_length [OF n(1), of "message_wire m @ rest"] wire_nonempty [of m] deserialize_wire [of m "[]"] assms
    by (subst connLoop.simps) (simp add: serializeMessage_wire fits_frame_def Let_def)
qed

lemma connLoop_stream:
  "\<forall>m\<in>set ms. fits_frame m \<Longrightarrow> connLoop (concat (map serializeMessage ms) @ rest) = ms @ connLoop rest"
  by (induction ms) (simp_all add: connLoop_frame)

lemma connLoop_torn:
  assumes "fits_frame m" "serializeMessage m = f @ g" "g \<noteq> []"
  shows "connLoop f = []"
proof (cases "length f < 4")
  case True
  then show ?thesis by (simp add: connLoop.simps)
next
  case False
  have n: "length (message_wire m) < 2 ^ 32" using assms(1) by (simp add: fits_frame_def)
  have "take 4 f = take 4 (f @ g)" using False by simp
  also have "\<dots> = take 4 (writeU32 (length (message_wire m)) @ message_wire m)" by (simp only: assms(2) [symmetric] serializeMessage_wire)
  finally have "unat (le_word (take 4 f) :: u32) = length (message_wire m)" using frame_length [OF n] by simp
  moreover have "length f - 4 < length (message_wire m)"
    using arg_cong [OF assms(2), of length] length_greater_0_conv [of g] assms(3) False
    by (simp add: serializeMessage_wire del: length_greater_0_conv)
  ultimately show ?thesis by (simp add: connLoop.simps Let_def)
qed

lemma connLoop_oversized:
  assumes "length (message_wire m) < 2 ^ 32" "16 * 2 ^ 20 < length (message_wire m)"
  shows "connLoop (serializeMessage m @ rest) = []"
  using assms frame_length [OF assms(1), of "message_wire m @ rest"]
  by (subst connLoop.simps) (simp add: serializeMessage_wire Let_def)

section \<open>The connection table\<close>

lemma send_other_channels:
  assumes "rt_send connect answers t m = Some (ok, t')"
    and "k \<noteq> (msg_to m, if isHeartbeat (msg_type m) then 1 else 0)"
  shows "map_of (rt_conns t') k = map_of (rt_conns t) k"
  using assms
  by (auto simp: rt_send_def rt_getOrCreateConn_def Let_def update_conv' delete_conv' bind_eq_Some_conv
      split: if_splits option.splits prod.splits)

lemma failed_send_forgets:
  assumes "rt_send connect answers t m = Some (False, t')"
  shows "map_of (rt_conns t') (msg_to m, if isHeartbeat (msg_type m) then 1 else 0) = None"
  using assms
  by (auto simp: rt_send_def Let_def delete_conv' bind_eq_Some_conv split: if_splits option.splits prod.splits)

end
