(* ===== verification/KV_Store.thy ===== *)
theory KV_Store
  imports Wire Server_Loop
begin

text \<open>
  The key-value store: \<^verbatim>\<open>app/statemachine/KVStateMachine.cpp\<close>, the client side of its command format in
  \<^verbatim>\<open>app/protocol/Protocol.cpp\<close>, and the codec \<^verbatim>\<open>app/protocol/KVCodec.cpp\<close> that ties both to the text
  protocol.

  The \<^verbatim>\<open>std::unordered_map\<close> is an association list with distinct keys. Its iteration order is not
  specified, so \<open>kv_serializeMap\<close> takes the sequence the iteration visits, and the lemmas hold for every
  enumeration of the map. \<open>kv_apply\<close> is \<open>None\<close> where \<^verbatim>\<open>map_.erase(it)\<close> is called with the end iterator.
\<close>

section \<open>Fields\<close>

definition kv_writeU8 :: "byte \<Rightarrow> byte list \<Rightarrow> byte list" where
  "kv_writeU8 v buf = buf @ [v]"

definition kv_writeU32 :: "u32 \<Rightarrow> byte list \<Rightarrow> byte list" where
  "kv_writeU32 v buf =
     (let buf = buf @ [ucast (v AND 0xFF)];
          buf = buf @ [ucast (drop_bit 8 v AND 0xFF)];
          buf = buf @ [ucast (drop_bit 16 v AND 0xFF)]
      in buf @ [ucast (drop_bit 24 v AND 0xFF)])"

definition kv_writeStr :: "byte list \<Rightarrow> byte list \<Rightarrow> byte list" where
  "kv_writeStr s buf = kv_writeU32 (word_of_nat (length s)) buf @ s"

definition kv_readU8 :: "byte list \<Rightarrow> nat \<Rightarrow> (byte \<times> nat) option" where
  "kv_readU8 buf off = (if off + 1 > length buf then None else Some (buf ! off, off + 1))"

definition kv_readU32 :: "byte list \<Rightarrow> nat \<Rightarrow> (u32 \<times> nat) option" where
  "kv_readU32 buf off =
     (if off + 4 > length buf then None
      else Some (ucast (buf ! off) OR push_bit 8 (ucast (buf ! (off + 1))) OR push_bit 16 (ucast (buf ! (off + 2))) OR
                 push_bit 24 (ucast (buf ! (off + 3))), off + 4))"

definition kv_readStr :: "byte list \<Rightarrow> nat \<Rightarrow> (byte list \<times> nat) option" where
  "kv_readStr buf off =
     do {
       (len, off) \<leftarrow> kv_readU32 buf off;
       if off + unat len > length buf then None
       else Some (take (unat len) (drop off buf), off + unat len)
     }"

definition OP_SET :: byte where "OP_SET = 0x01"
definition OP_GET :: byte where "OP_GET = 0x02"
definition OP_DEL :: byte where "OP_DEL = 0x03"

section \<open>The state machine\<close>

record KVStateMachine =
  kv_map :: "(byte list \<times> byte list) list"

definition kv_init :: KVStateMachine where
  "kv_init = \<lparr>kv_map = []\<rparr>"

definition kv_encodeSet :: "byte list \<Rightarrow> byte list \<Rightarrow> byte list" where
  "kv_encodeSet k v = kv_writeStr v (kv_writeStr k (kv_writeU8 OP_SET []))"

definition kv_encodeGet :: "byte list \<Rightarrow> byte list" where
  "kv_encodeGet k = kv_writeStr k (kv_writeU8 OP_GET [])"

definition kv_encodeDel :: "byte list \<Rightarrow> byte list" where
  "kv_encodeDel k = kv_writeStr k (kv_writeU8 OP_DEL [])"

definition kv_decode :: "byte list \<Rightarrow> (byte \<times> byte list \<times> byte list) option" where
  "kv_decode data =
     do {
       (op, off) \<leftarrow> kv_readU8 data 0;
       (key, off) \<leftarrow> kv_readStr data off;
       if op = OP_SET then do { (val, off) \<leftarrow> kv_readStr data off; Some (op, key, val) }
       else Some (op, key, [])
     }"

text \<open>\<open>[existed:1][valLen:4][val]\<close>\<close>

definition kv_result :: "byte list option \<Rightarrow> byte list" where
  "kv_result old =
     kv_writeStr (case old of None \<Rightarrow> [] | Some v \<Rightarrow> v) (kv_writeU8 (if old \<noteq> None then 1 else 0) [])"

definition kv_apply :: "KVStateMachine \<Rightarrow> byte list \<Rightarrow> (byte list \<times> KVStateMachine) option" where
  "kv_apply st data =
     (case kv_decode data of
        None \<Rightarrow> Some ([], st)
      | Some (op, key, val) \<Rightarrow>
          let old = map_of (kv_map st) key
          in if op = OP_SET then Some (kv_result old, st\<lparr>kv_map := AList.update key val (kv_map st)\<rparr>)
             else if op = OP_GET then Some (kv_result old, st)
             else if op = OP_DEL then
               (if old = None then None
                else Some (kv_result old, st\<lparr>kv_map := AList.delete key (kv_map st)\<rparr>))
             else Some ([], st))"

definition kv_serializeMap :: "(byte list \<times> byte list) list \<Rightarrow> byte list" where
  "kv_serializeMap es =
     fold (\<lambda>(k, v) buf. kv_writeStr v (kv_writeStr k buf)) es (kv_writeU32 (word_of_nat (length es)) [])"

fun kv_load :: "nat \<Rightarrow> byte list \<Rightarrow> nat \<Rightarrow> (byte list \<times> byte list) list \<Rightarrow> (byte list \<times> byte list) list" where
  "kv_load 0 data off m = m"
| "kv_load (Suc n) data off m =
     (case kv_readStr data off of
        None \<Rightarrow> m
      | Some (k, off) \<Rightarrow>
          (case kv_readStr data off of
             None \<Rightarrow> m
           | Some (v, off) \<Rightarrow> kv_load n data off (AList.update k v m)))"

definition kv_deserializeMap :: "byte list \<Rightarrow> (byte list \<times> byte list) list" where
  "kv_deserializeMap data =
     (case kv_readU32 data 0 of None \<Rightarrow> [] | Some (count, off) \<Rightarrow> kv_load (unat count) data off [])"

text \<open>\<open>es\<close>: the order in which the iteration visits the map.\<close>

definition kv_snapshot :: "KVStateMachine \<Rightarrow> (byte list \<times> byte list) list \<Rightarrow> byte list" where
  "kv_snapshot st es = kv_serializeMap es"

definition kv_restore :: "KVStateMachine \<Rightarrow> byte list \<Rightarrow> KVStateMachine" where
  "kv_restore st data = st\<lparr>kv_map := kv_deserializeMap data\<rparr>"

definition kv_get :: "KVStateMachine \<Rightarrow> byte list \<Rightarrow> byte list option" where
  "kv_get st key = map_of (kv_map st) key"

definition kv_exists :: "KVStateMachine \<Rightarrow> byte list \<Rightarrow> bool" where
  "kv_exists st key \<longleftrightarrow> map_of (kv_map st) key \<noteq> None"

definition kv_size :: "KVStateMachine \<Rightarrow> nat" where
  "kv_size st = length (kv_map st)"

section \<open>The client side of the format\<close>

definition pr_appendU8 :: "byte \<Rightarrow> byte list \<Rightarrow> byte list" where
  "pr_appendU8 v buf = buf @ [v]"

definition pr_appendU32 :: "u32 \<Rightarrow> byte list \<Rightarrow> byte list" where
  "pr_appendU32 v buf = buf @ le_bytes 4 v"

definition pr_appendStr :: "byte list \<Rightarrow> byte list \<Rightarrow> byte list" where
  "pr_appendStr s buf = pr_appendU32 (word_of_nat (length s)) buf @ s"

definition encodeSet :: "byte list \<Rightarrow> byte list \<Rightarrow> byte list" where
  "encodeSet key val = pr_appendStr val (pr_appendStr key (pr_appendU8 OP_SET []))"

definition encodeGet :: "byte list \<Rightarrow> byte list" where
  "encodeGet key = pr_appendStr key (pr_appendU8 OP_GET [])"

definition encodeDel :: "byte list \<Rightarrow> byte list" where
  "encodeDel key = pr_appendStr key (pr_appendU8 OP_DEL [])"

definition pr_readU8 :: "byte list \<Rightarrow> nat \<Rightarrow> (byte \<times> nat) option" where
  "pr_readU8 buf off = (if off + 1 > length buf then None else Some (buf ! off, off + 1))"

definition pr_readU32 :: "byte list \<Rightarrow> nat \<Rightarrow> (u32 \<times> nat) option" where
  "pr_readU32 buf off = (if off + 4 > length buf then None else Some (le_word (take 4 (drop off buf)), off + 4))"

definition pr_readStr :: "byte list \<Rightarrow> nat \<Rightarrow> (byte list \<times> nat) option" where
  "pr_readStr buf off =
     do {
       (len, off) \<leftarrow> pr_readU32 buf off;
       if off + unat len > length buf then None
       else Some (take (unat len) (drop off buf), off + unat len)
     }"

text \<open>The result, and what it leaves in the two reference parameters.\<close>

definition decodeApplyResult :: "byte list \<Rightarrow> bool \<Rightarrow> byte list \<Rightarrow> bool \<times> bool \<times> byte list" where
  "decodeApplyResult bytes found val =
     (case pr_readU8 bytes 0 of
        None \<Rightarrow> (False, found, val)
      | Some (f, off) \<Rightarrow>
          (case pr_readStr bytes off of
             None \<Rightarrow> (False, f \<noteq> 0, val)
           | Some (v, off) \<Rightarrow> (True, f \<noteq> 0, v)))"

definition kvc_encode :: "ClientRequest \<Rightarrow> byte list" where
  "kvc_encode req =
     (case cq_op req of
        SET \<Rightarrow> encodeSet (cq_key req) (cq_value req)
      | GET \<Rightarrow> encodeGet (cq_key req)
      | DEL \<Rightarrow> encodeDel (cq_key req))"

definition kvc_decodeResult :: "byte list \<Rightarrow> ClientResponse" where
  "kvc_decodeResult result =
     (let (_, found, val) = decodeApplyResult result False []
      in default_ClientResponse\<lparr>cr_ok := True, cr_found := found, cr_value := val\<rparr>)"

section \<open>The two sides speak the same format\<close>

lemma kv_writeU32_le: "kv_writeU32 v buf = buf @ le_bytes 4 v"
  by (simp add: kv_writeU32_def le_bytes_def upt_rec numeral_2_eq_2 [symmetric])

lemma le_word_4: "le_word [a, b, c, d] = (ucast a OR push_bit 8 (ucast b) OR push_bit 16 (ucast c) OR push_bit 24 (ucast d) :: u32)"
  by (simp add: le_word_def upt_rec or.assoc)

lemma take4: "off + 4 \<le> length buf \<Longrightarrow> take 4 (drop off buf) = [buf ! off, buf ! (off + 1), buf ! (off + 2), buf ! (off + 3)]"
  by (intro nth_equalityI) (auto simp: less_Suc_eq numeral_eq_Suc)

lemma kv_readers: "kv_readU8 = getU8" "kv_readU32 = getU32" "kv_readStr = getStr"
proof -
  show "kv_readU8 = getU8" by (auto simp: kv_readU8_def getU8_def fun_eq_iff)
  show u32: "kv_readU32 = getU32"
    by (auto simp: kv_readU32_def getU32_def get_le_def fun_eq_iff take4 le_word_4)
  show "kv_readStr = getStr" by (auto simp: kv_readStr_def getStr_def u32 fun_eq_iff)
qed

lemma pr_readers: "pr_readU8 = getU8" "pr_readU32 = getU32" "pr_readStr = getStr"
proof -
  show "pr_readU8 = getU8" by (auto simp: pr_readU8_def getU8_def fun_eq_iff)
  show u32: "pr_readU32 = getU32" by (auto simp: pr_readU32_def getU32_def get_le_def fun_eq_iff)
  show "pr_readStr = getStr" by (auto simp: pr_readStr_def getStr_def u32 fun_eq_iff)
qed

text \<open>A length and the bytes.\<close>

definition str_bytes :: "byte list \<Rightarrow> byte list" where
  "str_bytes s = le_bytes 4 (word_of_nat (length s) :: u32) @ s"

lemma kv_writers: "kv_writeU8 v buf = buf @ [v]" "kv_writeStr s buf = buf @ str_bytes s"
  "pr_appendU8 v buf = buf @ [v]" "pr_appendStr s buf = buf @ str_bytes s"
  by (simp_all add: kv_writeU8_def kv_writeStr_def kv_writeU32_le str_bytes_def pr_appendU8_def pr_appendStr_def pr_appendU32_def)

lemma encoders_agree: "encodeSet = kv_encodeSet" "encodeGet = kv_encodeGet" "encodeDel = kv_encodeDel"
  by (auto simp: encodeSet_def kv_encodeSet_def encodeGet_def kv_encodeGet_def encodeDel_def kv_encodeDel_def kv_writers fun_eq_iff)

lemma getStr_at: "bytes_at buf off (str_bytes s) \<Longrightarrow> length s < 2 ^ 32 \<Longrightarrow> getStr buf off = Some (s, off + length (str_bytes s))"
  by (simp add: getStr_iff str_bytes_def)

lemma getU8_at: "bytes_at buf off [b] \<Longrightarrow> getU8 buf off = Some (b, off + 1)"
  by (simp add: get_iffs)

lemma bytes_at_pre: "bytes_at (pre @ bs @ r) (length pre) bs"
  by (simp add: bytes_at_def)

definition str_ok :: "byte list \<Rightarrow> bool" where
  "str_ok s \<longleftrightarrow> length s < 2 ^ 32"

lemma decode_encode:
  assumes "str_ok k" "str_ok v"
  shows "kv_decode (kv_encodeSet k v) = Some (OP_SET, k, v)"
    "kv_decode (kv_encodeGet k) = Some (OP_GET, k, [])"
    "kv_decode (kv_encodeDel k) = Some (OP_DEL, k, [])"
proof -
  have ok: "length k < 2 ^ 32" "length v < 2 ^ 32" using assms by (simp_all add: str_ok_def)
  have key: "getStr (b # str_bytes k @ r) 1 = Some (k, 1 + length (str_bytes k))" for b r
    using getStr_at [OF bytes_at_pre [of "[b]" "str_bytes k" r] ok(1)] by simp
  have val: "getStr (b # str_bytes k @ str_bytes v) (1 + length (str_bytes k)) = Some (v, 1 + length (str_bytes k) + length (str_bytes v))" for b
    using getStr_at [OF bytes_at_pre [of "b # str_bytes k" "str_bytes v" "[]"] ok(2)] by simp
  show "kv_decode (kv_encodeSet k v) = Some (OP_SET, k, v)"
    using key [of OP_SET "str_bytes v"] val [of OP_SET]
    by (simp add: kv_decode_def kv_encodeSet_def kv_readers kv_writers getU8_def)
  show "kv_decode (kv_encodeGet k) = Some (OP_GET, k, [])" "kv_decode (kv_encodeDel k) = Some (OP_DEL, k, [])"
    using key [of OP_GET "[]"] key [of OP_DEL "[]"]
    by (simp_all add: kv_decode_def kv_encodeGet_def kv_encodeDel_def kv_readers kv_writers getU8_def OP_SET_def OP_GET_def OP_DEL_def)
qed

lemma decode_result:
  assumes "case old of None \<Rightarrow> True | Some v \<Rightarrow> str_ok v"
  shows "decodeApplyResult (kv_result old) found val = (True, old \<noteq> None, case old of None \<Rightarrow> [] | Some v \<Rightarrow> v)"
proof -
  let ?v = "case old of None \<Rightarrow> [] | Some v \<Rightarrow> v"
  have "length ?v < 2 ^ 32" using assms by (auto simp: str_ok_def split: option.splits)
  then have "getStr (b # str_bytes ?v) 1 = Some (?v, 1 + length (str_bytes ?v))" for b :: byte
    using getStr_at [OF bytes_at_pre [of "[b]" "str_bytes ?v" "[]"]] by simp
  then show ?thesis by (simp add: decodeApplyResult_def pr_readers kv_result_def kv_writers getU8_def)
qed

definition kv_ok :: "KVStateMachine \<Rightarrow> bool" where
  "kv_ok st \<longleftrightarrow> distinct (map fst (kv_map st)) \<and>
     (\<forall>k v. map_of (kv_map st) k = Some v \<longrightarrow> str_ok k \<and> str_ok v)"

lemma kv_ok_update: "kv_ok st \<Longrightarrow> str_ok k \<Longrightarrow> str_ok v \<Longrightarrow> kv_ok (st\<lparr>kv_map := AList.update k v (kv_map st)\<rparr>)"
  by (simp add: kv_ok_def distinct_update update_conv')

lemma kv_ok_delete: "kv_ok st \<Longrightarrow> kv_ok (st\<lparr>kv_map := AList.delete k (kv_map st)\<rparr>)"
  by (simp add: kv_ok_def distinct_delete delete_conv')

lemma kv_ok_init: "kv_ok kv_init"
  by (simp add: kv_ok_def kv_init_def)

section \<open>Requests over a mathematical map\<close>

definition spec_request :: "ClientRequest \<Rightarrow> (byte list \<rightharpoonup> byte list) \<Rightarrow> (byte list \<rightharpoonup> byte list)" where
  "spec_request req m =
     (case cq_op req of SET \<Rightarrow> m(cq_key req \<mapsto> cq_value req) | GET \<Rightarrow> m | DEL \<Rightarrow> m(cq_key req := None))"

definition spec_response :: "ClientRequest \<Rightarrow> (byte list \<rightharpoonup> byte list) \<Rightarrow> ClientResponse" where
  "spec_response req m =
     default_ClientResponse\<lparr>cr_found := m (cq_key req) \<noteq> None,
       cr_value := (case m (cq_key req) of None \<Rightarrow> [] | Some v \<Rightarrow> v)\<rparr>"

lemma kvc_decode_kv_result:
  assumes "kv_ok st"
  shows "kvc_decodeResult (kv_result (map_of (kv_map st) (cq_key req))) = spec_response req (map_of (kv_map st))"
proof -
  have "case map_of (kv_map st) (cq_key req) of None \<Rightarrow> True | Some v \<Rightarrow> str_ok v"
    using assms by (auto simp: kv_ok_def split: option.splits)
  from decode_result [OF this] show ?thesis
    by (simp add: kvc_decodeResult_def spec_response_def default_ClientResponse_def)
qed

lemma kv_request:
  assumes ok: "kv_ok st" and req: "str_ok (cq_key req)" "str_ok (cq_value req)"
    and del: "cq_op req = DEL \<Longrightarrow> map_of (kv_map st) (cq_key req) \<noteq> None"
  shows "\<exists>r st'. kv_apply st (kvc_encode req) = Some (r, st') \<and> kv_ok st' \<and>
    map_of (kv_map st') = spec_request req (map_of (kv_map st)) \<and>
    kvc_decodeResult r = spec_response req (map_of (kv_map st))"
proof (cases "cq_op req")
  case SET
  then have "kv_apply st (kvc_encode req) =
      Some (kv_result (map_of (kv_map st) (cq_key req)), st\<lparr>kv_map := AList.update (cq_key req) (cq_value req) (kv_map st)\<rparr>)"
    by (simp add: kv_apply_def kvc_encode_def encoders_agree decode_encode [OF req] Let_def)
  with SET kv_ok_update [OF ok req] kvc_decode_kv_result [OF ok] show ?thesis
    by (simp add: spec_request_def update_conv')
next
  case GET
  then have "kv_apply st (kvc_encode req) = Some (kv_result (map_of (kv_map st) (cq_key req)), st)"
    by (simp add: kv_apply_def kvc_encode_def encoders_agree decode_encode [OF req] Let_def OP_SET_def OP_GET_def)
  with GET ok kvc_decode_kv_result [OF ok] show ?thesis by (simp add: spec_request_def)
next
  case DEL
  then have "kv_apply st (kvc_encode req) =
      Some (kv_result (map_of (kv_map st) (cq_key req)), st\<lparr>kv_map := AList.delete (cq_key req) (kv_map st)\<rparr>)"
    using del by (simp add: kv_apply_def kvc_encode_def encoders_agree decode_encode [OF req] Let_def OP_SET_def OP_GET_def OP_DEL_def)
  with DEL kv_ok_delete [OF ok] kvc_decode_kv_result [OF ok] show ?thesis
    by (simp add: spec_request_def delete_conv')
qed

lemma kv_delete_missing:
  assumes "str_ok k" "map_of (kv_map st) k = None"
  shows "kv_apply st (encodeDel k) = None"
  using assms decode_encode(3) [OF assms(1), of "[]"]
  by (simp add: kv_apply_def encoders_agree str_ok_def Let_def OP_SET_def OP_GET_def OP_DEL_def)

section \<open>Snapshots\<close>

definition pair_bytes :: "byte list \<times> byte list \<Rightarrow> byte list" where
  "pair_bytes p = str_bytes (fst p) @ str_bytes (snd p)"

lemma pair_bytes_pair: "pair_bytes (k, v) = str_bytes k @ str_bytes v"
  by (simp add: pair_bytes_def)

lemma serializeMap_bytes:
  "kv_serializeMap es = le_bytes 4 (word_of_nat (length es) :: u32) @ concat (map pair_bytes es)"
proof -
  have "fold (\<lambda>(k, v) buf. kv_writeStr v (kv_writeStr k buf)) es buf = buf @ concat (map pair_bytes es)" for buf
    by (induction es arbitrary: buf) (auto simp: kv_writers pair_bytes_def)
  then show ?thesis by (simp add: kv_serializeMap_def kv_writeU32_le)
qed

lemma kv_load_bytes:
  "bytes_at data off (concat (map pair_bytes es)) \<Longrightarrow> \<forall>(k, v)\<in>set es. str_ok k \<and> str_ok v \<Longrightarrow>
     kv_load (length es) data off m = fold (\<lambda>(k, v). AList.update k v) es m"
proof (induction es arbitrary: off m)
  case (Cons e es)
  obtain k v where e: "e = (k, v)" by (cases e)
  have "getStr data off = Some (k, off + length (str_bytes k))"
    "getStr data (off + length (str_bytes k)) = Some (v, off + length (str_bytes k) + length (str_bytes v))"
    using Cons.prems by (auto intro!: getStr_at simp: e bytes_at_append pair_bytes_pair str_ok_def)
  moreover have "bytes_at data (off + length (str_bytes k) + length (str_bytes v)) (concat (map pair_bytes es))"
    using Cons.prems(1) by (simp add: e bytes_at_append pair_bytes_pair add.assoc)
  ultimately show ?case using Cons by (simp add: e kv_readers)
qed simp

lemma map_of_fold_update:
  "map_of (fold (\<lambda>(k, v). AList.update k v) es m) = map_of m ++ map_of (rev es)"
  by (induction es arbitrary: m) (auto simp: update_conv' map_add_def fun_eq_iff split: option.splits)

lemma distinct_fold_update:
  "distinct (map fst m) \<Longrightarrow> distinct (map fst (fold (\<lambda>(k, v). AList.update k v) es m))"
  by (induction es arbitrary: m) (auto simp: distinct_update)

lemma restore_enumeration:
  assumes ok: "kv_ok st" and es: "distinct (map fst es)" "set es = set (kv_map st)" and small: "length es < 2 ^ 32"
  shows "map_of (kv_map (kv_restore st0 (kv_snapshot st es))) = map_of (kv_map st)"
    "kv_ok (kv_restore st0 (kv_snapshot st es))"
proof -
  let ?data = "kv_serializeMap es"
  have d: "distinct (map fst (kv_map st))" using ok by (simp add: kv_ok_def)
  have "\<forall>(k, v)\<in>set es. str_ok k \<and> str_ok v"
    using ok es(2) d by (auto simp: kv_ok_def)
  moreover have at: "bytes_at ?data 4 (concat (map pair_bytes es))" "bytes_at ?data 0 (le_bytes 4 (word_of_nat (length es) :: u32))"
    using bytes_at_pre [of "le_bytes 4 (word_of_nat (length es) :: u32)" "concat (map pair_bytes es)" "[]"]
      bytes_at_pre [of "[]" "le_bytes 4 (word_of_nat (length es) :: u32)" "concat (map pair_bytes es)"]
    by (simp_all add: serializeMap_bytes)
  ultimately have load: "kv_deserializeMap ?data = fold (\<lambda>(k, v). AList.update k v) es []"
    using kv_load_bytes [OF at(1)] get_iffs(2) [of ?data 0 "word_of_nat (length es)" 4] small
    by (simp add: kv_deserializeMap_def kv_readers unat_of_nat)
  have "map_of (rev es) = map_of (kv_map st)"
    using es d by (simp add: map_of_inject_set rev_map [symmetric])
  with load show m: "map_of (kv_map (kv_restore st0 (kv_snapshot st es))) = map_of (kv_map st)"
    by (simp add: kv_restore_def kv_snapshot_def map_of_fold_update)
  show "kv_ok (kv_restore st0 (kv_snapshot st es))"
    using ok m load distinct_fold_update [of "[]" es] by (simp add: kv_ok_def kv_restore_def kv_snapshot_def)
qed

end
