(* ===== verification/Text_Client.thy ===== *)
theory Text_Client
  imports Server_Loop Order_Protocol
begin

text \<open>
  The line-oriented client port, \<^verbatim>\<open>app/net/ClientServer.cpp\<close>, and the codec that maps its requests onto
  orders, \<^verbatim>\<open>app/protocol/LOBCodec.cpp\<close>.

  A connection delivers its bytes in arbitrary chunks. The request handler (the server) is a parameter: a
  function on a state, \<open>None\<close> when it throws. \<open>std::stoll\<close> and \<open>std::stoull\<close> are modelled with their
  exceptions, so \<open>lobc_encode\<close> is \<open>None\<close> where an exception escapes.
\<close>

section \<open>Characters and numbers\<close>

definition ascii :: "string \<Rightarrow> byte list" where
  "ascii s = map of_char s"

definition isspace :: "byte \<Rightarrow> bool" where
  "isspace b \<longleftrightarrow> b = 32 \<or> (9 \<le> b \<and> b \<le> 13)"

definition isdigit :: "byte \<Rightarrow> bool" where
  "isdigit b \<longleftrightarrow> 48 \<le> b \<and> b \<le> 57"

definition toupper :: "byte \<Rightarrow> byte" where
  "toupper b = (if 97 \<le> b \<and> b \<le> 122 then b - 32 else b)"

text \<open>\<open>std::to_string\<close>\<close>

fun dec :: "nat \<Rightarrow> byte list" where
  "dec n = (if n < 10 then [48 + of_nat n] else dec (n div 10) @ [48 + of_nat (n mod 10)])"

declare dec.simps [simp del]

definition to_string :: "int \<Rightarrow> byte list" where
  "to_string x = (if x < 0 then 45 # dec (nat (- x)) else dec (nat x))"

definition digits_value :: "byte list \<Rightarrow> nat" where
  "digits_value ds = fold (\<lambda>d acc. acc * 10 + (unat d - 48)) ds 0"

text \<open>White space, an optional sign and digits; what follows is ignored. \<open>None\<close>: no digit.\<close>

definition scan_int :: "byte list \<Rightarrow> (bool \<times> nat) option" where
  "scan_int s =
     (let r = dropWhile isspace s;
          neg = (r \<noteq> [] \<and> hd r = 45);
          r = (if r \<noteq> [] \<and> (hd r = 45 \<or> hd r = 43) then tl r else r);
          ds = takeWhile isdigit r
      in if ds = [] then None else Some (neg, digits_value ds))"

definition stoll :: "byte list \<Rightarrow> int option" where
  "stoll s =
     do {
       (neg, n) \<leftarrow> scan_int s;
       let x = (if neg then - int n else int n);
       if i64_ok x then Some x else None
     }"

definition stoull :: "byte list \<Rightarrow> u64 option" where
  "stoull s =
     do {
       (neg, n) \<leftarrow> scan_int s;
       if n < 2 ^ 64 then Some (if neg then - of_nat n else of_nat n) else None
     }"

section \<open>Parsing and formatting\<close>

text \<open>\<open>iss >> token\<close>\<close>

definition read_token :: "byte list \<Rightarrow> (byte list \<times> byte list) option" where
  "read_token s =
     (let r = dropWhile isspace s; t = takeWhile (\<lambda>b. \<not> isspace b) r
      in if t = [] then None else Some (t, dropWhile (\<lambda>b. \<not> isspace b) r))"

definition parseCommand :: "byte list \<Rightarrow> ClientRequest option" where
  "parseCommand line =
     do {
       (cmd, r) \<leftarrow> read_token line;
       let cmd = map toupper cmd;
       if cmd = ascii ''SET'' then do {
         (key, r) \<leftarrow> read_token r;
         (val, r) \<leftarrow> read_token r;
         Some \<lparr>cq_op = SET, cq_key = key, cq_value = val\<rparr>
       }
       else if cmd = ascii ''GET'' then do {
         (key, r) \<leftarrow> read_token r;
         Some \<lparr>cq_op = GET, cq_key = key, cq_value = []\<rparr>
       }
       else if cmd = ascii ''DEL'' then do {
         (key, r) \<leftarrow> read_token r;
         Some \<lparr>cq_op = DEL, cq_key = key, cq_value = []\<rparr>
       }
       else None
     }"

definition formatResponse :: "ClientResponse \<Rightarrow> byte list" where
  "formatResponse resp =
     (if \<not> cr_ok resp then
        (if cr_err resp \<noteq> [] \<and> cr_err resp = ''not leader''
         then ascii ''NOTLEADER '' @ dec (cr_leaderHint resp) @ [10]
         else ascii ''ERR '' @ ascii (cr_err resp) @ [10])
      else if cr_found resp then ascii ''OK '' @ cr_value resp @ [10]
      else ascii ''OK'' @ [10])"

section \<open>One connection\<close>

type_synonym 's handler = "'s \<Rightarrow> ClientRequest \<Rightarrow> (ClientResponse \<times> 's) option"

text \<open>\<open>None\<close> as the first argument: no proposal handler is set.\<close>

definition handleLine :: "'s handler option \<Rightarrow> byte list \<Rightarrow> 's \<Rightarrow> (byte list \<times> 's) option" where
  "handleLine h line s =
     (let line = (if line \<noteq> [] \<and> last line = 13 then butlast line else line)
      in if line = [] then Some ([], s)
         else
           (case parseCommand line of
              None \<Rightarrow> Some (ascii ''ERR invalid command'' @ [10], s)
            | Some req \<Rightarrow>
                (case h of
                   None \<Rightarrow> Some (formatResponse (default_ClientResponse\<lparr>cr_ok := False, cr_err := ''no handler''\<rparr>), s)
                 | Some f \<Rightarrow> do { (resp, s) \<leftarrow> f s req; Some (formatResponse resp, s) })))"

text \<open>The loop over the complete lines of the buffer: the replies, the rest of the buffer, the state.\<close>

function lineLoop :: "'s handler option \<Rightarrow> byte list \<Rightarrow> 's \<Rightarrow> (byte list \<times> byte list \<times> 's) option" where
  "lineLoop h buf s =
     (if 10 \<notin> set buf then Some ([], buf, s)
      else do {
        let line = takeWhile (\<lambda>b. b \<noteq> 10) buf;
        (reply, s) \<leftarrow> handleLine h line s;
        (replies, buf, s) \<leftarrow> lineLoop h (drop (length line + 1) buf) s;
        Some (reply @ replies, buf, s)
      })"
  by auto
termination
  by (relation "measure (\<lambda>(h, buf, s). length buf)") (auto dest: length_pos_if_in_set)

declare lineLoop.simps [simp del]

fun handleClient :: "'s handler option \<Rightarrow> byte list list \<Rightarrow> byte list \<Rightarrow> 's \<Rightarrow> (byte list \<times> byte list \<times> 's) option" where
  "handleClient h [] buf s = Some ([], buf, s)"
| "handleClient h (chunk # chunks) buf s =
     do {
       (replies, buf, s) \<leftarrow> lineLoop h (buf @ chunk) s;
       (more_replies, buf, s) \<leftarrow> handleClient h chunks buf s;
       Some (replies @ more_replies, buf, s)
     }"

section \<open>The order codec\<close>

record LOBCodec =
  lobc_nextOrderId :: u64

definition lobc_new :: LOBCodec where
  "lobc_new = \<lparr>lobc_nextOrderId = 1\<rparr>"

definition lobc_encode :: "LOBCodec \<Rightarrow> ClientRequest \<Rightarrow> (byte list \<times> LOBCodec) option" where
  "lobc_encode c req =
     (if cq_op req = SET then
        let side = (if cq_key req = ascii ''sell'' then Sell else Buy)
        in if 58 \<notin> set (cq_value req) then Some ([], c)
           else do {
             let colon = length (takeWhile (\<lambda>b. b \<noteq> 58) (cq_value req));
             price \<leftarrow> stoll (take colon (cq_value req));
             qty \<leftarrow> stoll (drop (colon + 1) (cq_value req));
             let orderId = lobc_nextOrderId c;
             Some (encodeNew orderId side price qty, c\<lparr>lobc_nextOrderId := orderId + 1\<rparr>)
           }
      else if cq_op req = DEL then do {
        orderId \<leftarrow> stoull (cq_key req);
        Some (encodeCancel orderId, c)
      }
      else Some ([], c))"

fun fill_text :: "wire_fill \<Rightarrow> byte list" where
  "fill_text (maker, taker, price, quantity, side) =
     ascii ''F '' @ to_string quantity @ ascii ''@'' @ to_string price @ ascii '' ''"

definition lobc_decodeResult :: "byte list \<Rightarrow> ClientResponse" where
  "lobc_decodeResult result =
     (if result = [] then default_ClientResponse\<lparr>cr_ok := False\<rparr>
      else
        (case decodeNewResult result of
           Some (fills, rested, remaining) \<Rightarrow>
             let summary = concat (map fill_text fills);
                 summary = (if rested then summary @ ascii ''REST '' @ to_string remaining else summary)
             in default_ClientResponse\<lparr>cr_ok := True, cr_found := (fills \<noteq> []), cr_value := summary\<rparr>
         | None \<Rightarrow>
             (case decodeSimpleResult result of
                Some ok \<Rightarrow> default_ClientResponse\<lparr>cr_ok := ok\<rparr>
              | None \<Rightarrow> default_ClientResponse\<lparr>cr_ok := False\<rparr>)))"

section \<open>Chunks do not matter\<close>

lemma line_shorter: "10 \<in> set buf \<Longrightarrow> length (takeWhile (\<lambda>b. b \<noteq> 10) buf) < length buf"
  by (induction buf) auto

lemma lineLoop_done: "10 \<notin> set buf \<Longrightarrow> lineLoop h buf s = Some ([], buf, s)"
  by (subst lineLoop.simps) simp

lemma lineLoop_line:
  assumes "10 \<notin> set line"
  shows "lineLoop h (line @ 10 # buf) s =
     do {
       (reply, s) \<leftarrow> handleLine h line s;
       (replies, buf, s) \<leftarrow> lineLoop h buf s;
       Some (reply @ replies, buf, s)
     }"
proof -
  have "takeWhile (\<lambda>b. b \<noteq> 10) (line @ 10 # buf) = line" using assms by (induction line) auto
  then show ?thesis by (subst lineLoop.simps) simp
qed

text \<open>Induction over the lines of a buffer.\<close>

lemma lines_induct [case_names unfinished line]:
  assumes "\<And>buf. 10 \<notin> set buf \<Longrightarrow> P buf"
    and "\<And>line buf. 10 \<notin> set line \<Longrightarrow> P buf \<Longrightarrow> P (line @ 10 # buf)"
  shows "P (buf :: byte list)"
proof (induction buf rule: length_induct)
  case (1 buf)
  show ?case
  proof (cases "10 \<in> set buf")
    case True
    then obtain line rest where "buf = line @ 10 # rest" "10 \<notin> set line" by (auto dest: split_list_first)
    with 1 assms(2) show ?thesis by simp
  qed (rule assms(1))
qed

lemma lineLoop_append:
  "lineLoop h (buf @ c) s =
     do {
       (r1, buf1, s1) \<leftarrow> lineLoop h buf s;
       (r2, buf2, s2) \<leftarrow> lineLoop h (buf1 @ c) s1;
       Some (r1 @ r2, buf2, s2)
     }"
proof (induction buf arbitrary: s rule: lines_induct)
  case (unfinished buf)
  then show ?case by (simp add: lineLoop_done case_prod_unfold)
next
  case (line l buf)
  then show ?case by (simp add: lineLoop_line case_prod_unfold)
qed

lemma lineLoop_rest: "lineLoop h buf s = Some (r, buf1, s1) \<Longrightarrow> 10 \<notin> set buf1"
proof (induction buf arbitrary: s r rule: lines_induct)
  case (unfinished buf)
  then show ?case by (simp add: lineLoop_done)
next
  case (line l buf)
  then show ?case by (auto simp: lineLoop_line bind_eq_Some_conv)
qed

lemma handleClient_stream:
  assumes "10 \<notin> set buf"
  shows "handleClient h chunks buf s = lineLoop h (buf @ concat chunks) s"
  using assms
proof (induction chunks arbitrary: buf s)
  case Nil
  then show ?case by (simp add: lineLoop_done)
next
  case (Cons c cs)
  then show ?case
    using lineLoop_append [of h "buf @ c" "concat cs" s]
    by (cases "lineLoop h (buf @ c) s") (auto dest: lineLoop_rest)
qed

section \<open>Numbers in text\<close>

lemma digits_value_append: "digits_value (ds @ [d]) = digits_value ds * 10 + (unat d - 48)"
  by (simp add: digits_value_def)

lemma digit_byte: "n < 10 \<Longrightarrow> unat (48 + of_nat n :: byte) = 48 + n"
  by (simp add: unat_word_ariths unat_of_nat)

lemma isdigit_digit: "n < 10 \<Longrightarrow> isdigit (48 + of_nat n)"
  by (simp add: isdigit_def word_le_nat_alt digit_byte)

lemma dec_digits: "dec n \<noteq> []" "\<forall>d\<in>set (dec n). isdigit d" "digits_value (dec n) = n"
proof (induction n rule: dec.induct)
  case (1 n)
  {
    case 1 show ?case by (simp add: dec.simps [of n])
  next
    case 2 show ?case
      using "1.IH"(2) isdigit_digit [of n] isdigit_digit [of "n mod 10"] by (auto simp: dec.simps [of n])
  next
    case 3 show ?case
    proof (cases "n < 10")
      case True
      then show ?thesis by (simp add: dec.simps [of n] digits_value_def digit_byte)
    next
      case False
      then show ?thesis
        using "1.IH"(3) digit_byte [of "n mod 10"] by (simp add: dec.simps [of n] digits_value_append)
    qed
  }
qed

lemma isdigit_not: "isdigit d \<Longrightarrow> \<not> isspace d \<and> d \<noteq> 45 \<and> d \<noteq> 43 \<and> d \<noteq> 58 \<and> d \<noteq> 10 \<and> d \<noteq> 13"
  by (auto simp: isdigit_def isspace_def dest: order_trans [of 48])

lemma takeWhile_digits: "\<forall>d\<in>set ds. isdigit d \<Longrightarrow> r = [] \<or> \<not> isdigit (hd r) \<Longrightarrow> takeWhile isdigit (ds @ r) = ds"
  by (cases r) auto

lemma scan_digits:
  assumes "r = [] \<or> \<not> isdigit (hd r)"
  shows "scan_int (dec n @ r) = Some (False, n)" "scan_int (45 # dec n @ r) = Some (True, n)"
proof -
  obtain d ds where d: "dec n = d # ds" using dec_digits(1) [of n] by (cases "dec n") auto
  with dec_digits(2) [of n] have "isdigit d" by simp
  moreover have "takeWhile isdigit (dec n @ r) = dec n" by (rule takeWhile_digits [OF dec_digits(2) assms])
  moreover have "\<not> isspace (45 :: byte)" by (simp add: isspace_def)
  ultimately show "scan_int (dec n @ r) = Some (False, n)" "scan_int (45 # dec n @ r) = Some (True, n)"
    using dec_digits(3) [of n] isdigit_not [of d] by (simp_all add: scan_int_def d Let_def)
qed

lemma stoll_to_string:
  assumes "i64_ok x" "r = [] \<or> \<not> isdigit (hd r)"
  shows "stoll (to_string x @ r) = Some x"
  using assms scan_digits [OF assms(2)] by (simp add: stoll_def to_string_def)

lemma stoull_dec:
  assumes "r = [] \<or> \<not> isdigit (hd r)"
  shows "stoull (dec (unat (w :: u64)) @ r) = Some w"
  using scan_digits(1) [OF assms, of "unat w"] unsigned_less [of w] by (simp add: stoull_def)

lemma to_string_no_colon: "58 \<notin> set (to_string x)" "to_string x \<noteq> []"
proof -
  show "58 \<notin> set (to_string x)"
    using dec_digits(2) [of "nat x"] dec_digits(2) [of "nat (- x)"] isdigit_not [of 58]
    by (auto simp: to_string_def)
  show "to_string x \<noteq> []" by (simp add: to_string_def dec_digits)
qed

lemma encode_price_quantity:
  assumes "i64_ok p" "i64_ok q"
  shows "lobc_encode c \<lparr>cq_op = SET, cq_key = k, cq_value = to_string p @ 58 # to_string q\<rparr> =
    Some (encodeNew (lobc_nextOrderId c) (if k = ascii ''sell'' then Sell else Buy) p q, c\<lparr>lobc_nextOrderId := lobc_nextOrderId c + 1\<rparr>)"
proof -
  have "takeWhile (\<lambda>b. b \<noteq> 58) (to_string p @ 58 # to_string q) = to_string p"
    using to_string_no_colon(1) [of p] by (simp add: takeWhile_append takeWhile_eq_all_conv)
  then show ?thesis
    using assms stoll_to_string [of p "[]"] stoll_to_string [of q "[]"] by (simp add: lobc_encode_def Let_def)
qed

section \<open>Command lines\<close>

definition word_text :: "byte list \<Rightarrow> bool" where
  "word_text t \<longleftrightarrow> t \<noteq> [] \<and> (\<forall>b\<in>set t. \<not> isspace b)"

lemma read_token_word:
  assumes "word_text t" "r = [] \<or> isspace (hd r)"
  shows "read_token (t @ r) = Some (t, r)" "read_token (32 # t @ r) = Some (t, r)"
proof -
  obtain b bs where t: "t = b # bs" "\<not> isspace b" "\<forall>b\<in>set bs. \<not> isspace b"
    using assms(1) by (cases t) (auto simp: word_text_def)
  have "takeWhile (\<lambda>b. \<not> isspace b) (bs @ r) = bs" "dropWhile (\<lambda>b. \<not> isspace b) (bs @ r) = r"
    using t(3) assms(2) by (cases r; simp)+
  moreover have "isspace 32" by (simp add: isspace_def)
  ultimately show "read_token (t @ r) = Some (t, r)" "read_token (32 # t @ r) = Some (t, r)"
    using t by (simp_all add: read_token_def)
qed

lemma word_command: "map toupper cmd = ascii s \<Longrightarrow> s \<noteq> [] \<Longrightarrow> \<forall>b\<in>set (ascii s). \<not> isspace b \<Longrightarrow> word_text cmd"
proof -
  assume a: "map toupper cmd = ascii s" "s \<noteq> []" "\<forall>b\<in>set (ascii s). \<not> isspace b"
  have "isspace b \<Longrightarrow> toupper b = b" for b by (auto simp: toupper_def isspace_def word_le_nat_alt)
  then have "\<not> isspace b" if "b \<in> set cmd" for b using that a(3) unfolding a(1) [symmetric] by fastforce
  with a(1,2) show "word_text cmd" by (auto simp: word_text_def ascii_def)
qed

lemma isspace_32: "isspace 32"
  by (simp add: isspace_def)

lemma command_words:
  "\<forall>b\<in>set (ascii ''SET''). \<not> isspace b" "\<forall>b\<in>set (ascii ''GET''). \<not> isspace b" "\<forall>b\<in>set (ascii ''DEL''). \<not> isspace b"
  by (simp_all add: ascii_def isspace_def)

lemma commands_differ:
  "ascii ''GET'' \<noteq> ascii ''SET''" "ascii ''DEL'' \<noteq> ascii ''SET''" "ascii ''DEL'' \<noteq> ascii ''GET''"
  by (simp_all add: ascii_def)

lemma parse_set:
  assumes "map toupper cmd = ascii ''SET''" "word_text k" "word_text v"
  shows "parseCommand (cmd @ 32 # k @ 32 # v) = Some \<lparr>cq_op = SET, cq_key = k, cq_value = v\<rparr>"
  using assms word_command [OF assms(1)] command_words read_token_word(2) [of v "[]"]
  by (simp add: parseCommand_def read_token_word isspace_32)

lemma parse_get:
  assumes "map toupper cmd = ascii ''GET''" "word_text k"
  shows "parseCommand (cmd @ 32 # k) = Some \<lparr>cq_op = GET, cq_key = k, cq_value = []\<rparr>"
  using assms word_command [OF assms(1)] command_words read_token_word(2) [of k "[]"]
  by (simp add: parseCommand_def read_token_word isspace_32 commands_differ)

lemma parse_del:
  assumes "map toupper cmd = ascii ''DEL''" "word_text k"
  shows "parseCommand (cmd @ 32 # k) = Some \<lparr>cq_op = DEL, cq_key = k, cq_value = []\<rparr>"
  using assms word_command [OF assms(1)] command_words read_token_word(2) [of k "[]"]
  by (simp add: parseCommand_def read_token_word isspace_32 commands_differ)

lemma word_text_number: "word_text (to_string p)" "word_text (to_string p @ 58 # to_string q)" "word_text (dec n)"
proof -
  have "\<not> isspace 45" "\<not> isspace 58" by (simp_all add: isspace_def)
  moreover have "\<forall>b\<in>set (dec n). \<not> isspace b" for n using dec_digits(2) [of n] isdigit_not by blast
  ultimately show "word_text (to_string p)" "word_text (to_string p @ 58 # to_string q)" "word_text (dec n)"
    by (auto simp: word_text_def to_string_def dec_digits(1))
qed

end
