(* ===== verification/Order_Client_Server.thy ===== *)
theory Order_Client_Server
  imports Text_Client LOB_State_Machine Socket_IO
begin

text \<open>
  The binary order port, \<^verbatim>\<open>app/net/OrderClientServer.{h,cpp}\<close>: length-prefixed frames, one handler per
  opcode, and the loop over the requests of one connection.

  The three callbacks are components of the record, absent until they are set. They work on the state \<open>'s\<close> of whoever
  installed them (\<open>None\<close>: the call does not return). A connection is the bytes that arrive before it closes, and
  \<open>writable k\<close> says whether the \<open>k\<close>-th reply can still be written.
\<close>

section \<open>Wire helpers\<close>

definition OP_BOOK :: byte where "OP_BOOK = 0x04"
definition OP_ERR :: byte where "OP_ERR = 0xFF"

definition oc_putU32 :: "u32 \<Rightarrow> byte list \<Rightarrow> byte list" where
  "oc_putU32 v buf = buf @ le_bytes 4 v"

definition oc_putU64 :: "u64 \<Rightarrow> byte list \<Rightarrow> byte list" where
  "oc_putU64 v buf = buf @ le_bytes 8 v"

definition oc_putI64 :: "int \<Rightarrow> byte list \<Rightarrow> byte list" where
  "oc_putI64 v buf = oc_putU64 (word_of_int v) buf"

definition oc_getU32 :: "byte list \<Rightarrow> nat \<Rightarrow> (u32 \<times> nat) option" where
  "oc_getU32 p off = get_le 4 p off"

definition oc_getU64 :: "byte list \<Rightarrow> nat \<Rightarrow> (u64 \<times> nat) option" where
  "oc_getU64 p off = get_le 8 p off"

definition oc_getI64 :: "byte list \<Rightarrow> nat \<Rightarrow> (int \<times> nat) option" where
  "oc_getI64 p off = do { (u, off) \<leftarrow> oc_getU64 p off; Some (sint u, off) }"

section \<open>Handlers\<close>

record 's OrderClientServer =
  oc_submitCb :: "('s \<Rightarrow> byte list \<Rightarrow> (byte list \<times> 's) option) option"
  oc_readCb :: "('s \<Rightarrow> nat \<Rightarrow> ((PriceLevel list \<times> PriceLevel list) \<times> 's) option) option"
  oc_isLeaderCb :: "('s \<Rightarrow> bool) option"

definition oc_new :: "'s OrderClientServer" where
  "oc_new = \<lparr>oc_submitCb = None, oc_readCb = None, oc_isLeaderCb = None\<rparr>"

definition makeError :: "string \<Rightarrow> byte list" where
  "makeError msg = oc_putU32 (word_of_nat (length msg)) [OP_ERR, 0] @ ascii msg"

definition oc_leads :: "'s OrderClientServer \<Rightarrow> 's \<Rightarrow> bool" where
  "oc_leads oc s = (case oc_isLeaderCb oc of None \<Rightarrow> False | Some f \<Rightarrow> f s)"

text \<open>The common end of the three handlers: submit the command and frame what it returned.\<close>

definition oc_reply :: "'s OrderClientServer \<Rightarrow> byte \<Rightarrow> 's \<Rightarrow> byte list \<Rightarrow> (byte list \<times> 's) option" where
  "oc_reply oc opcode s cmd =
     (case oc_submitCb oc of
        None \<Rightarrow> Some (makeError ''no submit handler'', s)
      | Some submit \<Rightarrow> do {
          (result, s) \<leftarrow> submit s cmd;
          Some ([opcode, if result = [] then 0 else 1] @ result, s)
        })"

definition oc_handleNew :: "'s OrderClientServer \<Rightarrow> 's \<Rightarrow> byte list \<Rightarrow> (byte list \<times> 's) option" where
  "oc_handleNew oc s p =
     (let bad = Some (makeError ''bad frame'', s)
      in if \<not> oc_leads oc s then Some (makeError ''not leader'', s)
         else case oc_getU64 p 0 of None \<Rightarrow> bad | Some (orderId, off) \<Rightarrow>
         if off + 1 > length p then bad
         else
           let side = p ! off; off = off + 1
           in if side > 1 then Some (makeError ''bad side'', s)
              else case oc_getI64 p off of None \<Rightarrow> bad | Some (price, off) \<Rightarrow>
              case oc_getI64 p off of None \<Rightarrow> bad | Some (qty, off) \<Rightarrow>
              oc_reply oc OP_NEW s (encodeNew orderId (if side = 0 then Buy else Sell) price qty))"

definition oc_handleCxl :: "'s OrderClientServer \<Rightarrow> 's \<Rightarrow> byte list \<Rightarrow> (byte list \<times> 's) option" where
  "oc_handleCxl oc s p =
     (if \<not> oc_leads oc s then Some (makeError ''not leader'', s)
      else case oc_getU64 p 0 of None \<Rightarrow> Some (makeError ''bad frame'', s) | Some (orderId, off) \<Rightarrow>
      oc_reply oc OP_CXL s (encodeCancel orderId))"

definition oc_handleMod :: "'s OrderClientServer \<Rightarrow> 's \<Rightarrow> byte list \<Rightarrow> (byte list \<times> 's) option" where
  "oc_handleMod oc s p =
     (let bad = Some (makeError ''bad frame'', s)
      in if \<not> oc_leads oc s then Some (makeError ''not leader'', s)
         else case oc_getU64 p 0 of None \<Rightarrow> bad | Some (orderId, off) \<Rightarrow>
         case oc_getI64 p off of None \<Rightarrow> bad | Some (newPrice, off) \<Rightarrow>
         case oc_getI64 p off of None \<Rightarrow> bad | Some (newQty, off) \<Rightarrow>
         oc_reply oc OP_MOD s (encodeModify orderId newPrice newQty))"

definition putLevel :: "PriceLevel \<Rightarrow> byte list \<Rightarrow> byte list" where
  "putLevel pl buf = oc_putU32 (pl_orderCount pl) (oc_putI64 (totalQuantity pl) (oc_putI64 (pl_price pl) buf))"

definition oc_handleBook :: "'s OrderClientServer \<Rightarrow> 's \<Rightarrow> byte list \<Rightarrow> (byte list \<times> 's) option" where
  "oc_handleBook oc s p =
     (case oc_readCb oc of
        None \<Rightarrow> Some (makeError ''no book reader'', s)
      | Some read \<Rightarrow> do {
          let maxLevels = (case oc_getU32 p 0 of None \<Rightarrow> 0 | Some (n, _) \<Rightarrow> unat n);
          ((bids, asks), s) \<leftarrow> read s maxLevels;
          let resp = [OP_BOOK, 1];
          let resp = oc_putU32 (word_of_nat (length bids)) resp;
          let resp = fold putLevel bids resp;
          let resp = oc_putU32 (word_of_nat (length asks)) resp;
          Some (fold putLevel asks resp, s)
        })"

section \<open>One connection\<close>

text \<open>The switch of \<open>handleClient\<close>.\<close>

definition oc_dispatch :: "'s OrderClientServer \<Rightarrow> 's \<Rightarrow> byte list \<Rightarrow> (byte list \<times> 's) option" where
  "oc_dispatch oc s frame =
     (let opcode = hd frame; payload = tl frame
      in if opcode = OP_NEW then oc_handleNew oc s payload
         else if opcode = OP_CXL then oc_handleCxl oc s payload
         else if opcode = OP_MOD then oc_handleMod oc s payload
         else if opcode = OP_BOOK then oc_handleBook oc s payload
         else Some (makeError ''unknown opcode'', s))"

definition oc_readFrame :: "segments \<Rightarrow> (byte list \<times> segments) option" where
  "oc_readFrame segs =
     do {
       (lenBuf, segs) \<leftarrow> readN 4 segs;
       let len = unat (le_word lenBuf :: u32);
       if len = 0 \<or> len > 2 ^ 20 then None
       else readN len segs
     }"

text \<open>The same on the byte stream.\<close>

definition readFrame :: "byte list \<Rightarrow> (byte list \<times> byte list) option" where
  "readFrame stream =
     (if length stream < 4 then None
      else
        let len = unat (le_word (take 4 stream) :: u32)
        in if len = 0 \<or> len > 2 ^ 20 then None
           else if length stream < 4 + len then None
           else Some (take len (drop 4 stream), drop (4 + len) stream))"

definition writeFrame :: "byte list \<Rightarrow> byte list" where
  "writeFrame payload = le_bytes 4 (word_of_nat (length payload) :: u32) @ payload"

lemma readFrame_shorter [termination_simp]: "readFrame stream = Some (frame, rest) \<Longrightarrow> length rest < length stream"
  by (auto simp: readFrame_def Let_def split: if_splits)

text \<open>The replies written and the final state.\<close>

fun oc_handleClient ::
  "'s OrderClientServer \<Rightarrow> (nat \<Rightarrow> bool) \<Rightarrow> nat \<Rightarrow> byte list \<Rightarrow> 's \<Rightarrow> (byte list \<times> 's) option" where
  "oc_handleClient oc writable k stream s =
     (case readFrame stream of
        None \<Rightarrow> Some ([], s)
      | Some (frame, rest) \<Rightarrow>
          if frame = [] then Some ([], s)
          else do {
            (response, s) \<leftarrow> oc_dispatch oc s frame;
            if \<not> writable k then Some ([], s)
            else do {
              (replies, s) \<leftarrow> oc_handleClient oc writable (k + 1) rest s;
              Some (writeFrame response @ replies, s)
            }
          })"

declare oc_handleClient.simps [simp del]

section \<open>Frames\<close>

definition frame_ok :: "byte list \<Rightarrow> bool" where
  "frame_ok f \<longleftrightarrow> f \<noteq> [] \<and> length f \<le> 2 ^ 20"

lemma readFrame_writeFrame: "frame_ok f \<Longrightarrow> readFrame (writeFrame f @ rest) = Some (f, rest)"
  using le_word_le_bytes [of 4 "of_nat (length f) :: u32"]
  by (simp add: frame_ok_def readFrame_def writeFrame_def unat_of_nat)

lemma readFrame_segments:
  assumes "open_socket segs"
  shows "case readFrame (concat segs) of
      None \<Rightarrow> oc_readFrame segs = None
    | Some (frame, rest) \<Rightarrow> \<exists>segs'. oc_readFrame segs = Some (frame, segs') \<and> concat segs' = rest \<and> open_socket segs'"
proof (cases "length (concat segs) < 4")
  case True
  then show ?thesis using readN_short [OF assms] by (simp add: readFrame_def oc_readFrame_def del: length_concat)
next
  case False
  let ?len = "unat (le_word (take 4 (concat segs)) :: u32)"
  from False assms obtain segs1 where r1: "readN 4 segs = Some (take 4 (concat segs), segs1)"
    "concat segs1 = drop 4 (concat segs)" "open_socket segs1"
    by (auto elim: readN_full [of segs 4] simp del: length_concat)
  from readN_stream [OF r1(3), of ?len] False r1(1,2) show ?thesis
    by (auto simp: readFrame_def oc_readFrame_def Let_def add.commute simp del: length_concat split: if_splits)
qed

fun serve_all :: "'s OrderClientServer \<Rightarrow> byte list list \<Rightarrow> 's \<Rightarrow> (byte list list \<times> 's) option" where
  "serve_all oc [] s = Some ([], s)"
| "serve_all oc (f # fs) s =
     do {
       (r, s) \<leftarrow> oc_dispatch oc s f;
       (rs, s) \<leftarrow> serve_all oc fs s;
       Some (r # rs, s)
     }"

lemma handleClient_frames:
  assumes "\<forall>f\<in>set frames. frame_ok f" "readFrame rest = None"
  shows "oc_handleClient oc (\<lambda>_. True) k (concat (map writeFrame frames) @ rest) s =
    map_option (\<lambda>(rs, s). (concat (map writeFrame rs), s)) (serve_all oc frames s)"
  using assms(1)
proof (induction frames arbitrary: k s)
  case Nil
  then show ?case using assms(2) by (subst oc_handleClient.simps) simp
next
  case (Cons f fs)
  then have f: "frame_ok f" "f \<noteq> []" by (simp_all add: frame_ok_def)
  have IH: "oc_handleClient oc (\<lambda>_. True) (k + 1) (concat (map writeFrame fs) @ rest) s1 =
    map_option (\<lambda>(rs, s). (concat (map writeFrame rs), s)) (serve_all oc fs s1)" for s1
    using Cons.IH Cons.prems by simp
  show ?case
  proof (cases "oc_dispatch oc s f")
    case None
    with f show ?thesis by (subst oc_handleClient.simps) (simp add: readFrame_writeFrame)
  next
    case (Some rs)
    with f IH [of "snd rs"] show ?thesis
      by (subst oc_handleClient.simps)
        (cases "serve_all oc fs (snd rs)"; simp add: readFrame_writeFrame case_prod_unfold)
  qed
qed

section \<open>What is proposed\<close>

lemmas oc_wire = oc_getU32_def oc_getU64_def oc_getI64_def getU32_def [symmetric] getU64_def [symmetric] getI64_def [symmetric]

definition valid_command :: "byte list \<Rightarrow> bool" where
  "valid_command cmd \<longleftrightarrow> (\<exists>i s p q. decodeNew cmd = Some (i, s, p, q) \<and> cmd = encodeNew i s p q) \<or>
     (\<exists>i. decodeCancel cmd = Some i \<and> cmd = encodeCancel i) \<or>
     (\<exists>i p q. decodeModify cmd = Some (i, p, q) \<and> cmd = encodeModify i p q)"

lemma valid_encodings:
  "i64_ok p \<Longrightarrow> i64_ok q \<Longrightarrow> valid_command (encodeNew i s p q)"
  "valid_command (encodeCancel i)"
  "i64_ok p \<Longrightarrow> i64_ok q \<Longrightarrow> valid_command (encodeModify i p q)"
  using decode_iffs(1) [of "encodeNew i s p q" i s p q] decode_iffs(2) [of "encodeCancel i" i]
    decode_iffs(3) [of "encodeModify i p q" i p q]
  by (auto simp: valid_command_def)

text \<open>A frame leads to at most one submission, of a valid command; otherwise the state is untouched.\<close>

lemma getI64_range: "getI64 p off = Some (x, off') \<Longrightarrow> i64_ok x"
  by (simp add: getI64_iff)

inductive served :: "'s OrderClientServer \<Rightarrow> 's \<Rightarrow> 's \<Rightarrow> bool" for oc where
  refused: "served oc s s"
| submitted: "oc_submitCb oc = Some submit \<Longrightarrow> valid_command cmd \<Longrightarrow> submit s cmd = Some (result, s') \<Longrightarrow> served oc s s'"
| read: "oc_readCb oc = Some read \<Longrightarrow> read s n = Some (lvs, s') \<Longrightarrow> served oc s s'"

lemma reply_served: "oc_reply oc opcode s cmd = Some (r, s') \<Longrightarrow> valid_command cmd \<longrightarrow> served oc s s'"
  by (auto simp: oc_reply_def bind_eq_Some_conv split: option.splits intro: served.intros)

lemma handlers_served:
  "oc_handleNew oc s p = Some (r, s') \<Longrightarrow> served oc s s'"
  "oc_handleCxl oc s p = Some (r, s') \<Longrightarrow> served oc s s'"
  "oc_handleMod oc s p = Some (r, s') \<Longrightarrow> served oc s s'"
  "oc_handleBook oc s p = Some (r, s') \<Longrightarrow> served oc s s'"
  by (auto simp: oc_handleNew_def oc_handleCxl_def oc_handleMod_def oc_handleBook_def oc_wire Let_def bind_eq_Some_conv
      refused valid_encodings split: if_splits option.splits dest!: reply_served getI64_range intro: served.read)

lemma dispatch_served: "oc_dispatch oc s frame = Some (r, s') \<Longrightarrow> served oc s s'"
  by (auto simp: oc_dispatch_def Let_def split: if_splits intro: refused handlers_served)

text \<open>What one served request keeps, a connection keeps.\<close>

lemma handleClient_keeps:
  assumes "\<And>s frame r s'. oc_dispatch oc s frame = Some (r, s') \<Longrightarrow> P s \<Longrightarrow> P s'"
    and "oc_handleClient oc writable k stream s = Some (out, s')" "P s"
  shows "P s'"
  using assms(2,3)
proof (induction stream arbitrary: k s out rule: length_induct)
  case (1 stream)
  show ?case
  proof (cases "readFrame stream")
    case None
    with "1.prems" show ?thesis by (simp add: oc_handleClient.simps)
  next
    case (Some fr)
    then obtain frame rest where fr: "readFrame stream = Some (frame, rest)" by (cases fr) auto
    from "1.prems"(1) consider "s' = s" | r s1 where "oc_dispatch oc s frame = Some (r, s1)" "s' = s1"
      | r s1 out1 where "oc_dispatch oc s frame = Some (r, s1)" "oc_handleClient oc writable (k + 1) rest s1 = Some (out1, s')"
      by (subst (asm) oc_handleClient.simps) (auto simp: fr bind_eq_Some_conv split: if_splits)
    then show ?thesis
      using "1.IH" "1.prems"(2) readFrame_shorter [OF fr] assms(1) by cases blast+
  qed
qed

section \<open>Forwarding\<close>

lemma dispatch_forwards:
  assumes "oc_leads oc s"
  shows "i64_ok p \<Longrightarrow> i64_ok q \<Longrightarrow>
      oc_dispatch oc s (encodeNew i sd p q @ rest) = oc_reply oc OP_NEW s (encodeNew i sd p q)"
    and "oc_dispatch oc s (encodeCancel i @ rest) = oc_reply oc OP_CXL s (encodeCancel i)"
    and "i64_ok p \<Longrightarrow> i64_ok q \<Longrightarrow>
      oc_dispatch oc s (encodeModify i p q @ rest) = oc_reply oc OP_MOD s (encodeModify i p q)"
proof -
  have ops: "OP_CXL \<noteq> OP_NEW" "OP_MOD \<noteq> OP_NEW" "OP_MOD \<noteq> OP_CXL"
    by (simp_all add: OP_CXL_def OP_NEW_def OP_MOD_def)
  show "oc_dispatch oc s (encodeCancel i @ rest) = oc_reply oc OP_CXL s (encodeCancel i)"
  proof -
    let ?p = "le_bytes 8 i @ rest"
    have "getU64 ?p 0 = Some (i, 8)" by (simp add: get_iffs bytes_at_0)
    then show ?thesis using assms ops by (simp add: oc_dispatch_def encode_bytes(2) oc_handleCxl_def oc_wire)
  qed
  assume pq: "i64_ok p" "i64_ok q"
  show "oc_dispatch oc s (encodeNew i sd p q @ rest) = oc_reply oc OP_NEW s (encodeNew i sd p q)"
  proof -
    let ?p = "le_bytes 8 i @ side_byte sd # le_bytes 8 (word_of_int p :: u64) @ le_bytes 8 (word_of_int q :: u64) @ rest"
    have "bytes_at ?p 0 (le_bytes 8 i @ side_byte sd # le_bytes 8 (word_of_int p :: u64) @ le_bytes 8 (word_of_int q :: u64))"
      by (simp add: bytes_at_0)
    then have "bytes_at ?p 0 (le_bytes 8 i)" "bytes_at ?p 9 (le_bytes 8 (word_of_int p :: u64))"
      "bytes_at ?p 17 (le_bytes 8 (word_of_int q :: u64))"
      by (simp_all add: bytes_at_append bytes_at_Cons)
    with pq have "getU64 ?p 0 = Some (i, 8)" "getI64 ?p 9 = Some (p, 17)" "getI64 ?p 17 = Some (q, 25)"
      by (simp_all add: codec_simps)
    moreover have "?p ! 8 = side_byte sd" by (simp add: nth_append)
    ultimately show ?thesis
      using assms by (cases sd) (simp_all add: oc_dispatch_def encode_bytes(1) oc_handleNew_def oc_wire)
  qed
  show "oc_dispatch oc s (encodeModify i p q @ rest) = oc_reply oc OP_MOD s (encodeModify i p q)"
  proof -
    let ?p = "le_bytes 8 i @ le_bytes 8 (word_of_int p :: u64) @ le_bytes 8 (word_of_int q :: u64) @ rest"
    have "bytes_at ?p 0 (le_bytes 8 i @ le_bytes 8 (word_of_int p :: u64) @ le_bytes 8 (word_of_int q :: u64))"
      by (simp add: bytes_at_0)
    then have "bytes_at ?p 0 (le_bytes 8 i)" "bytes_at ?p 8 (le_bytes 8 (word_of_int p :: u64))"
      "bytes_at ?p 16 (le_bytes 8 (word_of_int q :: u64))"
      by (simp_all add: bytes_at_append)
    with pq have "getU64 ?p 0 = Some (i, 8)" "getI64 ?p 8 = Some (p, 16)" "getI64 ?p 16 = Some (q, 24)"
      by (simp_all add: codec_simps)
    then show ?thesis using assms ops by (simp add: oc_dispatch_def encode_bytes(3) oc_handleMod_def oc_wire)
  qed
qed

text \<open>A node that does not lead refuses every command and leaves the state alone.\<close>

lemma dispatch_follower:
  assumes "\<not> oc_leads oc s" "hd frame \<in> {OP_NEW, OP_CXL, OP_MOD}"
  shows "oc_dispatch oc s frame = Some (makeError ''not leader'', s)"
  using assms
  by (auto simp: oc_dispatch_def Let_def oc_handleNew_def oc_handleCxl_def oc_handleMod_def OP_CXL_def OP_NEW_def OP_MOD_def)

end
