(* ===== verification/Client_Properties.thy ===== *)
theory Client_Properties
  imports Raft_Transport KV_Store Order_Client_Server
begin

text \<open>
  Properties of everything that talks to a node: the messages between nodes, the key-value service, the text
  port and the binary order port.
\<close>

section \<open>Messages between nodes\<close>

text \<open>C22. The stream delivers messages: what the receive loop of a connection hands to the server is exactly the
  messages that were sent, in order, each with all its fields, however the network cuts the stream into segments
  and whatever prefix of one more message arrived before the connection broke.\<close>

theorem messages_delivered:
  assumes "\<forall>m\<in>set ms. fits_frame m" "fits_frame m" "serializeMessage m = f @ g" "g \<noteq> []"
    and "open_socket segs" "concat segs = concat (map serializeMessage ms) @ f"
  shows "rt_connLoop segs = ms"
  using connLoop_stream [OF assms(1), of f] connLoop_torn [OF assms(2-4)] connLoop_segments [OF assms(5)] assms(6) by simp

definition demo_append :: Message where
  "demo_append =
     (new_Message MsgApp 2 1 3)\<lparr>msg_logTerm := 2, msg_index := 7, msg_commit := 5,
       msg_entries := [\<lparr>ent_term = 3, ent_index = 8, ent_type = Normal, ent_data = [1, 2]\<rparr>]\<rparr>"

lemma demo_append_fits: "fits_frame demo_append"
  by (simp add: fits_frame_def message_ok_def demo_append_def new_Message_def message_wire_def entry_wire_def
      entry_ok_def u64_ok_def default_Snapshot_def MessageType_of_u8_def MessageType_to_u8_def)

lemma demo_append_long: "100 < length (serializeMessage demo_append)"
  by (simp add: serializeMessage_wire message_wire_def demo_append_def entry_wire_def)

theorem messages_delivered_witness:
  "let b = serializeMessage demo_append in rt_connLoop [take 3 b, drop 3 b @ take 10 b, take 10 (drop 10 b)] = [demo_append]"
proof -
  let ?b = "serializeMessage demo_append"
  let ?segs = "[take 3 ?b, drop 3 ?b @ take 10 ?b, take 10 (drop 10 ?b)]"
  have segs: "open_socket ?segs" "drop 20 ?b \<noteq> []" using demo_append_long by (auto simp: open_socket_def)
  have "take 20 ?b = take 10 ?b @ take 10 (drop 10 ?b)" by (simp add: take_add [of 10 10, simplified])
  then have "concat ?segs = concat (map serializeMessage [demo_append]) @ take 20 ?b" by simp
  from messages_delivered [of "[demo_append]", OF _ demo_append_fits append_take_drop_id [symmetric] segs(2,1) this] show ?thesis
    by (simp add: demo_append_fits Let_def)
qed

text \<open>C39. A message whose frame is larger than 16 MiB is lost together with everything behind it: \<open>send\<close> writes it
  and reports success, and the receiver closes the connection at its length field. A snapshot of that size can
  therefore never be transferred.\<close>

theorem oversized_message_lost:
  assumes "\<forall>m\<in>set ms. fits_frame m" "16 * 2 ^ 20 + 4 < length (serializeMessage m)" "length (serializeMessage m) < 2 ^ 32"
    and "map_of (rt_conns t) (msg_to m, if isHeartbeat (msg_type m) then 1 else 0) = Some s"
    and "snd (writeAll (serializeMessage m) answers) = Some True"
    and "open_socket segs" "concat segs = concat (map serializeMessage ms) @ serializeMessage m @ rest"
  shows "rt_send connect answers t m = Some (True, t) \<and> rt_connLoop segs = ms"
proof
  show "rt_send connect answers t m = Some (True, t)"
    using assms(4,5) by (simp add: rt_send_def rt_getOrCreateConn_def rt_sendOnConn_def Let_def)
  have "connLoop (serializeMessage m @ rest) = []"
    using assms(2,3) by (intro connLoop_oversized) (simp_all add: serializeMessage_wire)
  then show "rt_connLoop segs = ms"
    using connLoop_stream [OF assms(1), of "serializeMessage m @ rest"] connLoop_segments [OF assms(6)] assms(7) by simp
qed

definition big_snapshot :: Snapshot where
  "big_snapshot = \<lparr>snap_term = 3, snap_index = 9, snap_data = replicate (2 ^ 24) 0\<rparr>"

lemma length_big_snapshot: "length (snap_data big_snapshot) = 2 ^ 24"
  unfolding big_snapshot_def by (simp only: Snapshot.simps length_replicate)

definition big_message :: Message where
  "big_message = (new_Message MsgSnap 2 1 3)\<lparr>msg_snapshot := big_snapshot\<rparr>"

lemma length_big_message: "length (serializeMessage big_message) = 2 ^ 24 + 90"
  by (simp add: big_message_def serializeMessage_wire message_wire_def length_big_snapshot new_Message_def)

definition demo_transport :: RaftTransport where
  "demo_transport = \<lparr>rt_peers = [(2, ''10.0.0.2'', 9999)], rt_conns = [((2, 0), 5)]\<rparr>"

theorem oversized_message_lost_witness:
  "rt_send (\<lambda>_. None) [Some (2 ^ 25)] demo_transport big_message = Some (True, demo_transport) \<and>
   rt_connLoop [serializeMessage demo_append, serializeMessage big_message, serializeMessage demo_append] = [demo_append]"
proof -
  let ?segs = "[serializeMessage demo_append, serializeMessage big_message, serializeMessage demo_append]"
  have pos: "serializeMessage big_message \<noteq> []" "serializeMessage demo_append \<noteq> []"
    using length_big_message demo_append_long by auto
  have "snd (writeAll (serializeMessage big_message) [Some (2 ^ 25)]) = Some True"
    using pos(1) length_big_message by simp
  moreover have "map_of (rt_conns demo_transport) (msg_to big_message, if isHeartbeat (msg_type big_message) then 1 else 0) = Some 5"
    by (simp add: demo_transport_def big_message_def isHeartbeat_def new_Message_def)
  moreover have "open_socket ?segs" using pos by (simp add: open_socket_def)
  ultimately show ?thesis
    using oversized_message_lost [of "[demo_append]" big_message demo_transport 5 "[Some (2 ^ 25)]" ?segs
        "serializeMessage demo_append" "\<lambda>_. None"] length_big_message
    by (simp add: demo_append_fits)
qed

section \<open>The key-value service\<close>

text \<open>C26. The key-value service is a map: a request encoded by the client codec, applied by the state machine and
  decoded again acts on the stored map as \<^verbatim>\<open>SET\<close>, \<^verbatim>\<open>GET\<close> and \<^verbatim>\<open>DEL\<close> should and answers with the previous value of the
  key. The only request that fails is a \<^verbatim>\<open>DEL\<close> of a key that is not there, which erases the end iterator.\<close>

theorem kv_service:
  assumes "kv_ok st" "str_ok (cq_key req)" "str_ok (cq_value req)"
  shows "if cq_op req = DEL \<and> map_of (kv_map st) (cq_key req) = None
    then kv_apply st (kvc_encode req) = None
    else \<exists>r st'. kv_apply st (kvc_encode req) = Some (r, st') \<and> kv_ok st' \<and>
      map_of (kv_map st') = spec_request req (map_of (kv_map st)) \<and>
      kvc_decodeResult r = spec_response req (map_of (kv_map st))"
  using assms kv_request [OF assms] kv_delete_missing [OF assms(2), of st] by (auto simp: kvc_encode_def)

theorem kv_service_witness:
  "kv_apply kv_init (kvc_encode \<lparr>cq_op = DEL, cq_key = [7], cq_value = []\<rparr>) = None \<and>
   (\<exists>r st'. kv_apply kv_init (kvc_encode \<lparr>cq_op = SET, cq_key = [7], cq_value = [1, 2]\<rparr>) = Some (r, st') \<and>
      map_of (kv_map st') [7] = Some [1, 2] \<and> \<not> cr_found (kvc_decodeResult r))"
  using kv_service [OF kv_ok_init, of "\<lparr>cq_op = DEL, cq_key = [7], cq_value = []\<rparr>"]
    kv_service [OF kv_ok_init, of "\<lparr>cq_op = SET, cq_key = [7], cq_value = [1, 2]\<rparr>"]
  by (auto simp: str_ok_def kv_init_def spec_request_def spec_response_def default_ClientResponse_def)

text \<open>C27. Snapshots of the key-value store do not depend on the iteration order of the hash map: whatever order the
  snapshot was written in, restoring it on any replica gives the same map.\<close>

theorem kv_snapshot_roundtrip:
  assumes "kv_ok st" "distinct (map fst es)" "set es = set (kv_map st)" "length es < 2 ^ 32"
  shows "kv_get (kv_restore st0 (kv_snapshot st es)) = kv_get st \<and> kv_ok (kv_restore st0 (kv_snapshot st es))"
  using restore_enumeration [OF assms, of st0] by (auto simp: kv_get_def fun_eq_iff)

theorem kv_snapshot_roundtrip_witness:
  "let st = \<lparr>kv_map = [([1], [10]), ([2], [])]\<rparr>
   in kv_get (kv_restore \<lparr>kv_map = [([9], [9])]\<rparr> (kv_snapshot st [([2], []), ([1], [10])])) [1] = Some [10] \<and>
      kv_get (kv_restore \<lparr>kv_map = [([9], [9])]\<rparr> (kv_snapshot st [([2], []), ([1], [10])])) [9] = None"
proof -
  let ?st = "\<lparr>kv_map = [([1], [10]), ([2], [])]\<rparr>" and ?es = "[([2], []), ([1], [10])] :: (byte list \<times> byte list) list"
  have "kv_ok ?st" "distinct (map fst ?es)" "set ?es = set (kv_map ?st)" "length ?es < 2 ^ 32"
    by (auto simp: kv_ok_def str_ok_def)
  from kv_snapshot_roundtrip [OF this, of "\<lparr>kv_map = [([9], [9])]\<rparr>"] show ?thesis
    by (simp add: Let_def) (simp add: kv_get_def)
qed

section \<open>Orders typed as text\<close>

lemma handleLine_command:
  assumes "parseCommand l = Some req" "l \<noteq> []" "last l \<noteq> 13"
  shows "handleLine (Some f) l s = do { (resp, s) \<leftarrow> f s req; Some (formatResponse resp, s) }"
    "handleLine (Some f) (l @ [13]) s = do { (resp, s) \<leftarrow> f s req; Some (formatResponse resp, s) }"
  using assms by (simp_all add: handleLine_def Let_def)

lemma last_to_string: "isdigit (last (to_string q))"
  using dec_digits(1,2) last_in_set by (auto simp: to_string_def)

lemma word_no_newline: "word_text t \<Longrightarrow> 10 \<notin> set t"
proof -
  have "isspace 10" by (simp add: isspace_def)
  then show "word_text t \<Longrightarrow> 10 \<notin> set t" by (auto simp: word_text_def)
qed

text \<open>A handler that encodes the request and answers the encoded command with \<open>reply\<close>.\<close>

definition codec_handler :: "(byte list \<Rightarrow> ClientResponse) \<Rightarrow> LOBCodec handler" where
  "codec_handler reply c req = do { (cmd, c) \<leftarrow> lobc_encode c req; Some (reply cmd, c) }"

text \<open>C29. An order typed as text reaches the engine as that order: the line \<^verbatim>\<open>SET sell 100:5\<close>, in any letter case of the
  command, with either line ending and cut into any chunks by the network, becomes exactly one encoded new order
  with this side, price and quantity and the next order id, and is answered once.\<close>

theorem text_order:
  assumes "concat chunks = cmd @ 32 # sd @ 32 # (to_string p @ 58 # to_string q) @ eol"
    and "map toupper cmd = ascii ''SET''" "word_text sd" "i64_ok p" "i64_ok q" "eol = [10] \<or> eol = [13, 10]"
  shows "handleClient (Some (codec_handler reply)) chunks [] c =
    Some (formatResponse (reply (encodeNew (lobc_nextOrderId c) (if sd = ascii ''sell'' then Sell else Buy) p q)), [],
      c\<lparr>lobc_nextOrderId := lobc_nextOrderId c + 1\<rparr>)"
proof -
  let ?v = "to_string p @ 58 # to_string q" let ?l = "cmd @ 32 # sd @ 32 # ?v"
  have words: "word_text cmd" "word_text sd" "word_text ?v"
    using word_command [OF assms(2)] command_words(1) assms(3) word_text_number by simp_all
  have nl: "10 \<notin> set ?l" "10 \<notin> set (?l @ [13])"
    using words [THEN word_no_newline] by auto
  have l: "parseCommand ?l = Some \<lparr>cq_op = SET, cq_key = sd, cq_value = ?v\<rparr>" "?l \<noteq> []" "last ?l \<noteq> 13"
    using parse_set [OF assms(2,3) words(3)] last_to_string [of q] isdigit_not to_string_no_colon(2) [of q] by auto
  have "handleLine (Some (codec_handler reply)) l' c =
    Some (formatResponse (reply (encodeNew (lobc_nextOrderId c) (if sd = ascii ''sell'' then Sell else Buy) p q)),
      c\<lparr>lobc_nextOrderId := lobc_nextOrderId c + 1\<rparr>)" if "l' \<in> {?l, ?l @ [13]}" for l'
    using that handleLine_command [OF l, of "codec_handler reply" c] encode_price_quantity [OF assms(4,5), of c sd]
    by (auto simp: codec_handler_def)
  moreover have "concat chunks = ?l @ 10 # [] \<or> concat chunks = (?l @ [13]) @ 10 # []" using assms(1,6) by auto
  ultimately show ?thesis
    using handleClient_stream [of "[]" "Some (codec_handler reply)" chunks c] 
      lineLoop_line [OF nl(1), of "Some (codec_handler reply)" "[]" c] lineLoop_line [OF nl(2), of "Some (codec_handler reply)" "[]" c]
    by (auto simp: lineLoop_done)
qed

theorem text_order_witness:
  "handleClient (Some (codec_handler (\<lambda>cmd. default_ClientResponse))) [ascii ''set se'', ascii ''ll 100'', ascii '':-5'' @ [13], [10]] [] lobc_new =
     Some (ascii ''OK'' @ [10], [], \<lparr>lobc_nextOrderId = 2\<rparr>)"
proof -
  have n: "to_string 100 = ascii ''100''" "to_string (-5) = ascii ''-5''"
    by (simp_all add: to_string_def dec.simps ascii_def)
  have "concat [ascii ''set se'', ascii ''ll 100'', ascii '':-5'' @ [13], [10]] =
    ascii ''set'' @ 32 # ascii ''sell'' @ 32 # (to_string 100 @ 58 # to_string (-5)) @ [13, 10]"
    unfolding n by (simp add: ascii_def)
  from text_order [OF this, of "\<lambda>cmd. default_ClientResponse" lobc_new] show ?thesis
    by (simp add: ascii_def toupper_def word_text_def isspace_def i64_ok_def lobc_new_def formatResponse_def default_ClientResponse_def)
qed

text \<open>The reply to an order that rests without trading says neither its id nor that it rests: the summary is
  only printed when there are fills.\<close>

lemma resting_order_reply: "i64_ok q \<Longrightarrow> formatResponse (lobc_decodeResult (encodeNewResult [] True q)) = ascii ''OK'' @ [10]"
  using decodeNewResult_encode [of "[]" q True "[]"]
  by (simp add: lobc_decodeResult_def formatResponse_def default_ClientResponse_def encodeNewResult_bytes)

section \<open>The binary order port\<close>

text \<open>A port whose owner only writes down what is submitted.\<close>

definition recording ::
  "(byte list \<Rightarrow> byte list) \<Rightarrow> (nat \<Rightarrow> PriceLevel list \<times> PriceLevel list) \<Rightarrow> bool \<Rightarrow> byte list list OrderClientServer" where
  "recording answer book leads =
     \<lparr>oc_submitCb = Some (\<lambda>cmds cmd. Some (answer cmd, cmds @ [cmd])), oc_readCb = Some (\<lambda>cmds n. Some (book n, cmds)),
      oc_isLeaderCb = Some (\<lambda>_. leads)\<rparr>"

lemma recording_served:
  assumes "served (recording answer book leads) cmds cmds'"
  shows "cmds' = cmds \<or> (\<exists>cmd. valid_command cmd \<and> cmds' = cmds @ [cmd])"
  using assms by cases (auto simp: recording_def)

lemma recording_follower: "oc_dispatch (recording answer book False) cmds frame = Some (r, cmds') \<Longrightarrow> cmds' = cmds"
  by (auto simp: oc_dispatch_def oc_handleNew_def oc_handleCxl_def oc_handleMod_def oc_handleBook_def oc_leads_def
      recording_def Let_def case_prod_unfold split: if_splits)

lemma recording_total: "\<exists>r cmds'. oc_dispatch (recording answer book leads) cmds frame = Some (r, cmds')"
  by (auto simp: oc_dispatch_def oc_handleNew_def oc_handleCxl_def oc_handleMod_def oc_handleBook_def oc_reply_def
      recording_def Let_def case_prod_unfold split: option.splits)

lemma recording_connection: "\<exists>out cmds'. oc_handleClient (recording answer book leads) writable k stream cmds = Some (out, cmds')"
proof (induction stream arbitrary: k cmds rule: length_induct)
  case (1 stream)
  show ?case
  proof (cases "readFrame stream")
    case (Some fr)
    obtain frame rest where fr: "fr = (frame, rest)" by (cases fr)
    with Some have shorter: "length rest < length stream" using readFrame_shorter by blast
    obtain r cmds1 where r: "oc_dispatch (recording answer book leads) cmds frame = Some (r, cmds1)"
      using recording_total by blast
    from 1 shorter obtain out cmds' where
      "oc_handleClient (recording answer book leads) writable (k + 1) rest cmds1 = Some (out, cmds')" by blast
    with r show ?thesis by (subst oc_handleClient.simps) (simp add: Some fr)
  qed (simp add: oc_handleClient.simps)
qed

text \<open>C28. Only well-formed commands reach the log through the order port: whatever bytes a client sends, the connection
  is served to its end, every command it submits is the exact encoding of a new order, a cancellation or a
  modification (so every replica decodes it), and a node that does not lead submits nothing.\<close>

theorem only_valid_commands:
  "\<exists>out cmds. oc_handleClient (recording answer book leads) writable k stream [] = Some (out, cmds) \<and>
     list_all valid_command cmds \<and> (leads \<or> cmds = [])"
proof -
  let ?oc = "recording answer book leads"
  obtain out cmds where run: "oc_handleClient ?oc writable k stream [] = Some (out, cmds)" using recording_connection by blast
  have "list_all valid_command cmds"
    by (rule handleClient_keeps [OF _ run]) (auto dest!: dispatch_served recording_served)
  moreover have "cmds = []" if "\<not> leads"
  proof -
    have "oc_handleClient (recording answer book False) writable k stream [] = Some (out, cmds)" using run that by simp
    then show ?thesis
      by (rule handleClient_keeps [where P = "\<lambda>cmds. cmds = []", rotated]) (auto dest: recording_follower)
  qed
  ultimately show ?thesis using run by blast
qed

text \<open>What the port answers to a cancellation on a leader: the status byte is 1 in every case, and whether an order
  was cancelled is only in the payload behind it.\<close>

definition book_port :: "MapOrderBook LOBStateMachine OrderClientServer" where
  "book_port =
     \<lparr>oc_submitCb = Some (lob_apply map_book_ops),
      oc_readCb = Some (\<lambda>st n. do { b \<leftarrow> lob_bids map_book_ops st n; a \<leftarrow> lob_asks map_book_ops st n; Some ((b, a), st) }),
      oc_isLeaderCb = Some (\<lambda>_. True)\<rparr>"

theorem cancel_status:
  assumes "mob_ok (lsm_book st)"
  shows "\<exists>st'. oc_dispatch book_port st (encodeCancel i) =
      Some ([OP_CXL, 1, if ab_find i (mob_abs (lsm_book st)) = None then 0 else 1], st') \<and>
    mob_ok (lsm_book st') \<and> mob_abs (lsm_book st') = snd (spec_cancel i (mob_abs (lsm_book st)))"
proof -
  have dec: "decodeCancel (encodeCancel i) = Some i" using decode_iffs(2) [of "encodeCancel i" i] by simp
  have hd: "encodeCancel i \<noteq> []" "hd (encodeCancel i) = OP_CXL" by (simp_all add: encode_bytes)
  have "OP_CXL \<noteq> OP_NEW" by (simp add: OP_CXL_def OP_NEW_def)
  with hd dec have spec: "spec_apply (lsm_abs mob_abs st) (encodeCancel i) =
      (encodeSimpleResult (ab_find i (mob_abs (lsm_book st)) \<noteq> None), snd (spec_cancel i (mob_abs (lsm_book st))), lsm_nextSeq st + 1)"
    by (simp add: spec_apply_def lsm_abs_def spec_cancel_def Let_def case_prod_unfold)
  from map_book.apply_refines [OF assms, of "encodeCancel i"] obtain st' where
    "lob_apply map_book_ops st (encodeCancel i) = Some (encodeSimpleResult (ab_find i (mob_abs (lsm_book st)) \<noteq> None), st')"
    "lsm_abs mob_abs st' = (snd (spec_cancel i (mob_abs (lsm_book st))), lsm_nextSeq st + 1)" "mob_ok (lsm_book st')"
    unfolding spec by auto
  moreover have "oc_leads book_port st" by (simp add: oc_leads_def book_port_def)
  from dispatch_forwards(2) [OF this, of i "[]"]
  have "oc_dispatch book_port st (encodeCancel i) = oc_reply book_port OP_CXL st (encodeCancel i)" by simp
  ultimately show ?thesis
    by (auto simp: oc_reply_def book_port_def encodeSimpleResult_def lsm_abs_def)
qed

theorem cancel_status_witness:
  "\<exists>st'. oc_dispatch book_port (lsm_init (mob_empty [])) (encodeCancel 7) = Some ([OP_CXL, 1, 0], st') \<and>
     mob_abs (lsm_book st') = mob_abs (mob_empty [])"
proof -
  have "mob_ok (lsm_book (lsm_init (mob_empty [])))" by (simp add: lsm_init_def mob_ok_empty)
  moreover have "ab_find 7 (mob_abs (mob_empty [])) = None" by (simp add: mob_empty_def mob_abs_def ab_find_None ab_all_def)
  ultimately show ?thesis using cancel_status [of "lsm_init (mob_empty [])" 7] by (auto simp: lsm_init_def spec_cancel_def)
qed

end
