(* ===== verification/Shard_Manager.thy ===== *)
theory Shard_Manager
  imports Server_Loop LOB_State_Machine "HOL-Library.List_Lexorder"
begin

text \<open>
  One Raft group per symbol, \<^verbatim>\<open>app/server/ShardManager.{h,cpp}\<close>. A shard owns its node, log, snapshot file and
  book; the manager is the \<open>std::map\<close> of the shards. A turn of a shard's thread and a client call up to its wait are
  the atomic steps (the source takes no lock around a shard's node). What the directory of a symbol holds when its
  shard is created, and the random draws of its node, are parameters. As in the server, a client waits on a ticket.
\<close>

section \<open>State\<close>

record Shard =
  sh_wal :: WriteAheadLog
  sh_snapFile :: SnapFiles
  sh_fsm :: "MapOrderBook LOBStateMachine"
  sh_node :: RawNode
  sh_loopThread :: bool
  sh_running :: bool
  sh_pending :: "(nat, nat) std_map"
  sh_results :: "(nat \<times> byte list) list"
  sh_nextTicket :: nat

record ShardManager =
  sm_config :: AppConfig
  sm_electionTick :: nat
  sm_heartbeatTick :: nat
  sm_shards :: "(byte list, Shard) std_map"

definition sm_new :: "AppConfig \<Rightarrow> nat \<Rightarrow> nat \<Rightarrow> ShardManager" where
  "sm_new c electionTick heartbeatTick =
     \<lparr>sm_config = c, sm_electionTick = electionTick, sm_heartbeatTick = heartbeatTick, sm_shards = []\<rparr>"

type_synonym disk = "byte list \<Rightarrow> Files \<times> SnapFiles"

abbreviation sh_storage :: "Shard \<Rightarrow> Storage" where
  "sh_storage sh \<equiv> wal_view (sh_wal sh)"

section \<open>Operations\<close>

definition sm_raftConfig :: "ShardManager \<Rightarrow> Config" where
  "sm_raftConfig m =
     (let bc = sm_config m
      in \<lparr>cfg_id = ac_selfId bc, cfg_leaderId = 0, cfg_electionTick = sm_electionTick m,
          cfg_heartbeatTick = sm_heartbeatTick m, cfg_maxSizePerMsg = ac_maxSizePerMsg bc,
          cfg_maxInflightMsgs = ac_maxInflightMsgs bc, cfg_peers = map pi_id (ac_peers bc), cfg_learners = [],
          cfg_readOnlyOption = Safe\<rparr>)"

definition sm_newShard :: "disk \<Rightarrow> (byte list \<Rightarrow> nat \<Rightarrow> nat) \<Rightarrow> ShardManager \<Rightarrow> byte list \<Rightarrow> Shard" where
  "sm_newShard disk entropy m name =
     (let wal = wal_open (fst (disk name))
      in \<lparr>sh_wal = wal, sh_snapFile = snd (disk name), sh_fsm = lsm_init (mob_empty name),
          sh_node = rn_new (sm_raftConfig m) (wal_view wal) (entropy name), sh_loopThread = False,
          sh_running = False, sh_pending = [], sh_results = [], sh_nextTicket = 0\<rparr>)"

definition sm_createShard :: "disk \<Rightarrow> (byte list \<Rightarrow> nat \<Rightarrow> nat) \<Rightarrow> ShardManager \<Rightarrow> byte list \<Rightarrow> ShardManager" where
  "sm_createShard disk entropy m name =
     m\<lparr>sm_shards := std_put (<) name (sm_newShard disk entropy m name) (sm_shards m)\<rparr>"

text \<open>\<open>None\<close>: assigning to a thread that is still joinable ends the process.\<close>

definition sm_start :: "ShardManager \<Rightarrow> ShardManager option" where
  "sm_start m =
     (if \<exists>p\<in>set (sm_shards m). sh_loopThread (snd p) then None
      else Some (m\<lparr>sm_shards := map (\<lambda>(name, sh). (name, sh\<lparr>sh_running := True, sh_loopThread := True\<rparr>)) (sm_shards m)\<rparr>))"

definition sm_stop :: "ShardManager \<Rightarrow> ShardManager" where
  "sm_stop m = m\<lparr>sm_shards := map (\<lambda>(name, sh). (name, sh\<lparr>sh_running := False, sh_loopThread := False\<rparr>)) (sm_shards m)\<rparr>"

definition sh_applyEntry :: "Entry \<Rightarrow> Shard \<Rightarrow> Shard option" where
  "sh_applyEntry e sh =
     do {
       (result, f) \<leftarrow> lob_apply map_book_ops (sh_fsm sh) (ent_data e);
       let sh = sh\<lparr>sh_fsm := f\<rparr>;
       Some (case map_of (sh_pending sh) (ent_index e) of
               None \<Rightarrow> sh
             | Some tk \<Rightarrow> sh\<lparr>sh_pending := std_erase (ent_index e) (sh_pending sh),
                            sh_results := sh_results sh @ [(tk, result)]\<rparr>)
     }"

definition sm_processReady :: "Shard \<Rightarrow> Ready \<Rightarrow> Shard option" where
  "sm_processReady sh rd =
     do {
       let w = (if rd_entries rd \<noteq> [] then wal_appendNoSync (sh_wal sh) (rd_entries rd) else sh_wal sh);
       let w = (if hs_nonzero (rd_hardState rd) then wal_saveHardState w (rd_hardState rd) else w);
       let w = (if rd_entries rd \<noteq> [] \<or> hs_nonzero (rd_hardState rd) then wal_sync w else w);
       let sh = sh\<lparr>sh_wal := w\<rparr>;
       sh \<leftarrow> (case rd_snapshot rd of
          None \<Rightarrow> Some sh
        | Some snap \<Rightarrow> do {
            f \<leftarrow> lob_restore map_book_ops (sh_fsm sh) (snap_data snap);
            w \<leftarrow> wal_applySnapshot (sh_wal sh) snap;
            Some (sh\<lparr>sh_fsm := f, sh_snapFile := sf_save (sh_snapFile sh) snap, sh_wal := w\<rparr>)
          });
       for_each sh_applyEntry (rd_committedEntries rd) sh
     }"

definition rn_hasReady :: "RawNode \<Rightarrow> bool" where
  "rn_hasReady n = True"

text \<open>One turn of \<open>shardLoop\<close>.\<close>

definition sh_loop :: "Shard \<Rightarrow> Shard option" where
  "sh_loop sh =
     do {
       (_, n) \<leftarrow> rn_tick (sh_storage sh) (sh_node sh);
       let sh = sh\<lparr>sh_node := n\<rparr>;
       if rn_hasReady n
       then do {
         let (rd, n) = rn_poll (sh_storage sh) n;
         sh \<leftarrow> sm_processReady (sh\<lparr>sh_node := n\<rparr>) rd;
         n \<leftarrow> rn_advance (sh_storage sh) (sh_node sh);
         Some (sh\<lparr>sh_node := n\<rparr>)
       }
       else Some sh
     }"

definition sm_shardLoop :: "ShardManager \<Rightarrow> byte list \<Rightarrow> ShardManager option" where
  "sm_shardLoop m name =
     (case map_of (sm_shards m) name of
        None \<Rightarrow> Some m
      | Some sh \<Rightarrow>
          if sh_loopThread sh \<and> sh_running sh
          then do { sh \<leftarrow> sh_loop sh; Some (m\<lparr>sm_shards := std_put (<) name sh (sm_shards m)\<rparr>) }
          else Some m)"

text \<open>\<open>submit\<close> up to the wait: \<open>Inl\<close> is an answer at once, \<open>Inr\<close> the ticket waited on.\<close>

definition sh_submit :: "Shard \<Rightarrow> byte list \<Rightarrow> ((byte list + nat) \<times> Shard) option" where
  "sh_submit sh cmd =
     (if rn_role (sh_node sh) \<noteq> Leader then Some (Inl [], sh)
      else do {
        (ok, n) \<leftarrow> rn_propose (sh_storage sh) (sh_node sh) cmd;
        let sh = sh\<lparr>sh_node := n\<rparr>;
        if \<not> ok then Some (Inl [], sh)
        else
          let idx = rl_lastIndex (sh_storage sh) (rn_log n); tk = sh_nextTicket sh
          in Some (Inr tk, sh\<lparr>sh_pending := std_put (<) idx tk (sh_pending sh), sh_nextTicket := tk + 1\<rparr>)
      })"

definition sm_submit ::
  "disk \<Rightarrow> (byte list \<Rightarrow> nat \<Rightarrow> nat) \<Rightarrow> ShardManager \<Rightarrow> byte list \<Rightarrow> byte list \<Rightarrow> ((byte list + nat) \<times> ShardManager) option" where
  "sm_submit disk entropy m name cmd =
     do {
       let m = (if map_of (sm_shards m) name = None then sm_createShard disk entropy m name else m);
       sh \<leftarrow> map_of (sm_shards m) name;
       (r, sh) \<leftarrow> sh_submit sh cmd;
       Some (r, m\<lparr>sm_shards := std_put (<) name sh (sm_shards m)\<rparr>)
     }"

text \<open>The end of the wait: \<open>None\<close> while the client still waits.\<close>

definition sh_await :: "Shard \<Rightarrow> nat \<Rightarrow> byte list option" where
  "sh_await sh tk =
     (case map_of (sh_results sh) tk of
        Some result \<Rightarrow> Some result
      | None \<Rightarrow> if sh_running sh then None else Some [])"

definition sm_getFSM :: "ShardManager \<Rightarrow> byte list \<Rightarrow> MapOrderBook LOBStateMachine option" where
  "sm_getFSM m name = map_option sh_fsm (map_of (sm_shards m) name)"

definition sm_symbols :: "ShardManager \<Rightarrow> byte list list" where
  "sm_symbols m = map fst (sm_shards m)"

definition sm_shardCount :: "ShardManager \<Rightarrow> nat" where
  "sm_shardCount m = length (sm_shards m)"

definition sm_isLeader :: "ShardManager \<Rightarrow> bool" where
  "sm_isLeader m = list_ex (\<lambda>(name, sh). rn_role (sh_node sh) = Leader) (sm_shards m)"

section \<open>Runs\<close>

datatype shard_event = Submit "byte list" "byte list" | Loop_turn "byte list" | Start_all | Stop_all

fun sm_step :: "disk \<Rightarrow> (byte list \<Rightarrow> nat \<Rightarrow> nat) \<Rightarrow> shard_event \<Rightarrow> ShardManager \<Rightarrow> ShardManager option" where
  "sm_step disk entropy (Submit name cmd) m = map_option snd (sm_submit disk entropy m name cmd)"
| "sm_step disk entropy (Loop_turn name) m = sm_shardLoop m name"
| "sm_step disk entropy Start_all m = sm_start m"
| "sm_step disk entropy Stop_all m = Some (sm_stop m)"

definition sm_run :: "disk \<Rightarrow> (byte list \<Rightarrow> nat \<Rightarrow> nat) \<Rightarrow> shard_event list \<Rightarrow> ShardManager \<Rightarrow> ShardManager option" where
  "sm_run disk entropy = for_each (sm_step disk entropy)"

interpretation less_str: compare "(<) :: byte list \<Rightarrow> byte list \<Rightarrow> bool"
  by unfold_locales auto

section \<open>Well-formed managers\<close>

definition shard_ok :: "byte list \<Rightarrow> Shard \<Rightarrow> bool" where
  "shard_ok name sh \<longleftrightarrow> mob_ok (lsm_book (sh_fsm sh)) \<and> mob_symbol (lsm_book (sh_fsm sh)) = name"

definition sm_ok :: "ShardManager \<Rightarrow> bool" where
  "sm_ok m \<longleftrightarrow> std_sorted (<) (sm_shards m) \<and> (\<forall>(name, sh)\<in>set (sm_shards m). shard_ok name sh)"

lemma sm_ok_view: "sm_ok m \<Longrightarrow> map_of (sm_shards m) name = Some sh \<Longrightarrow> shard_ok name sh"
  by (auto simp: sm_ok_def dest: map_of_SomeD)

lemma map_of_put: "sm_ok m \<Longrightarrow> map_of (std_put (<) k v (sm_shards m)) = (map_of (sm_shards m))(k \<mapsto> v)"
  by (simp add: sm_ok_def less_str.put_map_of)

lemma sm_ok_put:
  assumes "sm_ok m" "shard_ok name sh"
  shows "sm_ok (m\<lparr>sm_shards := std_put (<) name sh (sm_shards m)\<rparr>)"
proof -
  have sorted: "std_sorted (<) (std_put (<) name sh (sm_shards m))"
    using assms(1) by (simp add: sm_ok_def less_str.put_sorted)
  have "shard_ok k v" if "(k, v) \<in> set (std_put (<) name sh (sm_shards m))" for k v
  proof -
    have "map_of (std_put (<) name sh (sm_shards m)) k = Some v"
      using that less_str.sorted_distinct [OF sorted] by simp
    then show ?thesis
      using map_of_put [OF assms(1)] assms sm_ok_view [OF assms(1)] by (auto split: if_splits)
  qed
  with sorted show ?thesis by (auto simp: sm_ok_def)
qed

lemma sm_ok_map:
  assumes "sm_ok m" "\<And>name sh. sh_fsm (f sh) = sh_fsm sh"
  shows "sm_ok (m\<lparr>sm_shards := map (\<lambda>(name, sh). (name, f sh)) (sm_shards m)\<rparr>)"
  using assms by (auto simp: sm_ok_def std_sorted_def shard_ok_def o_def case_prod_unfold)

lemma map_of_map_shards: "map_of (map (\<lambda>(name, sh). (name, f sh)) m) name = map_option f (map_of m name)"
  by (induction m) auto

lemma spec_apply_symbol: "ab_symbol (fst (snd (spec_apply st data))) = ab_symbol (fst st)"
  by (cases st)
    (auto simp: spec_apply_def spec_new_def spec_rest_def spec_cancel_def spec_modify_def Let_def spec_remove_def
      split: option.splits prod.splits if_splits)

lemma applyEntry_ok: "sh_applyEntry e sh = Some sh' \<Longrightarrow> shard_ok name sh \<Longrightarrow> shard_ok name sh'"
proof -
  assume run: "sh_applyEntry e sh = Some sh'" and ok: "shard_ok name sh"
  obtain f where "lob_apply map_book_ops (sh_fsm sh) (ent_data e) = Some (fst (spec_apply (lsm_abs mob_abs (sh_fsm sh)) (ent_data e)), f)"
    "lsm_abs mob_abs f = snd (spec_apply (lsm_abs mob_abs (sh_fsm sh)) (ent_data e))" "mob_ok (lsm_book f)"
    using map_book.apply_refines [of "sh_fsm sh" "ent_data e"] ok by (auto simp: shard_ok_def)
  moreover from arg_cong [OF this(2), of "\<lambda>st. ab_symbol (fst st)"]
  have "mob_symbol (lsm_book f) = mob_symbol (lsm_book (sh_fsm sh))" by (simp add: spec_apply_symbol lsm_abs_def)
  ultimately show "shard_ok name sh'"
    using run ok by (auto simp: sh_applyEntry_def shard_ok_def Let_def split: option.splits)
qed

lemma for_each_keeps:
  assumes "for_each f xs s = Some s'" "P s" "\<And>x s s'. f x s = Some s' \<Longrightarrow> P s \<Longrightarrow> P s'"
  shows "P s'"
  using assms(1,2) by (induction xs arbitrary: s) (auto simp: bind_eq_Some_conv intro: assms(3))

lemma poll_no_snapshot: "rd_snapshot (fst (rn_poll S n)) = None"
  by (simp add: rn_poll_def Let_def)

lemma sh_loop_ok:
  assumes "sh_loop sh = Some sh'" "shard_ok name sh"
  shows "shard_ok name sh'"
proof -
  obtain rd n2 sh1 n3 where rd: "rd_snapshot rd = None" and
    ready: "sm_processReady (sh\<lparr>sh_node := n2\<rparr>) rd = Some sh1" and sh': "sh' = sh1\<lparr>sh_node := n3\<rparr>"
    using assms(1)
    by (auto simp: sh_loop_def rn_hasReady_def bind_eq_Some_conv Let_def case_prod_unfold
        intro: that [OF poll_no_snapshot])
  obtain sh0 where "for_each sh_applyEntry (rd_committedEntries rd) sh0 = Some sh1" "shard_ok name sh0"
    using ready assms(2) rd by (auto simp: sm_processReady_def Let_def shard_ok_def)
  then have "shard_ok name sh1" by (rule for_each_keeps) (rule applyEntry_ok)
  then show ?thesis by (simp add: sh' shard_ok_def)
qed

lemma sh_submit_keeps: "sh_submit sh cmd = Some (r, sh') \<Longrightarrow> sh_fsm sh' = sh_fsm sh"
  by (auto simp: sh_submit_def bind_eq_Some_conv Let_def split: if_splits)

lemma mob_empty_symbol: "mob_symbol (mob_empty name) = name"
  by (simp add: mob_empty_def)

lemma createShard_ok: "sm_ok m \<Longrightarrow> sm_ok (sm_createShard disk entropy m name)"
  unfolding sm_createShard_def
  by (rule sm_ok_put) (simp_all add: sm_newShard_def shard_ok_def lsm_init_def mob_ok_empty Let_def mob_empty_symbol)

lemma submit_cases:
  assumes "sm_ok m" "sm_submit disk entropy m name cmd = Some (r, m')"
  obtains sh sh' where "map_of (sm_shards m) name = Some sh \<or>
      map_of (sm_shards m) name = None \<and> sh = sm_newShard disk entropy m name"
    "sh_submit sh cmd = Some (r, sh')" "sm_ok m'" "map_of (sm_shards m') = (map_of (sm_shards m))(name \<mapsto> sh')"
    "sm_shards m' = std_put (<) name sh' (sm_shards m)" "m' = m\<lparr>sm_shards := sm_shards m'\<rparr>"
proof -
  define m1 where "m1 = (if map_of (sm_shards m) name = None then sm_createShard disk entropy m name else m)"
  have ok: "sm_ok m1" using assms(1) by (simp add: m1_def createShard_ok)
  obtain sh sh' where sh: "map_of (sm_shards m1) name = Some sh" "sh_submit sh cmd = Some (r, sh')"
    "m' = m1\<lparr>sm_shards := std_put (<) name sh' (sm_shards m1)\<rparr>"
    using assms(2) by (auto simp: sm_submit_def m1_def [symmetric] Let_def bind_eq_Some_conv)
  have "shard_ok name sh'" using sm_ok_view [OF ok sh(1)] sh_submit_keeps [OF sh(2)] by (simp add: shard_ok_def)
  with ok have "sm_ok m'" unfolding sh(3) by (rule sm_ok_put)
  moreover have "map_of (sm_shards m) name = Some sh \<or> map_of (sm_shards m) name = None \<and> sh = sm_newShard disk entropy m name"
    using sh(1) map_of_put [OF assms(1)] by (auto simp: m1_def sm_createShard_def split: if_splits)
  moreover have "sm_shards m' = std_put (<) name sh' (sm_shards m)"
    by (simp add: sh(3) m1_def sm_createShard_def less_str.put_put)
  moreover from this have "map_of (sm_shards m') = (map_of (sm_shards m))(name \<mapsto> sh')"
    using map_of_put [OF assms(1)] by simp
  moreover have "m' = m\<lparr>sm_shards := sm_shards m'\<rparr>" by (simp add: sh(3) m1_def sm_createShard_def)
  ultimately show ?thesis using sh(2) that by blast
qed

lemma loop_cases:
  assumes "sm_ok m" "sm_shardLoop m name = Some m'"
  obtains "m' = m" "\<forall>sh. map_of (sm_shards m) name = Some sh \<longrightarrow> \<not> (sh_loopThread sh \<and> sh_running sh)"
  | sh sh' where "map_of (sm_shards m) name = Some sh" "sh_loopThread sh" "sh_running sh" "sh_loop sh = Some sh'" "sm_ok m'"
    "map_of (sm_shards m') = (map_of (sm_shards m))(name \<mapsto> sh')"
    "m' = m\<lparr>sm_shards := std_put (<) name sh' (sm_shards m)\<rparr>"
proof (cases "\<exists>sh. map_of (sm_shards m) name = Some sh \<and> sh_loopThread sh \<and> sh_running sh")
  case True
  then obtain sh sh' where sh: "map_of (sm_shards m) name = Some sh" "sh_loopThread sh" "sh_running sh" "sh_loop sh = Some sh'"
    "m' = m\<lparr>sm_shards := std_put (<) name sh' (sm_shards m)\<rparr>"
    using assms(2) by (auto simp: sm_shardLoop_def bind_eq_Some_conv)
  moreover have "sm_ok m'" unfolding sh(5)
    by (rule sm_ok_put [OF assms(1) sh_loop_ok [OF sh(4) sm_ok_view [OF assms(1) sh(1)]]])
  ultimately show ?thesis using that(2) map_of_put [OF assms(1)] by simp
next
  case False
  with assms(2) have "m' = m" by (auto simp: sm_shardLoop_def split: option.splits if_splits)
  with False that(1) show ?thesis by blast
qed

lemma sm_step_ok: "sm_step disk entropy ev m = Some m' \<Longrightarrow> sm_ok m \<Longrightarrow> sm_ok m'"
proof (cases ev)
  case (Submit name cmd)
  assume "sm_step disk entropy ev m = Some m'" "sm_ok m"
  then show ?thesis by (auto simp: Submit elim: submit_cases)
next
  case (Loop_turn name)
  assume "sm_step disk entropy ev m = Some m'" "sm_ok m"
  then show ?thesis by (auto simp: Loop_turn elim: loop_cases)
next
  case Start_all
  assume "sm_step disk entropy ev m = Some m'" "sm_ok m"
  then show ?thesis
    using sm_ok_map [of m "\<lambda>sh. sh\<lparr>sh_running := True, sh_loopThread := True\<rparr>"]
    by (auto simp: Start_all sm_start_def split: if_splits)
next
  case Stop_all
  assume "sm_step disk entropy ev m = Some m'" "sm_ok m"
  then show ?thesis
    using sm_ok_map [of m "\<lambda>sh. sh\<lparr>sh_running := False, sh_loopThread := False\<rparr>"] by (simp add: Stop_all sm_stop_def)
qed

lemma sm_ok_new: "sm_ok (sm_new c e h)"
  by (simp add: sm_ok_def sm_new_def)

lemma sm_run_ok: "sm_run disk entropy evs m = Some m' \<Longrightarrow> sm_ok m \<Longrightarrow> sm_ok m'"
  unfolding sm_run_def by (rule for_each_keeps) (auto intro: sm_step_ok)

section \<open>Shards are independent\<close>

fun about :: "byte list \<Rightarrow> shard_event \<Rightarrow> bool" where
  "about name (Submit n cmd) \<longleftrightarrow> n = name"
| "about name (Loop_turn n) \<longleftrightarrow> n = name"
| "about name Start_all \<longleftrightarrow> True"
| "about name Stop_all \<longleftrightarrow> True"

text \<open>The manager with the shard of one symbol only.\<close>

definition only :: "byte list \<Rightarrow> ShardManager \<Rightarrow> ShardManager" where
  "only name m = m\<lparr>sm_shards := (case map_of (sm_shards m) name of None \<Rightarrow> [] | Some sh \<Rightarrow> [(name, sh)])\<rparr>"

lemma newShard_shards [simp]: "sm_newShard disk entropy (m\<lparr>sm_shards := x\<rparr>) name = sm_newShard disk entropy m name"
  by (simp add: sm_newShard_def sm_raftConfig_def Let_def)

lemma only_view: "map_of (sm_shards (only name m)) name = map_of (sm_shards m) name"
  by (simp add: only_def split: option.split)

lemma only_put:
  assumes "map_of (sm_shards m') = (map_of (sm_shards m))(k \<mapsto> sh)" "m' = m\<lparr>sm_shards := sm_shards m'\<rparr>"
  shows "only name m' = (if k = name then m\<lparr>sm_shards := [(name, sh)]\<rparr> else only name m)"
proof -
  obtain x where "m' = m\<lparr>sm_shards := x\<rparr>" using assms(2) by blast
  with assms(1) show ?thesis by (simp add: only_def)
qed

lemma submit_alone:
  assumes "sm_ok m" "sm_submit disk entropy m name cmd = Some (r, m')"
  shows "sm_submit disk entropy (only name m) name cmd = Some (r, only name m')"
  using assms
proof (cases rule: submit_cases)
  case (1 sh sh')
  note o = only_put [OF 1(4,6), of name]
  from 1(1,2) o show ?thesis
    by (auto simp: sm_submit_def only_def sm_createShard_def Let_def)
qed

lemma submit_other:
  assumes "sm_ok m" "sm_submit disk entropy m k cmd = Some (r, m')" "k \<noteq> name"
  shows "only name m' = only name m"
  using assms(1,2)
proof (cases rule: submit_cases)
  case (1 sh sh')
  then show ?thesis using only_put [OF 1(4,6), of name] assms(3) by simp
qed

lemma loop_alone:
  assumes "sm_ok m" "sm_shardLoop m name = Some m'"
  shows "sm_shardLoop (only name m) name = Some (only name m')"
  using assms
proof (cases rule: loop_cases)
  case 1
  then show ?thesis by (auto simp: sm_shardLoop_def only_view split: option.split)
next
  case (2 sh sh')
  have "m' = m\<lparr>sm_shards := sm_shards m'\<rparr>" by (simp add: 2(7))
  from only_put [OF 2(6) this, of name] 2 show ?thesis by (simp add: sm_shardLoop_def only_def)
qed

lemma loop_other:
  assumes "sm_ok m" "sm_shardLoop m k = Some m'" "k \<noteq> name"
  shows "only name m' = only name m"
  using assms(1,2)
proof (cases rule: loop_cases)
  case (2 sh sh')
  have "m' = m\<lparr>sm_shards := sm_shards m'\<rparr>" by (simp add: 2(7))
  from only_put [OF 2(6) this, of name] assms(3) show ?thesis by simp
qed simp

lemma step_alone:
  assumes "sm_ok m" "sm_step disk entropy ev m = Some m'"
  shows "if about name ev then sm_step disk entropy ev (only name m) = Some (only name m') else only name m' = only name m"
proof (cases ev)
  case (Submit k cmd)
  with assms show ?thesis by (auto simp: submit_alone submit_other)
next
  case (Loop_turn k)
  with assms show ?thesis by (auto simp: loop_alone loop_other)
next
  case Start_all
  with assms(2) show ?thesis
    by (cases "map_of (sm_shards m) name")
      (auto simp: sm_start_def only_def map_of_map_shards split: if_splits dest!: bspec [OF _ map_of_SomeD])
next
  case Stop_all
  with assms(2) show ?thesis by (auto simp: sm_stop_def only_def map_of_map_shards split: option.splits)
qed

lemma run_alone:
  "sm_ok m \<Longrightarrow> sm_run disk entropy evs m = Some m' \<Longrightarrow>
     sm_run disk entropy (filter (about name) evs) (only name m) = Some (only name m')"
proof (induction evs arbitrary: m)
  case Nil
  then show ?case by (simp add: sm_run_def)
next
  case (Cons ev evs)
  then obtain m1 where m1: "sm_step disk entropy ev m = Some m1" "sm_run disk entropy evs m1 = Some m'"
    by (auto simp: sm_run_def bind_eq_Some_conv)
  from Cons.IH [OF sm_step_ok [OF m1(1) Cons.prems(1)] m1(2)] step_alone [OF Cons.prems(1) m1(1), of name]
  show ?case by (auto simp: sm_run_def split: if_splits)
qed

section \<open>Shards created after the start\<close>

definition dormant :: "Shard \<Rightarrow> bool" where
  "dormant sh \<longleftrightarrow> \<not> sh_running sh \<and> rn_role (sh_node sh) = Follower"

lemma newShard_dormant: "dormant (sm_newShard disk entropy m name)"
  by (simp add: dormant_def sm_newShard_def rn_new_def rn_randomize_def Let_def case_prod_unfold)

lemma dormant_submit: "dormant sh \<Longrightarrow> sh_submit sh cmd = Some (Inl [], sh)"
  by (simp add: dormant_def sh_submit_def)

lemma submit_unknown:
  assumes "sm_ok m" "map_of (sm_shards m) name = None"
  shows "\<exists>m1. sm_submit disk entropy m name cmd = Some (Inl [], m1) \<and> sm_ok m1 \<and>
    map_of (sm_shards m1) name = Some (sm_newShard disk entropy m name)"
proof -
  have "sm_submit disk entropy m name cmd =
    Some (Inl [], sm_createShard disk entropy m name)"
    using assms map_of_put [OF assms(1)]
    by (simp add: sm_submit_def sm_createShard_def dormant_submit [OF newShard_dormant] less_str.put_put)
  then show ?thesis using createShard_ok [OF assms(1)] map_of_put [OF assms(1)] by (simp add: sm_createShard_def)
qed

lemma step_dormant:
  assumes "sm_ok m" "map_of (sm_shards m) name = Some sh" "dormant sh" "sm_step disk entropy ev m = Some m'" "ev \<noteq> Start_all"
  shows "\<exists>sh'. map_of (sm_shards m') name = Some sh' \<and> dormant sh'"
proof (cases ev)
  case (Submit k cmd)
  with assms(4) obtain r where "sm_submit disk entropy m k cmd = Some (r, m')" by auto
  with assms(1) show ?thesis
  proof (cases rule: submit_cases)
    case (1 sh1 sh')
    with assms(2,3) dormant_submit show ?thesis by (cases "k = name") auto
  qed
next
  case (Loop_turn k)
  with assms(4) have "sm_shardLoop m k = Some m'" by simp
  with assms(1) show ?thesis
  proof (cases rule: loop_cases)
    case (2 sh1 sh')
    with assms(2,3) show ?thesis by (cases "k = name") (auto simp: dormant_def)
  qed (use assms(2,3) in auto)
next
  case Stop_all
  with assms show ?thesis by (auto simp: sm_stop_def map_of_map_shards dormant_def)
qed (use assms(5) in simp)

lemma run_dormant:
  "sm_ok m \<Longrightarrow> map_of (sm_shards m) name = Some sh \<Longrightarrow> dormant sh \<Longrightarrow> sm_run disk entropy evs m = Some m' \<Longrightarrow>
    Start_all \<notin> set evs \<Longrightarrow> \<exists>sh'. map_of (sm_shards m') name = Some sh' \<and> dormant sh'"
proof (induction evs arbitrary: m sh)
  case Nil
  then show ?case by (simp add: sm_run_def)
next
  case (Cons ev evs)
  then obtain m1 where m1: "sm_step disk entropy ev m = Some m1" "sm_run disk entropy evs m1 = Some m'"
    by (auto simp: sm_run_def bind_eq_Some_conv)
  moreover from Cons.prems(5) have "ev \<noteq> Start_all" "Start_all \<notin> set evs" by auto
  ultimately show ?case
    using Cons.IH [OF sm_step_ok [OF m1(1) Cons.prems(1)]] step_dormant [OF Cons.prems(1-3) m1(1)] by blast
qed

end
