(* ===== verification/Node_Main.thy ===== *)
theory Node_Main
  imports Text_Client
begin

text \<open>
  The command line of a node, \<^verbatim>\<open>app/main.cpp\<close>: the arguments become the configuration, the engine, the read mode
  and the order port. Every way out of the parser is a value: an exit with a message, or an exception of
  \<open>std::stoul\<close> that nothing catches.
\<close>

section \<open>Parsing\<close>

datatype main_error = Usage | Bad_peer "byte list" | Self_not_in_peers | Uncaught_exception

datatype node_mode = KV_mode | Map_LOB_mode | Skip_LOB_mode

record MainOptions =
  mo_cfg :: AppConfig
  mo_dataDir :: "byte list"
  mo_mode :: "byte list"
  mo_readMode :: ReadMode
  mo_orderPort :: nat

definition default_AppConfig :: AppConfig where
  "default_AppConfig =
     \<lparr>ac_selfId = 0, ac_peers = [], ac_electionTick = 10, ac_heartbeatTick = 1, ac_maxSizePerMsg = 2 ^ 20,
      ac_maxInflightMsgs = 256\<rparr>"

text \<open>\<open>static_cast<uintN_t>(std::stoul(s))\<close>\<close>

definition stoul_cast :: "nat \<Rightarrow> byte list \<Rightarrow> main_error + nat" where
  "stoul_cast bits s = (case stoull s of None \<Rightarrow> Inl Uncaught_exception | Some n \<Rightarrow> Inr (unat n mod 2 ^ bits))"

definition parse_readMode :: "byte list \<Rightarrow> ReadMode" where
  "parse_readMode rm =
     (if rm = ascii ''readindex'' then RM_ReadIndex else if rm = ascii ''lease'' then RM_LeaseBased else RM_Direct)"

definition from_ascii :: "byte list \<Rightarrow> string" where
  "from_ascii bs = map (\<lambda>b. char_of (unat b)) bs"

text \<open>\<open>host:raftPort:clientPort\<close>\<close>

definition parse_peer :: "byte list \<Rightarrow> nat \<Rightarrow> main_error + PeerInfo" where
  "parse_peer arg pid =
     (let host = takeWhile (\<lambda>b. b \<noteq> 58) arg; after = drop (length host + 1) arg
      in if 58 \<notin> set arg \<or> 58 \<notin> set after then Inl (Bad_peer arg)
         else
           let raft = takeWhile (\<lambda>b. b \<noteq> 58) after; client = drop (length raft + 1) after
           in case stoul_cast 16 raft of Inl e \<Rightarrow> Inl e | Inr rp \<Rightarrow>
              case stoul_cast 16 client of Inl e \<Rightarrow> Inl e | Inr cp \<Rightarrow>
              Inr \<lparr>pi_id = pid, pi_host = from_ascii host, pi_raftPort = rp, pi_clientPort = cp\<rparr>)"

fun parse_args :: "byte list list \<Rightarrow> MainOptions \<Rightarrow> main_error + MainOptions" where
  "parse_args [] mo = Inr mo"
| "parse_args (arg # rest) mo =
     (if arg = ascii ''--mode'' \<and> rest \<noteq> [] then parse_args (tl rest) (mo\<lparr>mo_mode := hd rest\<rparr>)
      else if arg = ascii ''--readmode'' \<and> rest \<noteq> [] then parse_args (tl rest) (mo\<lparr>mo_readMode := parse_readMode (hd rest)\<rparr>)
      else if arg = ascii ''--orderport'' \<and> rest \<noteq> [] then
        (case stoul_cast 16 (hd rest) of
           Inl e \<Rightarrow> Inl e
         | Inr n \<Rightarrow> parse_args (tl rest) (mo\<lparr>mo_orderPort := n\<rparr>))
      else if arg = ascii ''--electionTick'' \<and> rest \<noteq> [] then
        (case stoul_cast 32 (hd rest) of
           Inl e \<Rightarrow> Inl e
         | Inr n \<Rightarrow> parse_args (tl rest) (mo\<lparr>mo_cfg := (mo_cfg mo)\<lparr>ac_electionTick := n\<rparr>\<rparr>))
      else
        (case parse_peer arg (length (ac_peers (mo_cfg mo)) + 1) of
           Inl e \<Rightarrow> Inl e
         | Inr p \<Rightarrow> parse_args rest (mo\<lparr>mo_cfg := (mo_cfg mo)\<lparr>ac_peers := ac_peers (mo_cfg mo) @ [p]\<rparr>\<rparr>)))"

definition main_options :: "byte list list \<Rightarrow> main_error + MainOptions" where
  "main_options argv =
     (if length argv < 4 then Inl Usage
      else case stoull (argv ! 1) of None \<Rightarrow> Inl Uncaught_exception | Some selfId \<Rightarrow>
      case parse_args (drop 3 argv)
        \<lparr>mo_cfg = default_AppConfig\<lparr>ac_selfId := unat selfId\<rparr>, mo_dataDir = argv ! 2, mo_mode = ascii ''kv'',
         mo_readMode = RM_Direct, mo_orderPort = 0\<rparr> of
        Inl e \<Rightarrow> Inl e
      | Inr mo \<Rightarrow>
          if \<not> list_ex (\<lambda>p. pi_id p = ac_selfId (mo_cfg mo)) (ac_peers (mo_cfg mo)) then Inl Self_not_in_peers
          else Inr mo)"

text \<open>The components that are injected: the state machine, and whether there is an order port.\<close>

definition main_mode :: "MainOptions \<Rightarrow> node_mode" where
  "main_mode mo =
     (if mo_mode mo = ascii ''lob'' \<or> mo_mode mo = ascii ''skiplob''
      then (if mo_mode mo = ascii ''skiplob'' then Skip_LOB_mode else Map_LOB_mode) else KV_mode)"

definition main_hasOrderServer :: "MainOptions \<Rightarrow> bool" where
  "main_hasOrderServer mo \<longleftrightarrow> main_mode mo \<noteq> KV_mode \<and> mo_orderPort mo > 0"

section \<open>Well-formed configurations\<close>

definition peers_ok :: "PeerInfo list \<Rightarrow> bool" where
  "peers_ok ps \<longleftrightarrow> map pi_id ps = [1..<length ps + 1] \<and>
     (\<forall>p\<in>set ps. pi_raftPort p < 2 ^ 16 \<and> pi_clientPort p < 2 ^ 16 \<and> CHR '':'' \<notin> set (pi_host p))"

definition options_ok :: "MainOptions \<Rightarrow> bool" where
  "options_ok mo \<longleftrightarrow> peers_ok (ac_peers (mo_cfg mo)) \<and> ac_electionTick (mo_cfg mo) < 2 ^ 32 \<and> mo_orderPort mo < 2 ^ 16 \<and>
     u64_ok (ac_selfId (mo_cfg mo)) \<and> ac_heartbeatTick (mo_cfg mo) = 1"

lemma stoul_cast_range: "stoul_cast bits s = Inr n \<Longrightarrow> n < 2 ^ bits"
  by (auto simp: stoul_cast_def split: option.splits)

lemma colon_byte: "CHR '':'' = char_of (unat (b :: byte)) \<Longrightarrow> b = 58"
proof -
  assume "CHR '':'' = char_of (unat b)"
  from arg_cong [OF this, of "of_char :: char \<Rightarrow> nat"] have "unat b mod 256 = 58" by simp
  moreover have "unat b < 2 ^ LENGTH(8)" by (rule unsigned_less)
  ultimately have "unat b = 58" by simp
  then show "b = 58" by (simp add: word_unat_eq_iff)
qed

lemma parse_peer_ok:
  assumes "parse_peer arg pid = Inr p"
  shows "pi_id p = pid" "pi_raftPort p < 2 ^ 16" "pi_clientPort p < 2 ^ 16" "CHR '':'' \<notin> set (pi_host p)"
proof -
  have "CHR '':'' \<notin> set (from_ascii (takeWhile (\<lambda>b. b \<noteq> 58) arg))"
    by (auto simp: from_ascii_def dest: set_takeWhileD colon_byte)
  with assms show "pi_id p = pid" "pi_raftPort p < 2 ^ 16" "pi_clientPort p < 2 ^ 16" "CHR '':'' \<notin> set (pi_host p)"
    by (auto simp: parse_peer_def Let_def split: if_splits sum.splits dest!: stoul_cast_range)
qed

lemma peers_ok_append:
  "peers_ok ps \<Longrightarrow> pi_id p = length ps + 1 \<Longrightarrow> pi_raftPort p < 2 ^ 16 \<Longrightarrow> pi_clientPort p < 2 ^ 16 \<Longrightarrow>
     CHR '':'' \<notin> set (pi_host p) \<Longrightarrow> peers_ok (ps @ [p])"
  by (auto simp: peers_ok_def)

lemma parse_args_ok: "parse_args args mo = Inr mo' \<Longrightarrow> options_ok mo \<Longrightarrow> options_ok mo'"
proof (induction args mo rule: parse_args.induct)
  case (2 arg rest mo)
  consider (peer) p where "parse_peer arg (length (ac_peers (mo_cfg mo)) + 1) = Inr p"
      "parse_args rest (mo\<lparr>mo_cfg := (mo_cfg mo)\<lparr>ac_peers := ac_peers (mo_cfg mo) @ [p]\<rparr>\<rparr>) = Inr mo'"
      "\<not> (arg = ascii ''--mode'' \<and> rest \<noteq> [])" "\<not> (arg = ascii ''--readmode'' \<and> rest \<noteq> [])"
      "\<not> (arg = ascii ''--orderport'' \<and> rest \<noteq> [])" "\<not> (arg = ascii ''--electionTick'' \<and> rest \<noteq> [])"
    | (option) "rest \<noteq> []" "arg \<in> {ascii ''--mode'', ascii ''--readmode'', ascii ''--orderport'', ascii ''--electionTick''}"
    using "2.prems"(1) by (auto split: if_splits sum.splits)
  then show ?case
  proof cases
    case peer
    have "options_ok (mo\<lparr>mo_cfg := (mo_cfg mo)\<lparr>ac_peers := ac_peers (mo_cfg mo) @ [p]\<rparr>\<rparr>)"
      using "2.prems"(2) parse_peer_ok [OF peer(1)] by (simp add: options_ok_def peers_ok_append)
    with "2.IH"(5) [OF peer(3-6) peer(1,2)] show ?thesis .
  next
    case option
    with "2.prems" "2.IH"(1-4) show ?thesis
      by (auto simp: options_ok_def split: if_splits sum.splits dest!: stoul_cast_range)
  qed
qed simp

lemma main_options_ok:
  assumes "main_options argv = Inr mo"
  shows "options_ok mo" "ac_self (mo_cfg mo) \<noteq> None"
proof -
  obtain selfId :: u64 where args: "parse_args (drop 3 argv)
        \<lparr>mo_cfg = default_AppConfig\<lparr>ac_selfId := unat selfId\<rparr>, mo_dataDir = argv ! 2, mo_mode = ascii ''kv'',
         mo_readMode = RM_Direct, mo_orderPort = 0\<rparr> = Inr mo" (is "parse_args _ ?mo = _")
    and found: "list_ex (\<lambda>p. pi_id p = ac_selfId (mo_cfg mo)) (ac_peers (mo_cfg mo))"
    using assms by (auto simp: main_options_def split: if_splits option.splits sum.splits)
  have "unat selfId < 2 ^ LENGTH(64)" by (rule unsigned_less)
  then have "options_ok ?mo"
    by (simp add: options_ok_def peers_ok_def default_AppConfig_def u64_ok_def)
  with args show "options_ok mo" by (rule parse_args_ok)
  show "ac_self (mo_cfg mo) \<noteq> None" using found by (auto simp: ac_self_def list_ex_iff find_None_iff)
qed

lemma parse_peer_text:
  fixes rp cp :: nat
  assumes "58 \<notin> set host" "rp < 2 ^ 16" "cp < 2 ^ 16"
  shows "parse_peer (host @ 58 # dec rp @ 58 # dec cp) k =
    Inr \<lparr>pi_id = k, pi_host = from_ascii host, pi_raftPort = rp, pi_clientPort = cp\<rparr>"
proof -
  have tw: "takeWhile (\<lambda>b. b \<noteq> 58) (xs @ 58 # ys) = xs" if "58 \<notin> set xs" for xs ys :: "byte list"
    using that by (induction xs) auto
  have "58 \<notin> set (dec n)" for n using dec_digits(2) [of n] isdigit_not [of 58] by auto
  moreover have "stoul_cast 16 (dec n) = Inr n" if "n < 2 ^ 16" for n
    using stoull_dec [of "[]" "of_nat n"] that by (simp add: stoul_cast_def unat_of_nat)
  ultimately show ?thesis using assms by (simp add: parse_peer_def Let_def tw)
qed

end
