(* ===== verification/Node_Properties.thy ===== *)
theory Node_Properties
  imports Shard_Manager Node_Main
begin

text \<open>
  Properties of a deployment: the Raft groups of a shard manager, and the configuration that the command line gives
  a node.
\<close>

section \<open>Sharding\<close>


definition blank_disk :: disk where
  "blank_disk name = (\<lparr>log_bin = [], hardstate_bin = None, confstate_bin = None\<rparr>, \<lparr>snapshot_bin = None, snapshot_tmp = None\<rparr>)"

definition demo_shard_config :: AppConfig where
  "demo_shard_config =
     default_AppConfig\<lparr>ac_selfId := 1,
       ac_peers := [\<lparr>pi_id = 1, pi_host = ''10.0.0.1'', pi_raftPort = 9999, pi_clientPort = 8000\<rparr>,
                    \<lparr>pi_id = 2, pi_host = ''10.0.0.2'', pi_raftPort = 9999, pi_clientPort = 8000\<rparr>]\<rparr>"

definition demo_shard_events :: "shard_event list" where
  "demo_shard_events =
     [Submit (ascii ''AAPL'') [1], Submit (ascii ''GOOG'') [2], Start_all, Loop_turn (ascii ''AAPL''), Loop_turn (ascii ''GOOG''),
      Loop_turn (ascii ''AAPL'')]"

lemmas shard_defs = sm_new_def sm_submit_def sm_createShard_def sm_newShard_def sm_raftConfig_def sm_start_def
  sm_shardLoop_def sh_loop_def sh_submit_def sm_processReady_def rn_hasReady_def sm_run_def demo_shard_config_def
  default_AppConfig_def blank_disk_def

lemmas node_defs = wal_open_def wal_replay_def replay_loop.simps rn_new_def wal_view_def
  wal_initialState_def wal_lastIndex_def wal_firstIndex_def wal_loadHardState_def wal_loadConfState_def
  rn_randomize_def uniform_def rl_init_def u64_add_def u64_sub_def wal_snapshot_def lu_init_def
  ro_new_def ro_setOption_def Let_def rn_tick_def rn_tickElection_def rl_lastIndex_def lu_maybeFirstIndex_def
  lu_maybeLastIndex_def rl_firstIndex_def rn_poll_def rl_unstableEntries_def rl_nextCommittedEntries_def makeHardState_def
  hs_nonzero_def rn_advance_def

lemma demo_shard_run:
  "\<exists>m. sm_run blank_disk (\<lambda>_ _. 3) demo_shard_events (sm_new demo_shard_config 10 1) = Some m \<and>
     sm_symbols m = [ascii ''AAPL'', ascii ''GOOG'']"
  unfolding demo_shard_events_def
  by (simp add: shard_defs node_defs sm_symbols_def ascii_def del: One_nat_def)


text \<open>Well-formed shards: after any run the shards are sorted by symbol, one per symbol, and each has a well-formed
  book that carries its own symbol; no committed command can break it.\<close>

theorem shards_well_formed:
  assumes "sm_run disk entropy evs (sm_new c e h) = Some m"
  shows "distinct (sm_symbols m) \<and> sorted (sm_symbols m) \<and>
    list_all (\<lambda>(name, sh). mob_ok (lsm_book (sh_fsm sh)) \<and> lob_symbol map_book_ops (sh_fsm sh) = name) (sm_shards m)"
proof -
  have ok: "sm_ok m" using sm_run_ok [OF assms sm_ok_new] .
  then have sorted: "sorted_wrt (<) (sm_symbols m)" by (simp add: sm_ok_def std_sorted_def sm_symbols_def)
  from ok show ?thesis
    using strict_sorted_iff [of "sm_symbols m"] sorted
    by (auto simp: sm_ok_def list_all_iff shard_ok_def lob_symbol_def map_book.symbol_refines)
qed

theorem shards_well_formed_witness:
  "\<exists>m. sm_run blank_disk (\<lambda>_ _. 3) demo_shard_events (sm_new demo_shard_config 10 1) = Some m \<and>
     sm_symbols m = [ascii ''AAPL'', ascii ''GOOG''] \<and>
     list_all (\<lambda>(name, sh). lob_symbol map_book_ops (sh_fsm sh) = name) (sm_shards m)"
proof -
  obtain m where m: "sm_run blank_disk (\<lambda>_ _. 3) demo_shard_events (sm_new demo_shard_config 10 1) = Some m"
    "sm_symbols m = [ascii ''AAPL'', ascii ''GOOG'']" using demo_shard_run by blast
  with shards_well_formed [OF m(1)] show ?thesis by (auto simp: list_all_iff)
qed

text \<open>C40. A shard that is created after \<open>start\<close> never serves: \<open>submit\<close> creates the shard of an unknown symbol but
  nobody starts its thread, so unless \<open>start\<close> is called again it stays a follower and every later submission for
  the symbol is refused with an empty answer.\<close>

theorem late_shard_never_serves:
  assumes "sm_run disk entropy evs0 (sm_new c e h) = Some m0" "sm_getFSM m0 name = None"
    and "sm_submit disk entropy m0 name cmd = Some (r, m1)"
    and "sm_run disk entropy evs m1 = Some m2" "Start_all \<notin> set evs"
  shows "r = Inl [] \<and> (\<exists>m3. sm_submit disk entropy m2 name cmd2 = Some (Inl [], m3))"
proof -
  have ok0: "sm_ok m0" using sm_run_ok [OF assms(1) sm_ok_new] .
  from ok0 assms(3) obtain sh sh' where sh: "map_of (sm_shards m0) name = Some sh \<or>
      map_of (sm_shards m0) name = None \<and> sh = sm_newShard disk entropy m0 name"
    "sh_submit sh cmd = Some (r, sh')" "sm_ok m1" "map_of (sm_shards m1) = (map_of (sm_shards m0))(name \<mapsto> sh')"
    by (rule submit_cases)
  then have "dormant sh" using assms(2) newShard_dormant by (auto simp: sm_getFSM_def)
  with sh(2) have r: "r = Inl []" "sh' = sh" by (simp_all add: dormant_submit)
  with sh(4) have "map_of (sm_shards m1) name = Some sh" by simp
  from run_dormant [OF sh(3) this \<open>dormant sh\<close> assms(4,5)] obtain sh2 where
    "map_of (sm_shards m2) name = Some sh2" "dormant sh2" by blast
  then show ?thesis using r by (simp add: sm_submit_def dormant_submit)
qed

theorem late_shard_never_serves_witness:
  "\<exists>m0 m1 m3. sm_run blank_disk (\<lambda>_ _. 3) demo_shard_events (sm_new demo_shard_config 10 1) = Some m0 \<and>
     sm_submit blank_disk (\<lambda>_ _. 3) m0 (ascii ''MSFT'') [1] = Some (Inl [], m1) \<and>
     sm_run blank_disk (\<lambda>_ _. 3) [Loop_turn (ascii ''MSFT'')] m1 = Some m1 \<and>
     sm_submit blank_disk (\<lambda>_ _. 3) m1 (ascii ''MSFT'') [2] = Some (Inl [], m3)"
proof -
  obtain m0 where m0: "sm_run blank_disk (\<lambda>_ _. 3) demo_shard_events (sm_new demo_shard_config 10 1) = Some m0"
    "sm_symbols m0 = [ascii ''AAPL'', ascii ''GOOG'']" using demo_shard_run by blast
  have "ascii ''MSFT'' \<notin> set (sm_symbols m0)" unfolding m0(2) by (simp add: ascii_def)
  then have new: "map_of (sm_shards m0) (ascii ''MSFT'') = None" by (simp add: sm_symbols_def map_of_eq_None_iff)
  obtain m1 where m1: "sm_submit blank_disk (\<lambda>_ _. 3) m0 (ascii ''MSFT'') [1] = Some (Inl [], m1)"
    "map_of (sm_shards m1) (ascii ''MSFT'') = Some (sm_newShard blank_disk (\<lambda>_ _. 3) m0 (ascii ''MSFT''))"
    using submit_unknown [OF sm_run_ok [OF m0(1) sm_ok_new] new] by blast
  then have turn: "sm_run blank_disk (\<lambda>_ _. 3) [Loop_turn (ascii ''MSFT'')] m1 = Some m1"
    by (simp add: sm_run_def sm_shardLoop_def sm_newShard_def Let_def)
  from late_shard_never_serves [OF m0(1) _ m1(1) turn, of "[2]"] new show ?thesis
    using m0(1) m1(1) turn by (simp add: sm_getFSM_def)
qed

section \<open>The command line\<close>

text \<open>C33. What the command line can produce: whenever parsing succeeds the peers are numbered from one without gaps, the
  ports fit 16 bits, the host names hold no colon, and this node is among the peers, so the constructor of the
  server never dereferences a null \<open>self()\<close>.\<close>

theorem command_line_config:
  assumes "main_options argv = Inr mo"
  shows "map pi_id (ac_peers (mo_cfg mo)) = [1..<length (ac_peers (mo_cfg mo)) + 1] \<and>
    list_all (\<lambda>p. pi_raftPort p < 2 ^ 16 \<and> pi_clientPort p < 2 ^ 16 \<and> CHR '':'' \<notin> set (pi_host p)) (ac_peers (mo_cfg mo)) \<and>
    mo_orderPort mo < 2 ^ 16 \<and> ac_electionTick (mo_cfg mo) < 2 ^ 32 \<and>
    sv_new (mo_cfg mo) (mo_readMode mo) hasReader f files snaps entropy \<noteq> None"
  using main_options_ok [OF assms]
  by (auto simp: options_ok_def peers_ok_def list_all_iff sv_new_def Let_def)

definition demo_argv :: "byte list list" where
  "demo_argv = [ascii ''node'', ascii ''2'', ascii ''./data'', ascii ''127.0.0.1:9999:8000'', ascii ''--mode'', ascii ''skiplob'',
     ascii ''localhost:70000:8001'', ascii ''--electionTick'', ascii ''20'']"

theorem command_line_config_witness:
  "\<exists>mo. main_options demo_argv = Inr mo \<and> map pi_id (ac_peers (mo_cfg mo)) = [1, 2] \<and>
     map pi_raftPort (ac_peers (mo_cfg mo)) = [9999, 4464] \<and> main_mode mo = Skip_LOB_mode \<and>
     sv_new (mo_cfg mo) (mo_readMode mo) True () (fst (blank_disk [])) (snd (blank_disk [])) (\<lambda>_. 0) \<noteq> None"
proof -
  obtain mo where mo: "main_options demo_argv = Inr mo" "map pi_raftPort (ac_peers (mo_cfg mo)) = [9999, 4464]"
    "mo_mode mo = ascii ''skiplob''"
    by (simp add: main_options_def demo_argv_def ascii_def stoull_def scan_int_def isspace_def isdigit_def digits_value_def
        parse_peer_def stoul_cast_def default_AppConfig_def Let_def)
  from arg_cong [OF mo(2), of length] have "length (ac_peers (mo_cfg mo)) = 2" by simp
  with command_line_config [OF mo(1), of True "()" "fst (blank_disk [])" "snd (blank_disk [])" "\<lambda>_. 0"] mo show ?thesis
    by (intro exI [of _ mo]) (simp add: main_mode_def upt_rec)
qed

end
