(* ===== verification/Node_Runtime.thy ===== *)
theory Node_Runtime
  imports Server_Properties KV_Store Order_Client_Server Raft_Transport Node_Main
begin

text \<open>
  A running node: how \<^verbatim>\<open>app/main.cpp\<close> and \<open>Server::start\<close> connect the parts. The command codec is a table of
  functions (\<^verbatim>\<open>app/protocol/CommandCodec.h\<close>), as the state machine is. A call that waits is split into the part
  before the wait, which gives a ticket, and the answer under that ticket; the callbacks that \<open>start\<close> installs in
  the client ports join the two parts, with whatever the other threads do in between.

  \<open>nd_run\<close> is an arbitrary interleaving of steps of the Raft thread, arriving messages, client calls and the signal
  that stops the node. The lemmas follow the book through it: on every engine it is the abstract book after the
  commands applied so far, and every answer is one the abstract book gave.
\<close>

section \<open>Codecs and state machines\<close>

record 'c CommandCodec =
  cc_encode :: "'c \<Rightarrow> ClientRequest \<Rightarrow> (byte list \<times> 'c) option"
  cc_decodeResult :: "byte list \<Rightarrow> ClientResponse"

definition lob_codec :: "LOBCodec CommandCodec" where
  "lob_codec = \<lparr>cc_encode = lobc_encode, cc_decodeResult = lobc_decodeResult\<rparr>"

definition kv_codec :: "'c CommandCodec" where
  "kv_codec = \<lparr>cc_encode = (\<lambda>c req. Some (kvc_encode req, c)), cc_decodeResult = kvc_decodeResult\<rparr>"

text \<open>The key-value machine has no book. \<open>iter\<close> gives the order in which an iteration visits the hash map.\<close>

definition kv_machine ::
  "((byte list \<times> byte list) list \<Rightarrow> (byte list \<times> byte list) list) \<Rightarrow> KVStateMachine StateMachine" where
  "kv_machine iter =
     \<lparr>fsm_apply = kv_apply, fsm_snapshot = (\<lambda>st. Some (kv_snapshot st (iter (kv_map st)))),
      fsm_restore = (\<lambda>st data. Some (kv_restore st data)),
      br_bids = (\<lambda>_ _. None), br_asks = (\<lambda>_ _. None)\<rparr>"

section \<open>The node\<close>

record ('f, 'c) RunningNode =
  nd_config :: AppConfig
  nd_server :: "'f Server"
  nd_codec :: 'c
  nd_transport :: RaftTransport
  nd_hasOrderServer :: bool
  nd_running :: bool
  nd_listening :: bool

text \<open>\<open>start\<close>: load the snapshot, give the transport its peers, open the ports, start the thread. It is one step: what a
  client sees of the ports between their opening and the flag is left out.\<close>

definition nd_start :: "'f StateMachine \<Rightarrow> ('f, 'c) RunningNode \<Rightarrow> ('f, 'c) RunningNode option" where
  "nd_start F nd =
     do {
       sv \<leftarrow> sv_start F (nd_server nd);
       Some (nd\<lparr>nd_server := sv, nd_transport := rt_setPeers (nd_transport nd) (ac_peerAddrMap (nd_config nd)),
                nd_listening := True, nd_running := True\<rparr>)
     }"

definition nd_boot ::
  "'f StateMachine \<Rightarrow> AppConfig \<Rightarrow> ReadMode \<Rightarrow> bool \<Rightarrow> bool \<Rightarrow> 'f \<Rightarrow> 'c \<Rightarrow> Files \<Rightarrow> SnapFiles \<Rightarrow> (nat \<Rightarrow> nat) \<Rightarrow>
   ('f, 'c) RunningNode option" where
  "nd_boot F cfg mode hasReader hasOrderServer f codec files snaps entropy =
     do {
       sv \<leftarrow> sv_new cfg mode hasReader f files snaps entropy;
       nd_start F \<lparr>nd_config = cfg, nd_server = sv, nd_codec = codec, nd_transport = \<lparr>rt_peers = [], rt_conns = []\<rparr>,
                   nd_hasOrderServer = hasOrderServer, nd_running = False, nd_listening = False\<rparr>
     }"

text \<open>\<open>stop\<close>: first the flag, then the join of the Raft thread, which waits (\<open>None\<close>) until the thread has left its loop,
  then the ports. An accept thread leaves its call of \<open>accept\<close> only with the next connection; \<open>nd_join\<close> is the state once
  the accept threads have ended.\<close>

definition nd_stop :: "('f, 'c) RunningNode \<Rightarrow> ('f, 'c) RunningNode" where
  "nd_stop nd = nd\<lparr>nd_running := False\<rparr>"

definition nd_join :: "('f, 'c) RunningNode \<Rightarrow> ('f, 'c) RunningNode option" where
  "nd_join nd =
     (if nd_running nd \<or> sv_phase (nd_server nd) \<noteq> Ticking then None
      else Some (nd\<lparr>nd_transport := rt_stop (nd_transport nd), nd_listening := False\<rparr>))"

text \<open>The thread tests \<open>running_\<close> at the top of a turn, and in \<open>handleReadStates\<close>, which then answers nothing.\<close>

definition nd_turn :: "'f StateMachine \<Rightarrow> ('f, 'c) RunningNode \<Rightarrow> (Message list \<times> ('f, 'c) RunningNode) option" where
  "nd_turn F nd =
     (case (nd_running nd, sv_phase (nd_server nd)) of
        (False, Ticking) \<Rightarrow> Some ([], nd)
      | (False, Reading rd) \<Rightarrow> Some ([], nd\<lparr>nd_server := (nd_server nd)\<lparr>sv_phase := Advancing\<rparr>\<rparr>)
      | _ \<Rightarrow> do {
          (ms, sv) \<leftarrow> sv_thread_step F (nd_server nd);
          Some (ms, nd\<lparr>nd_server := sv\<rparr>)
        })"

definition nd_recv :: "('f, 'c) RunningNode \<Rightarrow> Message \<Rightarrow> ('f, 'c) RunningNode" where
  "nd_recv nd m = nd\<lparr>nd_server := sv_onRaftMessage (nd_server nd) m\<rparr>"

section \<open>Client calls, up to the wait and after it\<close>

text \<open>The codec is asked only on the leader.\<close>

definition nd_textRequest ::
  "'c CommandCodec \<Rightarrow> ('f, 'c) RunningNode \<Rightarrow> ClientRequest \<Rightarrow> ((ClientResponse + nat) \<times> ('f, 'c) RunningNode) option" where
  "nd_textRequest C nd req =
     do {
       (data, c) \<leftarrow> (if sv_isLeader (nd_server nd) then cc_encode C (nd_codec nd) req else Some ([], nd_codec nd));
       (r, sv) \<leftarrow> sv_onClientRequest (nd_server nd) data;
       Some (r, nd\<lparr>nd_server := sv, nd_codec := c\<rparr>)
     }"

definition nd_textAnswer :: "'c CommandCodec \<Rightarrow> nat \<Rightarrow> ('f, 'c) RunningNode \<Rightarrow> ClientResponse option" where
  "nd_textAnswer C tk nd =
     (case map_of (sv_results (nd_server nd)) tk of
        Some result \<Rightarrow> Some (cc_decodeResult C result)
      | None \<Rightarrow> if nd_running nd then None
               else Some (default_ClientResponse\<lparr>cr_ok := False, cr_err := ''shutting down''\<rparr>))"

definition nd_orderSubmit :: "('f, 'c) RunningNode \<Rightarrow> byte list \<Rightarrow> ((byte list + nat) \<times> ('f, 'c) RunningNode) option" where
  "nd_orderSubmit nd cmd =
     do {
       (tk, sv) \<leftarrow> sv_submitRaw (nd_server nd) cmd;
       Some (case tk of None \<Rightarrow> Inl [] | Some k \<Rightarrow> Inr k, nd\<lparr>nd_server := sv\<rparr>)
     }"

definition nd_orderAnswer :: "nat \<Rightarrow> ('f, 'c) RunningNode \<Rightarrow> byte list option" where
  "nd_orderAnswer tk nd =
     (case map_of (sv_results (nd_server nd)) tk of
        Some result \<Rightarrow> Some result
      | None \<Rightarrow> if nd_running nd then None else Some [])"

definition nd_read ::
  "'f StateMachine \<Rightarrow> bool \<Rightarrow> ('f, 'c) RunningNode \<Rightarrow> nat \<Rightarrow> ((PriceLevel list + nat) \<times> ('f, 'c) RunningNode) option" where
  "nd_read F isBids nd maxLevels =
     do {
       (r, sv) \<leftarrow> (if isBids then sv_readBids F else sv_readAsks F) (nd_server nd) maxLevels;
       Some (r, nd\<lparr>nd_server := sv\<rparr>)
     }"

definition nd_readAnswer :: "nat \<Rightarrow> ('f, 'c) RunningNode \<Rightarrow> PriceLevel list option" where
  "nd_readAnswer tk nd =
     (case map_of (sv_readResults (nd_server nd)) tk of
        Some result \<Rightarrow> Some result
      | None \<Rightarrow> if nd_running nd then None else Some [])"

section \<open>Runs and what they apply\<close>

datatype node_event =
  Raft_turn | Raft_message Message | Text_request ClientRequest | Order_submit "byte list" | Order_read bool nat
| Signal | Join

text \<open>What arrives at a closed port has no effect.\<close>

fun at_port :: "node_event \<Rightarrow> bool" where
  "at_port Raft_turn = False"
| "at_port Signal = False"
| "at_port Join = False"
| "at_port _ = True"

fun nd_do :: "'c CommandCodec \<Rightarrow> 'f StateMachine \<Rightarrow> node_event \<Rightarrow> ('f, 'c) RunningNode \<Rightarrow> ('f, 'c) RunningNode option" where
  "nd_do C F Raft_turn nd = map_option snd (nd_turn F nd)"
| "nd_do C F (Raft_message m) nd = Some (nd_recv nd m)"
| "nd_do C F (Text_request req) nd = map_option snd (nd_textRequest C nd req)"
| "nd_do C F (Order_submit cmd) nd = (if nd_hasOrderServer nd then map_option snd (nd_orderSubmit nd cmd) else Some nd)"
| "nd_do C F (Order_read isBids n) nd = (if nd_hasOrderServer nd then map_option snd (nd_read F isBids nd n) else Some nd)"
| "nd_do C F Signal nd = Some (nd_stop nd)"
| "nd_do C F Join nd = Some (case nd_join nd of None \<Rightarrow> nd | Some nd' \<Rightarrow> nd')"

definition nd_step :: "'c CommandCodec \<Rightarrow> 'f StateMachine \<Rightarrow> node_event \<Rightarrow> ('f, 'c) RunningNode \<Rightarrow> ('f, 'c) RunningNode option" where
  "nd_step C F ev nd = (if at_port ev \<and> \<not> nd_listening nd then Some nd else nd_do C F ev nd)"

text \<open>The commands an event applies.\<close>

definition applied_by :: "node_event \<Rightarrow> ('f, 'c) RunningNode \<Rightarrow> byte list list" where
  "applied_by ev nd =
     (case (ev, sv_phase (nd_server nd)) of
        (Raft_turn, Applying rd) \<Rightarrow> map ent_data (rd_committedEntries rd)
      | _ \<Rightarrow> [])"

fun nd_run ::
  "'c CommandCodec \<Rightarrow> 'f StateMachine \<Rightarrow> node_event list \<Rightarrow> ('f, 'c) RunningNode \<Rightarrow> (byte list list \<times> ('f, 'c) RunningNode) option" where
  "nd_run C F [] nd = Some ([], nd)"
| "nd_run C F (ev # evs) nd =
     do {
       nd' \<leftarrow> nd_step C F ev nd;
       (ds, nd'') \<leftarrow> nd_run C F evs nd';
       Some (applied_by ev nd @ ds, nd'')
     }"

section \<open>The callbacks of the client ports\<close>

text \<open>
  A callback blocks its connection while the rest of the node goes on. Its state is the node, the commands applied so
  far, and the events that fall into each of the coming waits. \<open>None\<close>: the call still waits when they are used up.
\<close>

type_synonym ('f, 'c) world = "('f, 'c) RunningNode \<times> byte list list \<times> node_event list list"

definition nd_await ::
  "'c CommandCodec \<Rightarrow> 'f StateMachine \<Rightarrow> (('f, 'c) RunningNode \<Rightarrow> 'a option) \<Rightarrow> ('f, 'c) world \<Rightarrow> ('a \<times> ('f, 'c) world) option" where
  "nd_await C F answer w =
     (case w of
        (nd, hist, []) \<Rightarrow> None
      | (nd, hist, evs # waits) \<Rightarrow> do {
          (ds, nd) \<leftarrow> nd_run C F evs nd;
          a \<leftarrow> answer nd;
          Some (a, (nd, hist @ ds, waits))
        })"

text \<open>The part before the wait, then the wait if there is one.\<close>

definition nd_call ::
  "'c CommandCodec \<Rightarrow> 'f StateMachine \<Rightarrow> (('f, 'c) RunningNode \<Rightarrow> (('a + nat) \<times> ('f, 'c) RunningNode) option) \<Rightarrow>
   (nat \<Rightarrow> ('f, 'c) RunningNode \<Rightarrow> 'a option) \<Rightarrow> ('f, 'c) world \<Rightarrow> ('a \<times> ('f, 'c) world) option" where
  "nd_call C F begin_call answer w =
     do {
       (r, nd) \<leftarrow> begin_call (fst w);
       (case r of
          Inl a \<Rightarrow> Some (a, (nd, snd w))
        | Inr tk \<Rightarrow> nd_await C F (answer tk) (nd, snd w))
     }"

definition nd_onClientRequest :: "'c CommandCodec \<Rightarrow> 'f StateMachine \<Rightarrow> ('f, 'c) world handler" where
  "nd_onClientRequest C F w req = nd_call C F (\<lambda>nd. nd_textRequest C nd req) (nd_textAnswer C) w"

definition nd_submitRaw ::
  "'c CommandCodec \<Rightarrow> 'f StateMachine \<Rightarrow> ('f, 'c) world \<Rightarrow> byte list \<Rightarrow> (byte list \<times> ('f, 'c) world) option" where
  "nd_submitRaw C F w cmd = nd_call C F (\<lambda>nd. nd_orderSubmit nd cmd) nd_orderAnswer w"

definition nd_readBook ::
  "'c CommandCodec \<Rightarrow> 'f StateMachine \<Rightarrow> ('f, 'c) world \<Rightarrow> nat \<Rightarrow>
   ((PriceLevel list \<times> PriceLevel list) \<times> ('f, 'c) world) option" where
  "nd_readBook C F w maxLevels =
     do {
       (b, w) \<leftarrow> nd_call C F (\<lambda>nd. nd_read F True nd maxLevels) nd_readAnswer w;
       (a, w) \<leftarrow> nd_call C F (\<lambda>nd. nd_read F False nd maxLevels) nd_readAnswer w;
       Some ((b, a), w)
     }"

definition nd_orderServer :: "'c CommandCodec \<Rightarrow> 'f StateMachine \<Rightarrow> ('f, 'c) world OrderClientServer" where
  "nd_orderServer C F =
     oc_new\<lparr>oc_submitCb := Some (nd_submitRaw C F), oc_readCb := Some (nd_readBook C F),
            oc_isLeaderCb := Some (\<lambda>w. sv_isLeader (nd_server (fst w)))\<rparr>"

text \<open>
  The accept loops serve one connection after the other. A connection is what the client sends on it: the chunks of
  the text protocol, or the bytes and the writability of the order protocol; \<open>None\<close> is an \<open>accept\<close> that failed.
  The loops give the bytes written on each connection.
\<close>

fun acceptLoop ::
  "('s \<Rightarrow> bool) \<Rightarrow> 's handler option \<Rightarrow> byte list list option list \<Rightarrow> 's \<Rightarrow> (byte list list \<times> 's) option" where
  "acceptLoop running h [] s = Some ([], s)"
| "acceptLoop running h (client # clients) s =
     (if \<not> running s then Some ([], s)
      else case client of
        None \<Rightarrow> acceptLoop running h clients s
      | Some chunks \<Rightarrow> do {
          (out, _, s) \<leftarrow> handleClient h chunks [] s;
          (outs, s) \<leftarrow> acceptLoop running h clients s;
          Some (out # outs, s)
        })"

fun oc_acceptLoop ::
  "('s \<Rightarrow> bool) \<Rightarrow> 's OrderClientServer \<Rightarrow> (byte list \<times> (nat \<Rightarrow> bool)) option list \<Rightarrow> 's \<Rightarrow> (byte list list \<times> 's) option" where
  "oc_acceptLoop running oc [] s = Some ([], s)"
| "oc_acceptLoop running oc (client # clients) s =
     (if \<not> running s then Some ([], s)
      else case client of
        None \<Rightarrow> oc_acceptLoop running oc clients s
      | Some (stream, writable) \<Rightarrow> do {
          (out, s) \<leftarrow> oc_handleClient oc writable 0 stream s;
          (outs, s) \<leftarrow> oc_acceptLoop running oc clients s;
          Some (out # outs, s)
        })"

section \<open>What \<open>main\<close> builds\<close>

datatype started =
  KV_node "(KVStateMachine, unit) RunningNode"
| Map_node "(MapOrderBook LOBStateMachine, LOBCodec) RunningNode"
| Skip_node "(SkipListOrderBook LOBStateMachine, LOBCodec) RunningNode"

text \<open>\<open>device\<close> gives the coin flips of the skip lists. The key-value node has no book reader and no order port.\<close>

definition main_start ::
  "((byte list \<times> byte list) list \<Rightarrow> (byte list \<times> byte list) list) \<Rightarrow> (nat \<Rightarrow> nat \<Rightarrow> bool) \<Rightarrow> MainOptions \<Rightarrow> Files \<Rightarrow> SnapFiles \<Rightarrow> (nat \<Rightarrow> nat) \<Rightarrow> started option" where
  "main_start iter device mo files snaps entropy =
     (case main_mode mo of
        KV_mode \<Rightarrow>
          map_option KV_node
            (nd_boot (kv_machine iter) (mo_cfg mo) (mo_readMode mo) False False kv_init () files snaps entropy)
      | Map_LOB_mode \<Rightarrow>
          map_option Map_node
            (nd_boot (lob_machine map_book_ops) (mo_cfg mo) (mo_readMode mo) True (main_hasOrderServer mo)
               (lsm_init (mob_empty (ascii ''LOB''))) lobc_new files snaps entropy)
      | Skip_LOB_mode \<Rightarrow>
          map_option Skip_node
            (nd_boot (lob_machine skip_book_ops) (mo_cfg mo) (mo_readMode mo) True (main_hasOrderServer mo)
               (lsm_init (skb_new (ascii ''LOB'') device)) lobc_new files snaps entropy))"

section \<open>The ready batches carry no snapshot\<close>

fun phase_ready :: "Phase \<Rightarrow> Ready option" where
  "phase_ready (AppendingLog rd) = Some rd"
| "phase_ready (SavingHardState rd) = Some rd"
| "phase_ready (InstallingSnapshot rd) = Some rd"
| "phase_ready (Sending rd) = Some rd"
| "phase_ready (Applying rd) = Some rd"
| "phase_ready (Reading rd) = Some rd"
| "phase_ready _ = None"

definition no_snapshot :: "'f Server \<Rightarrow> bool" where
  "no_snapshot sv \<longleftrightarrow> (\<forall>rd. phase_ready (sv_phase sv) = Some rd \<longrightarrow> rd_snapshot rd = None)"

text \<open>What a client call or a message leaves alone.\<close>

definition same_fsm :: "'f Server \<Rightarrow> 'f Server \<Rightarrow> bool" where
  "same_fsm sv sv' \<longleftrightarrow> sv_fsm sv' = sv_fsm sv \<and> sv_phase sv' = sv_phase sv \<and> sv_results sv' = sv_results sv"

lemma same_fsm_refl [simp]: "same_fsm sv sv"
  by (simp add: same_fsm_def)

lemma same_fsm_trans: "same_fsm a b \<Longrightarrow> same_fsm b c \<Longrightarrow> same_fsm a c"
  by (simp add: same_fsm_def)

lemma submitRaw_same: "sv_submitRaw sv cmd = Some (r, sv') \<Longrightarrow> same_fsm sv sv'"
  by (auto simp: sv_submitRaw_def same_fsm_def bind_eq_Some_conv Let_def split: if_splits)

lemma onClientRequest_same: "sv_onClientRequest sv cmd = Some (r, sv') \<Longrightarrow> same_fsm sv sv'"
  by (auto simp: sv_onClientRequest_def bind_eq_Some_conv Let_def split: if_splits dest: submitRaw_same)

lemma read_same: "sv_read F b sv n = Some (r, sv') \<Longrightarrow> same_fsm sv sv'"
  by (auto simp: sv_read_def bind_eq_Some_conv Let_def case_prod_unfold same_fsm_def split: if_splits)

lemma textRequest_same: "nd_textRequest C nd req = Some (r, nd') \<Longrightarrow> same_fsm (nd_server nd) (nd_server nd')"
  by (auto simp: nd_textRequest_def bind_eq_Some_conv dest: onClientRequest_same)

lemma orderSubmit_same: "nd_orderSubmit nd cmd = Some (r, nd') \<Longrightarrow> same_fsm (nd_server nd) (nd_server nd')"
  by (auto simp: nd_orderSubmit_def bind_eq_Some_conv dest: submitRaw_same)

lemma nd_read_same: "nd_read F b nd n = Some (r, nd') \<Longrightarrow> same_fsm (nd_server nd) (nd_server nd')"
  by (auto simp: nd_read_def sv_readBids_def sv_readAsks_def bind_eq_Some_conv split: if_splits dest: read_same)

lemmas call_same = textRequest_same orderSubmit_same nd_read_same

lemma event_same: "ev \<noteq> Raft_turn \<Longrightarrow> nd_step C F ev nd = Some nd' \<Longrightarrow> same_fsm (nd_server nd) (nd_server nd')"
  by (cases ev)
    (auto simp: nd_step_def nd_recv_def nd_stop_def nd_join_def sv_onRaftMessage_def same_fsm_def
      split: if_splits option.splits dest!: call_same)

lemma handleReadStates_same: "sv_handleReadStates F rs sv = Some sv' \<Longrightarrow> same_fsm sv sv'"
  unfolding sv_handleReadStates_def
proof (induction rs arbitrary: sv)
  case (Cons r rs)
  then obtain v where v: "sv_handleReadState F r sv = Some v" "for_each (sv_handleReadState F) rs v = Some sv'"
    by (auto simp: bind_eq_Some_conv)
  from v(1) have "same_fsm sv v"
    by (auto simp: sv_handleReadState_def same_fsm_def bind_eq_Some_conv split: option.splits if_splits)
  with Cons.IH [OF v(2)] show ?case by (rule same_fsm_trans [rotated])
qed simp

lemma applyEntries_phase: "sv_applyCommittedEntries F es sv = Some sv' \<Longrightarrow> sv_phase sv' = sv_phase sv"
  unfolding sv_applyCommittedEntries_def
proof (induction es arbitrary: sv)
  case (Cons e es)
  then obtain v where "sv_applyEntry F e sv = Some v" "for_each (sv_applyEntry F) es v = Some sv'"
    by (auto simp: bind_eq_Some_conv)
  moreover from this(1) have "sv_phase v = sv_phase sv"
    by (auto simp: sv_applyEntry_def bind_eq_Some_conv Let_def split: option.splits)
  ultimately show ?case using Cons.IH by simp
qed simp

text \<open>A step of the thread changes the state machine only in the phase that applies entries.\<close>

lemma thread_step_cases:
  assumes "sv_thread_step F sv = Some (ms, sv')" "no_snapshot sv"
  shows "no_snapshot sv' \<and>
    (case sv_phase sv of
       Applying rd \<Rightarrow> \<exists>v. sv_applyCommittedEntries F (rd_committedEntries rd) sv = Some v \<and> sv_fsm sv' = sv_fsm v \<and>
         sv_results sv' = sv_results v
     | _ \<Rightarrow> sv_fsm sv' = sv_fsm sv \<and> sv_results sv' = sv_results sv)"
proof -
  have poll: "rd_snapshot (fst (rn_poll S n)) = None" for S n by (simp add: rn_poll_def Let_def)
  show ?thesis
    using assms poll
    by (cases "sv_phase sv")
      (auto simp: sv_thread_step_def no_snapshot_def bind_eq_Some_conv Let_def case_prod_unfold same_fsm_def
        dest!: handleReadStates_same split: option.splits)
qed

lemma turn_cases:
  assumes "nd_turn F nd = Some (ms, nd')" "no_snapshot (nd_server nd)"
  shows "no_snapshot (nd_server nd') \<and>
    (case sv_phase (nd_server nd) of
       Applying rd \<Rightarrow> \<exists>v. sv_applyCommittedEntries F (rd_committedEntries rd) (nd_server nd) = Some v \<and>
         sv_fsm (nd_server nd') = sv_fsm v \<and> sv_results (nd_server nd') = sv_results v
     | _ \<Rightarrow> sv_fsm (nd_server nd') = sv_fsm (nd_server nd) \<and> sv_results (nd_server nd') = sv_results (nd_server nd))"
proof (cases "\<exists>sv. sv_thread_step F (nd_server nd) = Some (ms, sv) \<and> nd' = nd\<lparr>nd_server := sv\<rparr>")
  case True
  with thread_step_cases [OF _ assms(2)] show ?thesis by fastforce
next
  case False
  with assms show ?thesis
    by (auto simp: nd_turn_def no_snapshot_def bind_eq_Some_conv split: bool.splits Phase.splits)
qed

section \<open>The book follows the applied commands\<close>

lemma spec_run_append:
  "spec_run s (ds @ ds') = (fst (spec_run s ds) @ fst (spec_run (snd (spec_run s ds)) ds'),
     snd (spec_run (snd (spec_run s ds)) ds'))"
  by (induction ds arbitrary: s) (simp_all add: Let_def case_prod_unfold)

definition follows ::
  "('b \<Rightarrow> abook) \<Rightarrow> ('b \<Rightarrow> bool) \<Rightarrow> abook \<times> u64 \<Rightarrow> byte list list \<Rightarrow> ('b LOBStateMachine, 'c) RunningNode \<Rightarrow> bool" where
  "follows absb ok s0 hist nd \<longleftrightarrow>
     (let sv = nd_server nd
      in no_snapshot sv \<and> ok (lsm_book (sv_fsm sv)) \<and> lsm_abs absb (sv_fsm sv) = snd (spec_run s0 hist) \<and>
         snd ` set (sv_results sv) \<subseteq> set (fst (spec_run s0 hist)))"

lemma follows_same: "same_fsm (nd_server nd) (nd_server nd') \<Longrightarrow> follows absb ok s0 hist nd \<Longrightarrow> follows absb ok s0 hist nd'"
  by (simp add: follows_def same_fsm_def no_snapshot_def Let_def)

definition world_follows ::
  "('b \<Rightarrow> abook) \<Rightarrow> ('b \<Rightarrow> bool) \<Rightarrow> abook \<times> u64 \<Rightarrow> ('b LOBStateMachine, 'c) world \<Rightarrow> bool" where
  "world_follows absb ok s0 w \<longleftrightarrow> follows absb ok s0 (fst (snd w)) (fst w)"

text \<open>An invariant of the callbacks is one of a whole connection.\<close>

lemma call_result:
  assumes "nd_call C F begin_call answer w = Some (a, w')"
  shows "(\<exists>nd. begin_call (fst w) = Some (Inl a, nd)) \<or> (\<exists>tk. answer tk (fst w') = Some a)"
proof -
  from assms obtain r nd1 where r: "begin_call (fst w) = Some (r, nd1)"
    and rest: "(case r of Inl a \<Rightarrow> Some (a, (nd1, snd w)) | Inr tk \<Rightarrow> nd_await C F (answer tk) (nd1, snd w)) = Some (a, w')"
    by (auto simp: nd_call_def bind_eq_Some_conv)
  show ?thesis
    using rest r by (cases r; cases w) (auto simp: nd_await_def bind_eq_Some_conv split: list.splits)
qed

definition is_error :: "byte list \<Rightarrow> bool" where
  "is_error reply \<longleftrightarrow> (\<exists>msg. reply = makeError msg)"

lemma is_error_makeError [simp]: "is_error (makeError msg)"
  by (auto simp: is_error_def)

lemma oc_dispatch_reply:
  assumes "oc_dispatch oc w frame = Some (reply, w')" "hd frame \<in> {OP_NEW, OP_CXL, OP_MOD}"
  shows "is_error reply \<or> (\<exists>cmd. oc_reply oc (hd frame) w cmd = Some (reply, w'))"
proof -
  have "OP_NEW \<noteq> OP_CXL" "OP_NEW \<noteq> OP_MOD" "OP_CXL \<noteq> OP_MOD" by (simp_all add: OP_NEW_def OP_CXL_def OP_MOD_def)
  with assms show ?thesis
    by (auto simp: oc_dispatch_def oc_handleNew_def oc_handleCxl_def oc_handleMod_def Let_def split: if_splits option.splits)
qed

definition keeps :: "('s \<Rightarrow> bool) \<Rightarrow> ('s \<Rightarrow> 'a \<Rightarrow> ('r \<times> 's) option) \<Rightarrow> bool" where
  "keeps I f \<longleftrightarrow> (\<forall>w x r w'. f w x = Some (r, w') \<longrightarrow> I w \<longrightarrow> I w')"

lemma keepsD: "keeps I f \<Longrightarrow> f w x = Some (r, w') \<Longrightarrow> I w \<Longrightarrow> I w'"
  by (auto simp: keeps_def)

lemma keepsI: "(\<And>w x r w'. f w x = Some (r, w') \<Longrightarrow> I w \<Longrightarrow> I w') \<Longrightarrow> keeps I f"
  by (auto simp: keeps_def)

definition keeps_callbacks :: "('s \<Rightarrow> bool) \<Rightarrow> 's OrderClientServer \<Rightarrow> bool" where
  "keeps_callbacks I oc \<longleftrightarrow> pred_option (keeps I) (oc_submitCb oc) \<and> pred_option (keeps I) (oc_readCb oc)"

lemma oc_dispatch_keeps:
  assumes "keeps_callbacks I oc" "oc_dispatch oc w frame = Some (r, w')" "I w"
  shows "I w'"
  using dispatch_served [OF assms(2)] assms(1,3)
  by (cases rule: served.cases) (auto simp: keeps_callbacks_def dest: keepsD)

lemma oc_handleClient_keeps:
  assumes oc: "keeps_callbacks I oc" and run: "oc_handleClient oc writable k stream w = Some (out, w')" "I w"
  shows "I w'"
  by (rule handleClient_keeps [where P = I, OF _ run], erule (1) oc_dispatch_keeps [OF oc])

lemma lineLoop_keeps:
  assumes f: "keeps I f"
  shows "lineLoop (Some f) buf w = Some (out, rest, w') \<Longrightarrow> I w \<Longrightarrow> I w'"
proof (induction "length buf" arbitrary: buf w out rule: less_induct)
  case less
  show ?case
  proof (cases "10 \<in> set buf")
    case False
    with less.prems show ?thesis by (simp add: lineLoop.simps [of _ buf])
  next
    case True
    let ?line = "takeWhile (\<lambda>b. b \<noteq> 10) buf"
    from True less.prems(1) obtain r w1 out1 where w1: "handleLine (Some f) ?line w = Some (r, w1)"
      and rest: "lineLoop (Some f) (drop (length ?line + 1) buf) w1 = Some (out1, rest, w')"
      by (auto simp: lineLoop.simps [of _ buf] Let_def bind_eq_Some_conv)
    have "I w1"
      using w1 less.prems(2) by (auto simp: handleLine_def Let_def bind_eq_Some_conv split: if_splits option.splits dest: keepsD [OF f])
    moreover have "length (drop (length ?line + 1) buf) < length buf" using True by (auto dest: length_pos_if_in_set)
    ultimately show ?thesis using less.hyps rest by blast
  qed
qed

lemma text_handleClient_keeps:
  assumes f: "keeps I f"
  shows "handleClient (Some f) chunks buf w = Some (out, rest, w') \<Longrightarrow> I w \<Longrightarrow> I w'"
proof (induction chunks arbitrary: buf w out)
  case (Cons chunk chunks)
  then obtain out1 buf1 w1 out2 where "lineLoop (Some f) (buf @ chunk) w = Some (out1, buf1, w1)"
    "handleClient (Some f) chunks buf1 w1 = Some (out2, rest, w')" by (auto simp: bind_eq_Some_conv)
  with Cons.IH Cons.prems(2) lineLoop_keeps [OF f] show ?case by blast
qed simp

lemma acceptLoop_keeps:
  assumes f: "keeps I f"
  shows "acceptLoop running (Some f) clients w = Some (outs, w') \<Longrightarrow> I w \<Longrightarrow> I w'"
proof (induction clients arbitrary: w outs)
  case (Cons client clients)
  show ?case
  proof (cases "running w \<and> client \<noteq> None")
    case True
    with Cons.prems(1) obtain chunks out rest w1 outs1 where
      "handleClient (Some f) chunks [] w = Some (out, rest, w1)" "acceptLoop running (Some f) clients w1 = Some (outs1, w')"
      by (auto simp: bind_eq_Some_conv)
    with Cons.IH text_handleClient_keeps [OF f] Cons.prems(2) show ?thesis by blast
  next
    case False
    with Cons show ?thesis by (auto split: if_splits)
  qed
qed simp

lemma oc_acceptLoop_keeps:
  assumes oc: "keeps_callbacks I oc"
  shows "oc_acceptLoop running oc clients w = Some (outs, w') \<Longrightarrow> I w \<Longrightarrow> I w'"
proof (induction clients arbitrary: w outs)
  case (Cons client clients)
  show ?case
  proof (cases "running w \<and> client \<noteq> None")
    case True
    with Cons.prems(1) obtain stream writable out w1 outs1 where
      "oc_handleClient oc writable 0 stream w = Some (out, w1)" "oc_acceptLoop running oc clients w1 = Some (outs1, w')"
      by (auto simp: bind_eq_Some_conv)
    with Cons.IH oc_handleClient_keeps [OF oc] Cons.prems(2) show ?thesis by blast
  next
    case False
    with Cons show ?thesis by (cases client) (auto split: if_splits)
  qed
qed simp

context order_book
begin

lemma apply_entries_follow:
  assumes "inv (lsm_book (sv_fsm sv))"
  shows "\<exists>sv'. sv_applyCommittedEntries (lob_machine ops) es sv = Some sv' \<and> inv (lsm_book (sv_fsm sv')) \<and>
    lsm_abs absb (sv_fsm sv') = snd (spec_run (lsm_abs absb (sv_fsm sv)) (map ent_data es)) \<and>
    snd ` set (sv_results sv') \<subseteq> snd ` set (sv_results sv) \<union> set (fst (spec_run (lsm_abs absb (sv_fsm sv)) (map ent_data es)))"
  using assms
proof (induction es arbitrary: sv)
  case Nil
  then show ?case by (simp add: sv_applyCommittedEntries_def)
next
  case (Cons e es)
  let ?r = "spec_apply (lsm_abs absb (sv_fsm sv)) (ent_data e)"
  obtain sv1 where sv1: "sv_applyEntry (lob_machine ops) e sv = Some sv1" "lsm_abs absb (sv_fsm sv1) = snd ?r"
    "inv (lsm_book (sv_fsm sv1))" "sv_results sv1 = sv_results sv @ answers (sv_pending sv) [e] [fst ?r]"
    using apply_entry [OF Cons.prems, of e] by auto
  let ?rs = "spec_run (snd ?r) (map ent_data es)"
  have r: "snd ` set (sv_results sv1) \<subseteq> insert (fst ?r) (snd ` set (sv_results sv))"
    unfolding sv1(4) by (auto split: option.splits)
  obtain sv' where sv': "sv_applyCommittedEntries (lob_machine ops) es sv1 = Some sv'" "inv (lsm_book (sv_fsm sv'))"
    "lsm_abs absb (sv_fsm sv') = snd ?rs" "snd ` set (sv_results sv') \<subseteq> snd ` set (sv_results sv1) \<union> set (fst ?rs)"
    using Cons.IH [OF sv1(3)] unfolding sv1(2) by blast
  have run: "spec_run (lsm_abs absb (sv_fsm sv)) (map ent_data (e # es)) = (fst ?r # fst ?rs, snd ?rs)"
    by (simp add: case_prod_unfold Let_def)
  have all: "sv_applyCommittedEntries (lob_machine ops) (e # es) sv = Some sv'"
    using sv1(1) sv'(1) by (simp add: sv_applyCommittedEntries_def)
  show ?case unfolding all run using sv'(2-4) r by (intro exI [of _ sv'] conjI refl) auto
qed

lemma turn_follows:
  assumes "nd_turn (lob_machine ops) nd = Some (ms, nd')" "follows absb inv s0 hist nd"
  shows "follows absb inv s0 (hist @ applied_by Raft_turn nd) nd'"
proof (cases "\<exists>rd. sv_phase (nd_server nd) = Applying rd")
  case True
  then obtain rd where rd: "sv_phase (nd_server nd) = Applying rd" by blast
  have "inv (lsm_book (sv_fsm (nd_server nd)))" using assms(2) by (simp add: follows_def Let_def)
  from apply_entries_follow [OF this, of "rd_committedEntries rd"] obtain v where
    v: "sv_applyCommittedEntries (lob_machine ops) (rd_committedEntries rd) (nd_server nd) = Some v" "inv (lsm_book (sv_fsm v))"
    "lsm_abs absb (sv_fsm v) = snd (spec_run (lsm_abs absb (sv_fsm (nd_server nd))) (map ent_data (rd_committedEntries rd)))"
    "snd ` set (sv_results v) \<subseteq> snd ` set (sv_results (nd_server nd)) \<union>
       set (fst (spec_run (lsm_abs absb (sv_fsm (nd_server nd))) (map ent_data (rd_committedEntries rd))))"
    by blast
  have "no_snapshot (nd_server nd)" using assms(2) by (simp add: follows_def Let_def)
  from turn_cases [OF assms(1) this] rd v(1) have
    "no_snapshot (nd_server nd')" "sv_fsm (nd_server nd') = sv_fsm v" "sv_results (nd_server nd') = sv_results v" by auto
  with v(2-4) assms(2) rd show ?thesis
    by (auto simp: follows_def Let_def applied_by_def spec_run_append)
next
  case False
  then have "applied_by Raft_turn nd = []" by (auto simp: applied_by_def split: Phase.splits)
  moreover have snap: "no_snapshot (nd_server nd)" using assms(2) by (simp add: follows_def Let_def)
  have "no_snapshot (nd_server nd') \<and> sv_fsm (nd_server nd') = sv_fsm (nd_server nd) \<and>
    sv_results (nd_server nd') = sv_results (nd_server nd)"
    using turn_cases [OF assms(1) snap] False by (cases "sv_phase (nd_server nd)") simp_all
  ultimately show ?thesis using assms(2) by (simp add: follows_def Let_def)
qed

lemma step_follows:
  assumes "nd_step C (lob_machine ops) ev nd = Some nd'" "follows absb inv s0 hist nd"
  shows "follows absb inv s0 (hist @ applied_by ev nd) nd'"
proof (cases "ev = Raft_turn")
  case True
  with assms(1) obtain ms where "nd_turn (lob_machine ops) nd = Some (ms, nd')" by (auto simp: nd_step_def)
  from turn_follows [OF this assms(2)] True show ?thesis by simp
next
  case False
  then have "applied_by ev nd = []" by (cases ev) (simp_all add: applied_by_def)
  with follows_same [OF event_same [OF False assms(1)] assms(2)] show ?thesis by simp
qed

lemma run_follows:
  "nd_run C (lob_machine ops) evs nd = Some (ds, nd') \<Longrightarrow> follows absb inv s0 hist nd \<Longrightarrow> follows absb inv s0 (hist @ ds) nd'"
proof (induction evs arbitrary: nd ds hist)
  case (Cons ev evs)
  then obtain nd1 ds1 where nd1: "nd_step C (lob_machine ops) ev nd = Some nd1"
    and "nd_run C (lob_machine ops) evs nd1 = Some (ds1, nd')" "ds = applied_by ev nd @ ds1"
    by (auto simp: bind_eq_Some_conv)
  with Cons.IH [OF _ step_follows [OF nd1 Cons.prems(2)]] show ?case by simp
qed simp

text \<open>Applying is never what stops the thread.\<close>

lemma apply_turn_total:
  assumes "follows absb inv s0 hist nd" "sv_phase (nd_server nd) = Applying rd"
  shows "nd_turn (lob_machine ops) nd \<noteq> None"
proof -
  have "inv (lsm_book (sv_fsm (nd_server nd)))" using assms(1) by (simp add: follows_def Let_def)
  from apply_entries_follow [OF this, of "rd_committedEntries rd"] assms(2) show ?thesis
    by (auto simp: nd_turn_def sv_thread_step_def split: bool.splits)
qed

lemma await_follows:
  assumes "nd_await C (lob_machine ops) answer w = Some (a, w')" "world_follows absb inv s0 w"
  shows "world_follows absb inv s0 w'"
proof -
  obtain nd hist waits where w: "w = (nd, hist, waits)" by (rule prod_cases3)
  with assms(1) obtain evs rest ds nd' where "nd_run C (lob_machine ops) evs nd = Some (ds, nd')" "w' = (nd', hist @ ds, rest)"
    by (auto simp: nd_await_def bind_eq_Some_conv split: list.splits)
  with run_follows assms(2) w show ?thesis by (simp add: world_follows_def)
qed

lemma call_follows:
  assumes call: "nd_call C (lob_machine ops) begin_call answer w = Some (a, w')"
    and same: "\<And>nd r nd'. begin_call nd = Some (r, nd') \<Longrightarrow> same_fsm (nd_server nd) (nd_server nd')"
    and w: "world_follows absb inv s0 w"
  shows "world_follows absb inv s0 w'"
proof -
  from call obtain r nd1 where r: "begin_call (fst w) = Some (r, nd1)"
    and rest: "(case r of Inl a \<Rightarrow> Some (a, (nd1, snd w)) | Inr tk \<Rightarrow> nd_await C (lob_machine ops) (answer tk) (nd1, snd w)) = Some (a, w')"
    by (auto simp: nd_call_def bind_eq_Some_conv)
  have nd1: "world_follows absb inv s0 (nd1, snd w)"
    using follows_same [OF same [OF r]] w by (simp add: world_follows_def)
  show ?thesis
  proof (cases r)
    case (Inl b)
    with rest nd1 show ?thesis by simp
  next
    case (Inr tk)
    with rest have "nd_await C (lob_machine ops) (answer tk) (nd1, snd w) = Some (a, w')" by simp
    from await_follows [OF this nd1] show ?thesis .
  qed
qed

lemma readBook_follows:
  assumes "nd_readBook C (lob_machine ops) w n = Some (r, w')" "world_follows absb inv s0 w"
  shows "world_follows absb inv s0 w'"
proof -
  let ?read = "\<lambda>b. nd_call C (lob_machine ops) (\<lambda>nd. nd_read (lob_machine ops) b nd n) nd_readAnswer"
  from assms(1) obtain b w1 where b: "?read True w = Some (b, w1)" by (auto simp: nd_readBook_def bind_eq_Some_conv simp del: split_paired_Ex)
  with assms(1) obtain a where a: "?read False w1 = Some (a, w')" by (auto simp: nd_readBook_def bind_eq_Some_conv)
  show ?thesis
    by (rule call_follows [OF a], erule nd_read_same, rule call_follows [OF b], erule nd_read_same, rule assms(2))
qed

lemma submitRaw_result:
  fixes w w' :: "('b LOBStateMachine, 'c) world"
  assumes "nd_submitRaw C (lob_machine ops) w cmd = Some (r, w')" "world_follows absb inv s0 w"
  shows "r = [] \<or> r \<in> set (fst (spec_run s0 (fst (snd w'))))"
proof -
  have refused: "r = []" if "nd_orderSubmit nd cmd = Some (Inl r, nd1)" for nd nd1 :: "('b LOBStateMachine, 'c) RunningNode"
    using that by (auto simp: nd_orderSubmit_def bind_eq_Some_conv split: option.splits)
  have answered: "r = [] \<or> r \<in> snd ` set (sv_results (nd_server nd))" if "nd_orderAnswer tk nd = Some r"
    for tk and nd :: "('b LOBStateMachine, 'c) RunningNode"
    using that by (force simp: nd_orderAnswer_def split: option.splits if_splits dest!: map_of_SomeD)
  have "r = [] \<or> r \<in> snd ` set (sv_results (nd_server (fst w')))"
    using call_result [OF assms(1) [unfolded nd_submitRaw_def]] refused answered by blast
  moreover have "follows absb inv s0 (fst (snd w')) (fst w')"
    using call_follows [OF assms(1) [unfolded nd_submitRaw_def] orderSubmit_same assms(2)] by (simp add: world_follows_def)
  ultimately show ?thesis by (auto simp: follows_def Let_def)
qed

lemma submitRaw_follows:
  assumes "nd_submitRaw C (lob_machine ops) w cmd = Some (r, w')" "world_follows absb inv s0 w"
  shows "world_follows absb inv s0 w'"
  by (rule call_follows [OF assms(1) [unfolded nd_submitRaw_def]], erule orderSubmit_same, rule assms(2))

lemma onClientRequest_follows:
  assumes "nd_onClientRequest C (lob_machine ops) w req = Some (r, w')" "world_follows absb inv s0 w"
  shows "world_follows absb inv s0 w'"
  by (rule call_follows [OF assms(1) [unfolded nd_onClientRequest_def]], erule textRequest_same, rule assms(2))

lemma callbacks_follow: "keeps_callbacks (world_follows absb inv s0) (nd_orderServer C (lob_machine ops))"
proof -
  have "keeps (world_follows absb inv s0) (nd_submitRaw C (lob_machine ops))"
    by (rule keepsI) (rule submitRaw_follows)
  moreover have "keeps (world_follows absb inv s0) (nd_readBook C (lob_machine ops))"
    by (rule keepsI) (rule readBook_follows)
  ultimately show ?thesis by (simp add: keeps_callbacks_def nd_orderServer_def)
qed

lemmas dispatch_follows = oc_dispatch_keeps [OF callbacks_follow]
lemmas order_port_follows = oc_acceptLoop_keeps [OF callbacks_follow]

lemma order_reply:
  assumes "oc_dispatch (nd_orderServer C (lob_machine ops)) w frame = Some (reply, w')" "world_follows absb inv s0 w"
    and "hd frame \<in> {OP_NEW, OP_CXL, OP_MOD}"
  shows "is_error reply \<or> reply = [hd frame, 0] \<or> (\<exists>r\<in>set (fst (spec_run s0 (fst (snd w')))). reply = [hd frame, 1] @ r)"
proof (cases "is_error reply")
  case False
  with oc_dispatch_reply [OF assms(1,3)] obtain r cmd where
    r: "nd_submitRaw C (lob_machine ops) w cmd = Some (r, w')" "reply = [hd frame, if r = [] then 0 else 1] @ r"
    by (auto simp: oc_reply_def nd_orderServer_def bind_eq_Some_conv)
  with submitRaw_result [OF r(1) assms(2)] show ?thesis by auto
qed simp

lemma text_port_follows:
  assumes "acceptLoop running (Some (nd_onClientRequest C (lob_machine ops))) clients w = Some (outs, w')"
    "world_follows absb inv s0 w"
  shows "world_follows absb inv s0 w'"
  by (rule acceptLoop_keeps [where I = "world_follows absb inv s0", OF _ assms], rule keepsI, rule onClientRequest_follows)

lemma boot_follows:
  assumes "nd_boot (lob_machine ops) cfg mode hasReader hasOrderServer (lsm_init b) codec files snaps entropy = Some nd"
    and "sf_load snaps = None" "inv b"
  shows "follows absb inv (absb b, 1) [] nd"
  using assms
  by (auto simp: nd_boot_def nd_start_def sv_new_def sv_start_def Let_def bind_eq_Some_conv follows_def no_snapshot_def
      lsm_abs_def lsm_init_def split: if_splits)

end

section \<open>Without messages nothing is applied\<close>

text \<open>Everything is applied that is known to be committed, and no batch is under way that says otherwise.\<close>

definition caught_up :: "RawNode \<Rightarrow> bool" where
  "caught_up n \<longleftrightarrow> rl_committed (rn_log n) \<le> rl_applied (rn_log n) \<and> rn_lastReadyApplied n = 0"

definition same_commit :: "RawNode \<Rightarrow> RawNode \<Rightarrow> bool" where
  "same_commit n n' \<longleftrightarrow> rl_committed (rn_log n') = rl_committed (rn_log n) \<and> rl_applied (rn_log n') = rl_applied (rn_log n) \<and>
     rn_lastReadyApplied n' = rn_lastReadyApplied n"

lemma same_commit_refl [simp]: "same_commit n n"
  by (simp add: same_commit_def)

lemma same_commit_trans [trans]: "same_commit a b \<Longrightarrow> same_commit b c \<Longrightarrow> same_commit a c"
  by (simp add: same_commit_def)

lemma same_commit_caught_up: "same_commit n n' \<Longrightarrow> caught_up n \<Longrightarrow> caught_up n'"
  by (simp add: same_commit_def caught_up_def)

lemma same_commit_for_each:
  assumes "\<And>x n n'. f x n = Some n' \<Longrightarrow> same_commit n n'"
  shows "for_each f xs n = Some n' \<Longrightarrow> same_commit n n'"
  by (induction xs arbitrary: n) (auto simp: bind_eq_Some_conv intro: same_commit_trans dest: assms)

lemma same_commit_fold:
  assumes "\<And>x n. same_commit n (f x n)"
  shows "same_commit n (fold f xs n)"
  by (induction xs arbitrary: n) (auto intro: same_commit_trans assms)

lemma same_commit_append: "rl_committed (snd (rl_append S rl es)) = rl_committed rl" "rl_applied (snd (rl_append S rl es)) = rl_applied rl"
  by (simp_all add: rl_append_def Let_def)

lemma same_commit_put: "same_commit n (pr_put k p n)"
  by (simp add: same_commit_def pr_put_def)

lemma same_commit_send: "same_commit n n' \<Longrightarrow> same_commit n (rn_send n' m)"
  by (simp add: same_commit_def rn_send_def)

lemma same_commit_sendSnapshot: "same_commit n (rn_sendSnapshot S n k)"
  by (simp add: rn_sendSnapshot_def Let_def same_commit_send same_commit_put split: option.split)

lemma same_commit_sendAppend: "rn_sendAppend S n k = Some n' \<Longrightarrow> same_commit n n'"
  unfolding rn_sendAppend_def Let_def
  by (auto simp: same_commit_sendSnapshot intro!: same_commit_send same_commit_put
      split: option.splits if_split_asm Option.bind_splits)

lemma same_commit_broadcastAppend: "rn_broadcastAppend S n = Some n' \<Longrightarrow> same_commit n n'"
  unfolding rn_broadcastAppend_def
  by (erule same_commit_for_each [rotated]) (auto split: if_splits dest: same_commit_sendAppend)

lemma same_commit_becomeLeader:
  assumes "rn_becomeLeader S n = Some n'"
  shows "same_commit n n'"
proof -
  define n1 where "n1 = n\<lparr>rn_role := Leader, rn_lead := rn_id n, rn_tickCount := 0, rn_pr := []\<rparr>"
  define n2 where "n2 = fold (\<lambda>k m. pr_put k (pr_reset (pr_new (rn_maxInflightMsgs m) (k \<in> set (rn_learners m)))
    (rl_lastIndex S (rn_log n1))) m) (rn_voters n1) n1"
  have n2: "same_commit n n2"
    using same_commit_fold [of "\<lambda>k m. pr_put k (pr_reset (pr_new (rn_maxInflightMsgs m) (k \<in> set (rn_learners m)))
      (rl_lastIndex S (rn_log n1))) m" n1 "rn_voters n1"] same_commit_put
    unfolding n2_def [symmetric] by (simp add: n1_def same_commit_def)
  have "same_commit n2 n'"
    using assms unfolding rn_becomeLeader_def Let_def n1_def [symmetric] n2_def [symmetric]
    by (auto dest!: same_commit_broadcastAppend simp: same_commit_def pr_put_def same_commit_append split: if_splits)
  with n2 show ?thesis by (rule same_commit_trans)
qed

lemma same_commit_campaign: "rn_campaign S n = Some n' \<Longrightarrow> same_commit n n'"
proof -
  assume *: "rn_campaign S n = Some n'"
  have "same_commit n (rn_becomeCandidate n)"
    by (simp add: rn_becomeCandidate_def rn_randomize_def same_commit_def Let_def)
  also have "same_commit (rn_becomeCandidate n) n'"
    using * unfolding rn_campaign_def Let_def
    by (auto split: if_splits dest: same_commit_becomeLeader elim!: same_commit_for_each [rotated])
      (auto simp: same_commit_def rn_send_def bind_eq_Some_conv split: if_splits)
  finally show ?thesis .
qed

lemma same_commit_tick: "rn_tick S n = Some (b, n') \<Longrightarrow> same_commit n n'"
proof -
  assume *: "rn_tick S n = Some (b, n')"
  have beat: "same_commit m (rn_broadcastHeartbeat m)" for m
    unfolding rn_broadcastHeartbeat_def by (rule same_commit_fold) (simp add: same_commit_def rn_sendHeartbeat_def rn_send_def)
  show ?thesis
    using * by (auto simp: rn_tick_def rn_tickElection_def Let_def bind_eq_Some_conv split: if_splits
        dest!: same_commit_campaign simp: same_commit_def beat [unfolded same_commit_def])
qed

lemma same_commit_propose: "rn_propose S n d = Some (b, n') \<Longrightarrow> same_commit n n'"
  by (auto simp: rn_propose_def Let_def bind_eq_Some_conv pr_put_def same_commit_append same_commit_def split: if_splits
      dest!: same_commit_broadcastAppend)

lemma same_commit_readIndex: "same_commit n (snd (rn_readIndex n ctx))"
proof -
  have "same_commit m (rn_readHeartbeats m ctx)" for m
    unfolding rn_readHeartbeats_def by (rule same_commit_fold) (simp add: same_commit_def rn_send_def)
  then show ?thesis by (simp add: rn_readIndex_def Let_def same_commit_def)
qed

lemma poll_caught_up: "caught_up n \<Longrightarrow> rd_committedEntries (fst (rn_poll S n)) = [] \<and> caught_up (snd (rn_poll S n))"
  by (simp add: rn_poll_def caught_up_def rl_nextCommittedEntries_def Let_def)

lemma advance_caught_up: "rn_advance S n = Some n' \<Longrightarrow> caught_up n \<Longrightarrow> caught_up n'"
  by (auto simp: rn_advance_def caught_up_def rl_stableTo_def split: Option.bind_splits if_split_asm)

text \<open>A server that has received nothing, and has answered no command.\<close>

definition unheard :: "'f Server \<Rightarrow> bool" where
  "unheard sv \<longleftrightarrow> caught_up (sv_node sv) \<and> sv_inbox sv = [] \<and> sv_results sv = [] \<and>
     (\<forall>rd. phase_ready (sv_phase sv) = Some rd \<longrightarrow> rd_committedEntries rd = [])"

lemma submitRaw_unheard: "sv_submitRaw sv cmd = Some (r, sv') \<Longrightarrow> unheard sv \<Longrightarrow> unheard sv'"
  by (auto simp: sv_submitRaw_def bind_eq_Some_conv Let_def unheard_def split: if_splits
      dest: same_commit_caught_up [OF same_commit_propose])

lemma onClientRequest_unheard: "sv_onClientRequest sv cmd = Some (r, sv') \<Longrightarrow> unheard sv \<Longrightarrow> unheard sv'"
  by (auto simp: sv_onClientRequest_def bind_eq_Some_conv Let_def split: if_splits dest: submitRaw_unheard)

lemma read_unheard: "sv_read F b sv n = Some (r, sv') \<Longrightarrow> unheard sv \<Longrightarrow> unheard sv'"
  by (auto simp: sv_read_def bind_eq_Some_conv Let_def case_prod_unfold unheard_def split: if_splits
      intro: same_commit_caught_up [OF same_commit_readIndex])

lemma calls_unheard:
  "nd_textRequest C nd req = Some (r, nd') \<Longrightarrow> unheard (nd_server nd) \<Longrightarrow> unheard (nd_server nd')"
  "nd_orderSubmit nd cmd = Some (x, nd') \<Longrightarrow> unheard (nd_server nd) \<Longrightarrow> unheard (nd_server nd')"
  "nd_read F b nd n = Some (y, nd') \<Longrightarrow> unheard (nd_server nd) \<Longrightarrow> unheard (nd_server nd')"
  by (auto simp: nd_textRequest_def nd_orderSubmit_def nd_read_def sv_readBids_def sv_readAsks_def bind_eq_Some_conv
      split: if_splits dest: onClientRequest_unheard submitRaw_unheard read_unheard)

lemma reads_unheard: "sv_handleReadStates F rs sv = Some sv' \<Longrightarrow> unheard sv \<Longrightarrow> unheard (sv'\<lparr>sv_phase := Advancing\<rparr>)"
  unfolding sv_handleReadStates_def
proof (induction rs arbitrary: sv)
  case (Cons r rs)
  then obtain v where v: "sv_handleReadState F r sv = Some v" "for_each (sv_handleReadState F) rs v = Some sv'"
    by (auto simp: bind_eq_Some_conv)
  from v(1) Cons.prems(2) have "unheard v"
    by (auto simp: sv_handleReadState_def unheard_def bind_eq_Some_conv split: option.splits if_splits)
  with Cons.IH v(2) show ?case by blast
qed (simp add: unheard_def)

lemma thread_step_unheard:
  assumes step: "sv_thread_step F sv = Some (ms, sv')" and sv: "unheard sv"
  shows "unheard sv'"
proof (cases "sv_phase sv")
  case Ticking
  with step sv show ?thesis
    by (auto simp: sv_thread_step_def unheard_def bind_eq_Some_conv dest: same_commit_caught_up [OF same_commit_tick])
next
  case Polling
  with step sv poll_caught_up show ?thesis
    by (auto simp: sv_thread_step_def unheard_def Let_def case_prod_unfold)
next
  case (InstallingSnapshot rd)
  with step sv show ?thesis
    by (auto simp: sv_thread_step_def unheard_def bind_eq_Some_conv split: option.splits)
next
  case (Applying rd)
  with step sv show ?thesis
    by (auto simp: sv_thread_step_def sv_applyCommittedEntries_def unheard_def)
next
  case (Reading rd)
  with step reads_unheard [OF _ sv] show ?thesis by (auto simp: sv_thread_step_def bind_eq_Some_conv)
next
  case Advancing
  with step sv show ?thesis
    by (auto simp: sv_thread_step_def unheard_def bind_eq_Some_conv dest: advance_caught_up)
qed (use step sv in \<open>auto simp: sv_thread_step_def unheard_def Let_def\<close>)

lemma step_unheard:
  assumes step: "nd_step C F ev nd = Some nd'" and ev: "\<forall>m. ev \<noteq> Raft_message m" and nd: "unheard (nd_server nd)"
  shows "unheard (nd_server nd') \<and> applied_by ev nd = []"
proof
  show "applied_by ev nd = []"
    using nd by (cases ev; cases "sv_phase (nd_server nd)") (auto simp: applied_by_def unheard_def)
  show "unheard (nd_server nd')"
  proof (cases ev)
    case Raft_turn
    with step obtain ms where "nd_turn F nd = Some (ms, nd')" by (auto simp: nd_step_def)
    with nd show ?thesis
      by (auto simp: nd_turn_def bind_eq_Some_conv split: bool.splits Phase.splits dest: thread_step_unheard)
        (simp add: unheard_def)
  qed (use step ev nd in \<open>auto simp: nd_step_def nd_stop_def nd_join_def split: if_splits option.splits dest: calls_unheard\<close>)
qed

lemma run_unheard:
  "nd_run C F evs nd = Some (ds, nd') \<Longrightarrow> \<forall>m. Raft_message m \<notin> set evs \<Longrightarrow> unheard (nd_server nd) \<Longrightarrow>
     ds = [] \<and> unheard (nd_server nd')"
proof (induction evs arbitrary: nd ds)
  case (Cons ev evs)
  then obtain nd1 ds1 where nd1: "nd_step C F ev nd = Some nd1"
    and rest: "nd_run C F evs nd1 = Some (ds1, nd')" "ds = applied_by ev nd @ ds1"
    by (auto simp: bind_eq_Some_conv)
  from step_unheard [OF nd1 _ Cons.prems(3)] Cons.prems(2) have "unheard (nd_server nd1)" "applied_by ev nd = []" by auto
  with Cons.IH [OF rest(1)] Cons.prems(2) rest(2) show ?case by simp
qed simp

lemma new_caught_up: "caught_up (rn_new c S entropy)"
  by (simp add: rn_new_def rl_init_def rn_randomize_def caught_up_def Let_def case_prod_unfold)

lemma boot_unheard:
  assumes "nd_boot F cfg mode hasReader hasOrderServer f codec files snaps entropy = Some nd"
  shows "unheard (nd_server nd)"
proof -
  from assms obtain sv sv' where sv: "sv_new cfg mode hasReader f files snaps entropy = Some sv" "sv_start F sv = Some sv'"
    and nd: "nd_server nd = sv'"
    by (auto simp: nd_boot_def nd_start_def bind_eq_Some_conv)
  from sv(1) have "unheard sv" by (auto simp: sv_new_def Let_def unheard_def new_caught_up split: if_splits)
  with sv(2) show ?thesis unfolding nd by (auto simp: sv_start_def unheard_def bind_eq_Some_conv split: option.splits)
qed

section \<open>Stopping\<close>

text \<open>The steps the thread has left in its turn.\<close>

fun steps_left :: "Phase \<Rightarrow> nat" where
  "steps_left Ticking = 0"
| "steps_left Draining = 9"
| "steps_left Polling = 8"
| "steps_left (AppendingLog _) = 7"
| "steps_left (SavingHardState _) = 6"
| "steps_left (InstallingSnapshot _) = 5"
| "steps_left (Sending _) = 4"
| "steps_left (Applying _) = 3"
| "steps_left (Reading _) = 2"
| "steps_left Advancing = 1"

lemma steps_left_bound: "steps_left ph \<le> 9"
  by (cases ph) simp_all

lemma steps_left_zero: "steps_left ph = 0 \<longleftrightarrow> ph = Ticking"
  by (cases ph) simp_all

lemma thread_step_left:
  assumes "sv_thread_step F sv = Some (ms, sv')" "sv_phase sv \<noteq> Ticking"
  shows "steps_left (sv_phase sv') = steps_left (sv_phase sv) - 1"
  using assms
  by (cases "sv_phase sv") (auto simp: sv_thread_step_def bind_eq_Some_conv Let_def case_prod_unfold split: option.splits)

lemma stopped_turn:
  assumes "nd_turn F nd = Some (ms, nd')" "\<not> nd_running nd"
  shows "\<not> nd_running nd' \<and> steps_left (sv_phase (nd_server nd')) = steps_left (sv_phase (nd_server nd)) - 1"
proof (cases "sv_phase (nd_server nd)")
  case Ticking
  with assms show ?thesis by (simp add: nd_turn_def)
next
  case (Reading rd)
  with assms show ?thesis by (auto simp: nd_turn_def)
qed (use assms thread_step_left [of F "nd_server nd"] in \<open>auto simp: nd_turn_def bind_eq_Some_conv\<close>)

lemma stopped_event:
  assumes "nd_step C F ev nd = Some nd'" "ev \<noteq> Raft_turn" "\<not> nd_running nd"
  shows "\<not> nd_running nd' \<and> sv_phase (nd_server nd') = sv_phase (nd_server nd)"
proof
  show "sv_phase (nd_server nd') = sv_phase (nd_server nd)"
    using event_same [OF assms(2,1)] by (simp add: same_fsm_def)
  show "\<not> nd_running nd'"
    using assms
    by (cases ev) (auto simp: nd_step_def nd_recv_def nd_stop_def nd_join_def nd_textRequest_def nd_orderSubmit_def nd_read_def
        bind_eq_Some_conv split: if_splits option.splits)
qed

lemma stopped_run:
  "nd_run C F evs nd = Some (ds, nd') \<Longrightarrow> \<not> nd_running nd \<Longrightarrow>
     \<not> nd_running nd' \<and> steps_left (sv_phase (nd_server nd')) \<le> steps_left (sv_phase (nd_server nd)) - count_list evs Raft_turn"
proof (induction evs arbitrary: nd ds)
  case (Cons ev evs)
  then obtain nd1 ds1 where nd1: "nd_step C F ev nd = Some nd1" and rest: "nd_run C F evs nd1 = Some (ds1, nd')"
    by (auto simp: bind_eq_Some_conv)
  show ?case
  proof (cases "ev = Raft_turn")
    case True
    with nd1 obtain ms where "nd_turn F nd = Some (ms, nd1)" by (auto simp: nd_step_def)
    from stopped_turn [OF this Cons.prems(2)] Cons.IH [OF rest] True show ?thesis by simp
  next
    case False
    with stopped_event [OF nd1 False Cons.prems(2)] Cons.IH [OF rest] show ?thesis by simp
  qed
qed simp

end
