(* ===== verification/Runtime_Properties.thy ===== *)
theory Runtime_Properties
  imports Node_Runtime Engine_Properties Raft_Properties
begin

text \<open>
  What holds of a node from the bytes on its ports to the book: in any interleaving of its threads, on either engine.
\<close>

section \<open>The book and the answers of a running node\<close>

lemma map_boot_follows:
  assumes "nd_boot (lob_machine map_book_ops) cfg mode r p (lsm_init (mob_empty n)) codec files snaps entropy = Some nd"
    "sf_load snaps = None"
  shows "follows mob_abs mob_ok (spec_reset n, 1) [] nd"
  using map_book.boot_follows [OF assms mob_ok_empty] lsm_abs_init [of n] by (simp add: lsm_abs_def lsm_init_def)

lemma skip_boot_follows:
  assumes "nd_boot (lob_machine skip_book_ops) cfg mode r p (lsm_init (skb_new n device)) codec files snaps entropy = Some nd"
    "sf_load snaps = None"
  shows "follows skb_abs skb_ok (spec_reset n, 1) [] nd"
  using skip_book.boot_follows [OF assms] skb_new_ok by simp

text \<open>C3. A running node follows its log. Boot a node without a snapshot file and let its Raft thread, the arriving
  messages, the client calls and the stop signal interleave in any order: the book is always the abstract book after the
  commands applied so far, in the order they were applied; every answer a client can receive is one that the abstract
  book gave to one of them; and applying is never the step at which the thread fails.\<close>

theorem node_follows_log:
  assumes "nd_boot (lob_machine map_book_ops) cfg mode r p (lsm_init (mob_empty n)) codec files snaps entropy = Some nd"
    and "sf_load snaps = None" "nd_run C (lob_machine map_book_ops) evs nd = Some (hist, nd')"
  shows "lsm_abs mob_abs (sv_fsm (nd_server nd')) = snd (spec_run (spec_reset n, 1) hist) \<and>
    (\<forall>tk a. nd_orderAnswer tk nd' = Some a \<longrightarrow> nd_running nd' \<longrightarrow> a \<in> set (fst (spec_run (spec_reset n, 1) hist))) \<and>
    (\<forall>rd. sv_phase (nd_server nd') = Applying rd \<longrightarrow> nd_turn (lob_machine map_book_ops) nd' \<noteq> None)"
proof -
  have f: "follows mob_abs mob_ok (spec_reset n, 1) hist nd'"
    using map_book.run_follows [OF assms(3) map_boot_follows [OF assms(1,2)]] by simp
  have "a \<in> set (fst (spec_run (spec_reset n, 1) hist))" if "nd_orderAnswer tk nd' = Some a" "nd_running nd'" for tk a
  proof -
    from that have "map_of (sv_results (nd_server nd')) tk = Some a" by (simp add: nd_orderAnswer_def split: option.splits)
    from map_of_SomeD [OF this] have "a \<in> snd ` set (sv_results (nd_server nd'))" by force
    with f show ?thesis by (auto simp: follows_def Let_def)
  qed
  with f map_book.apply_turn_total [OF f] show ?thesis by (simp add: follows_def Let_def)
qed

lemma nd_run_append:
  "nd_run C F (evs @ evs') nd =
     Option.bind (nd_run C F evs nd) (\<lambda>(ds, nd'). map_option (\<lambda>(ds', nd''). (ds @ ds', nd'')) (nd_run C F evs' nd'))"
proof (induction evs arbitrary: nd)
  case Nil
  show ?case by (cases "nd_run C F evs' nd") auto
next
  case (Cons ev evs)
  show ?case
    by (cases "nd_step C F ev nd") (simp_all add: Cons.IH map_option_case split: Option.bind_split option.split)
qed

definition demo_node :: "'f StateMachine \<Rightarrow> nat list \<Rightarrow> nat \<Rightarrow> 'f \<Rightarrow> ('f, LOBCodec) RunningNode" where
  "demo_node F ids t f =
     the (nd_boot F ((demo_conf ids)\<lparr>ac_selfId := 1, ac_electionTick := t\<rparr>) RM_Direct True True f lobc_new fresh_files fresh_snaps (\<lambda>_. 0))"

definition demo_append :: Message where
  "demo_append = (new_Message MsgApp 1 2 1)\<lparr>msg_commit := 1, msg_entries := [demo_command]\<rparr>"

lemma demo_boots:
  "1 \<in> set ids \<Longrightarrow> nd_boot F ((demo_conf ids)\<lparr>ac_selfId := 1, ac_electionTick := t\<rparr>) RM_Direct True True f lobc_new fresh_files fresh_snaps (\<lambda>_. 0) =
     Some (demo_node F ids t f)"
  unfolding demo_node_def
  by (auto simp: nd_boot_def nd_start_def sv_new_def sv_start_def sf_load_def fresh_snaps_def ac_self_def demo_conf_def demo_peer_def
      find_None_iff Let_def)

lemmas node_run_defs = nd_step_def nd_turn_def nd_recv_def applied_by_def demo_node_def nd_boot_def nd_start_def rt_setPeers_def
  demo_append_def demo_command_def rl_maybeAppend_def lu_append_def lu_truncateAndAppend_def wal_appendNoSync_def
  limit_size_def lu_slice_def run_defs

definition demo_replication :: "node_event list" where
  "demo_replication =
     [Raft_message demo_append, Raft_turn, Raft_turn, Raft_turn, Raft_turn, Raft_turn, Raft_turn, Raft_turn]"

lemma demo_reaches_apply:
  "\<exists>nd rd. nd_run C F demo_replication (demo_node F [1, 2, 3] 3 f) = Some ([], nd) \<and>
     sv_phase (nd_server nd) = Applying rd \<and> rd_committedEntries rd = [demo_command]"
  by (simp add: demo_replication_def node_run_defs del: One_nat_def)

lemma demo_no_snapshot: "sf_load fresh_snaps = None"
  by (simp add: sf_load_def fresh_snaps_def)

text \<open>The next step of the thread applies the entry; on every engine it returns.\<close>

context order_book
begin

lemma demo_applies:
  assumes "inv b"
  shows "\<exists>nd. nd_run C (lob_machine ops) (demo_replication @ [Raft_turn]) (demo_node (lob_machine ops) [1, 2, 3] 3 (lsm_init b)) =
    Some ([ent_data demo_command], nd)"
proof -
  let ?F = "lob_machine ops" and ?nd = "demo_node (lob_machine ops) [1, 2, 3] 3 (lsm_init b)"
  obtain nd rd where nd: "nd_run C ?F demo_replication ?nd = Some ([], nd)" "sv_phase (nd_server nd) = Applying rd"
    "rd_committedEntries rd = [demo_command]" using demo_reaches_apply [of C ?F "lsm_init b"] by blast
  have "follows absb inv (absb b, 1) [] ?nd"
    by (rule boot_follows [OF demo_boots demo_no_snapshot assms]) simp
  from run_follows [OF nd(1) this] have f: "follows absb inv (absb b, 1) [] nd" by simp
  from apply_turn_total [OF f nd(2)] obtain ms nd' where "nd_turn ?F nd = Some (ms, nd')" by auto
  with nd show ?thesis by (simp add: nd_run_append nd_step_def applied_by_def)
qed

end

theorem node_follows_log_witness:
  "\<exists>nd. nd_run lob_codec (lob_machine map_book_ops) (demo_replication @ [Raft_turn])
       (demo_node (lob_machine map_book_ops) [1, 2, 3] 3 (lsm_init (mob_empty (ascii ''LOB'')))) = Some ([encodeNew 7 Buy 100 5], nd) \<and>
     lsm_abs mob_abs (sv_fsm (nd_server nd)) = snd (spec_run (spec_reset (ascii ''LOB''), 1) [encodeNew 7 Buy 100 5])"
proof -
  let ?nd = "demo_node (lob_machine map_book_ops) [1, 2, 3] 3 (lsm_init (mob_empty (ascii ''LOB'')))"
  obtain nd where nd: "nd_run lob_codec (lob_machine map_book_ops) (demo_replication @ [Raft_turn]) ?nd =
      Some ([encodeNew 7 Buy 100 5], nd)"
    using map_book.demo_applies [OF mob_ok_empty [of "ascii ''LOB''"], of lob_codec] by (auto simp: demo_command_def)
  have "1 \<in> set [1::nat, 2, 3]" by simp
  from node_follows_log [OF demo_boots [OF this] demo_no_snapshot nd] nd show ?thesis by blast
qed

text \<open>C4. Replicas agree, whatever engine each runs. Two nodes, one on the map engine and one on the skip list with any
  coins, that were configured and scheduled independently and have applied the same commands show the same depth and
  take the same snapshot, and will number the next order alike.\<close>

theorem replicas_agree:
  assumes "nd_boot (lob_machine map_book_ops) cfg1 mode1 r1 p1 (lsm_init (mob_empty n)) c1 files1 snaps1 entropy1 = Some nd1"
    and "nd_boot (lob_machine skip_book_ops) cfg2 mode2 r2 p2 (lsm_init (skb_new n device)) c2 files2 snaps2 entropy2 = Some nd2"
    and "sf_load snaps1 = None" "sf_load snaps2 = None"
    and "nd_run C1 (lob_machine map_book_ops) evs1 nd1 = Some (hist, nd1')"
    and "nd_run C2 (lob_machine skip_book_ops) evs2 nd2 = Some (hist, nd2')"
  shows "lob_bids map_book_ops (sv_fsm (nd_server nd1')) k = lob_bids skip_book_ops (sv_fsm (nd_server nd2')) k \<and>
    lob_asks map_book_ops (sv_fsm (nd_server nd1')) k = lob_asks skip_book_ops (sv_fsm (nd_server nd2')) k \<and>
    lob_snapshot map_book_ops (sv_fsm (nd_server nd1')) = lob_snapshot skip_book_ops (sv_fsm (nd_server nd2')) \<and>
    lsm_nextSeq (sv_fsm (nd_server nd1')) = lsm_nextSeq (sv_fsm (nd_server nd2'))"
proof -
  let ?st1 = "sv_fsm (nd_server nd1')" and ?st2 = "sv_fsm (nd_server nd2')"
  have "follows mob_abs mob_ok (spec_reset n, 1) hist nd1'" "follows skb_abs skb_ok (spec_reset n, 1) hist nd2'"
    using map_book.run_follows [OF assms(5) map_boot_follows [OF assms(1,3)]]
      skip_book.run_follows [OF assms(6) skip_boot_follows [OF assms(2,4)]] by simp_all
  then have ok: "mob_ok (lsm_book ?st1)" "skb_ok (lsm_book ?st2)" and abs: "lsm_abs mob_abs ?st1 = lsm_abs skb_abs ?st2"
    by (simp_all add: follows_def Let_def)
  from abs have "mob_abs (lsm_book ?st1) = skb_abs (lsm_book ?st2)" "lsm_nextSeq ?st1 = lsm_nextSeq ?st2"
    by (simp_all add: lsm_abs_def)
  then show ?thesis
    using abs map_book.snapshot_refines [OF ok(1)] skip_book.snapshot_refines [OF ok(2)]
    by (simp add: lob_bids_def lob_asks_def map_book.bids_refines [OF ok(1)] skip_book.bids_refines [OF ok(2)]
        map_book.asks_refines [OF ok(1)] skip_book.asks_refines [OF ok(2)])
qed

theorem replicas_agree_witness:
  "\<exists>nd1 nd2. nd_run lob_codec (lob_machine map_book_ops) (demo_replication @ [Raft_turn])
       (demo_node (lob_machine map_book_ops) [1, 2, 3] 3 (lsm_init (mob_empty []))) = Some ([encodeNew 7 Buy 100 5], nd1) \<and>
     nd_run lob_codec (lob_machine skip_book_ops) (demo_replication @ [Raft_turn])
       (demo_node (lob_machine skip_book_ops) [1, 2, 3] 3 (lsm_init (skb_new [] (\<lambda>_ _. False)))) = Some ([encodeNew 7 Buy 100 5], nd2) \<and>
     lob_bids map_book_ops (sv_fsm (nd_server nd1)) 5 = lob_bids skip_book_ops (sv_fsm (nd_server nd2)) 5"
proof -
  have ids: "1 \<in> set [1::nat, 2, 3]" by simp
  obtain nd1 where nd1: "nd_run lob_codec (lob_machine map_book_ops) (demo_replication @ [Raft_turn])
       (demo_node (lob_machine map_book_ops) [1, 2, 3] 3 (lsm_init (mob_empty []))) = Some ([encodeNew 7 Buy 100 5], nd1)"
    using map_book.demo_applies [OF mob_ok_empty [of "[]"], of lob_codec] by (auto simp: demo_command_def)
  obtain nd2 where nd2: "nd_run lob_codec (lob_machine skip_book_ops) (demo_replication @ [Raft_turn])
       (demo_node (lob_machine skip_book_ops) [1, 2, 3] 3 (lsm_init (skb_new [] (\<lambda>_ _. False)))) = Some ([encodeNew 7 Buy 100 5], nd2)"
    using skip_book.demo_applies [of "skb_new [] (\<lambda>_ _. False)" lob_codec] skb_new_ok by (auto simp: demo_command_def)
  from replicas_agree [OF demo_boots [OF ids] demo_boots [OF ids] demo_no_snapshot demo_no_snapshot nd1 nd2, of 5] nd1 nd2
  show ?thesis by blast
qed

section \<open>What a client of the order port receives\<close>


section \<open>A cluster of one\<close>

text \<open>C23. A node that hears from no other node applies nothing and answers no submitted command, whatever its own
  thread and its clients do. That is what a minority must do; but it holds of a cluster of one node as well, which
  elects itself and accepts commands: the commit index only moves when a response arrives.\<close>

theorem lone_node_never_applies:
  assumes "nd_boot F cfg mode r p f codec files snaps entropy = Some nd"
    and "nd_run C F evs nd = Some (hist, nd')" "\<forall>m. Raft_message m \<notin> set evs"
  shows "hist = [] \<and> (nd_running nd' \<longrightarrow> nd_orderAnswer tk nd' = None \<and> nd_textAnswer C tk nd' = None)"
  using run_unheard [OF assms(2,3) boot_unheard [OF assms(1)]]
  by (simp add: unheard_def nd_orderAnswer_def nd_textAnswer_def)

definition lone_events :: "node_event list" where
  "lone_events =
     [Raft_turn, Order_submit [1], Raft_turn, Raft_turn, Raft_turn, Raft_turn, Raft_turn, Raft_turn, Raft_turn, Raft_turn]"

lemma lone_run:
  "\<exists>nd. nd_run lob_codec F lone_events (demo_node F [1] 1 f) = Some ([], nd) \<and> sv_isLeader (nd_server nd) \<and>
     sv_pending (nd_server nd) = [(1, 0)] \<and> nd_running nd \<and> sv_phase (nd_server nd) = Advancing"
  by (simp add: lone_events_def node_run_defs nd_orderSubmit_def sv_submitRaw_def rn_propose_def rl_append_def del: One_nat_def)

theorem lone_node_never_applies_witness:
  "\<exists>nd. nd_run lob_codec (lob_machine map_book_ops) lone_events (demo_node (lob_machine map_book_ops) [1] 1 (lsm_init (mob_empty []))) =
       Some ([], nd) \<and> sv_isLeader (nd_server nd) \<and> sv_pending (nd_server nd) = [(1, 0)] \<and> nd_orderAnswer 0 nd = None"
proof -
  let ?F = "lob_machine map_book_ops"
  obtain nd where nd: "nd_run lob_codec ?F lone_events (demo_node ?F [1] 1 (lsm_init (mob_empty []))) = Some ([], nd)"
    "sv_isLeader (nd_server nd)" "sv_pending (nd_server nd) = [(1, 0)]" "nd_running nd"
    using lone_run [of ?F "lsm_init (mob_empty [])"] by blast
  have "1 \<in> set [1::nat]" "\<forall>m. Raft_message m \<notin> set lone_events" by (simp_all add: lone_events_def)
  from lone_node_never_applies [OF demo_boots [OF this(1)] nd(1) this(2), of 0] nd show ?thesis by (intro exI [of _ nd]) simp
qed





section \<open>Stopping\<close>



end
