(* ===== verification/Memory_Pool.thy ===== *)
theory Memory_Pool
  imports Prelude
begin

text \<open>
  The arena allocator, \<^verbatim>\<open>app/statemachine/MemoryPool.h\<close>. Objects are addresses; \<open>new\<close> returns the address \<open>mp_next\<close>,
  which no object has yet. The engines of the repository do not use the pool.
\<close>

section \<open>Operations\<close>

record MemoryPool =
  mp_freeList :: "nat list"
  mp_next :: nat

definition mp_new :: "nat \<Rightarrow> MemoryPool" where
  "mp_new initialSize = fold (\<lambda>_ p. p\<lparr>mp_freeList := mp_freeList p @ [mp_next p], mp_next := mp_next p + 1\<rparr>) [0..<initialSize]
     \<lparr>mp_freeList = [], mp_next = 0\<rparr>"

definition mp_allocate :: "MemoryPool \<Rightarrow> nat \<times> MemoryPool" where
  "mp_allocate p =
     (if mp_freeList p = [] then (mp_next p, p\<lparr>mp_next := mp_next p + 1\<rparr>)
      else (last (mp_freeList p), p\<lparr>mp_freeList := butlast (mp_freeList p)\<rparr>))"

text \<open>\<open>None\<close>: the null pointer.\<close>

definition mp_deallocate :: "MemoryPool \<Rightarrow> nat option \<Rightarrow> MemoryPool" where
  "mp_deallocate p obj = (case obj of None \<Rightarrow> p | Some a \<Rightarrow> p\<lparr>mp_freeList := mp_freeList p @ [a]\<rparr>)"

definition mp_available :: "MemoryPool \<Rightarrow> nat" where
  "mp_available p = length (mp_freeList p)"

section \<open>A client that returns only what it holds\<close>

text \<open>The objects held and the objects in the pool are all objects ever created, each once: no object is handed out
  twice, and \<open>new\<close> is called again only when every object is held.\<close>

definition pool_ok :: "nat list \<Rightarrow> MemoryPool \<Rightarrow> bool" where
  "pool_ok held p \<longleftrightarrow> distinct (held @ mp_freeList p) \<and> set (held @ mp_freeList p) = {..<mp_next p}"

lemma mp_new_eq: "mp_new n = \<lparr>mp_freeList = [0..<n], mp_next = n\<rparr>"
  by (induction n) (simp_all add: mp_new_def)

lemma new_ok: "pool_ok [] (mp_new n)"
  by (auto simp: pool_ok_def mp_new_eq)

lemma allocate_ok:
  assumes "pool_ok held p" "mp_allocate p = (a, p')"
  shows "pool_ok (a # held) p' \<and> a \<notin> set held"
proof (cases "mp_freeList p = []")
  case True
  then have "a = mp_next p" "mp_freeList p' = []" "mp_next p' = mp_next p + 1" using assms(2) by (auto simp: mp_allocate_def)
  with assms(1) True show ?thesis by (simp add: pool_ok_def lessThan_Suc)
next
  case False
  then obtain as b where as: "mp_freeList p = as @ [b]" by (metis append_butlast_last_id)
  with assms(2) have "a = b" "mp_freeList p' = as" "mp_next p' = mp_next p" by (auto simp: mp_allocate_def)
  with assms(1) as show ?thesis by (simp add: pool_ok_def)
qed

lemma deallocate_ok: "pool_ok held p \<Longrightarrow> a \<in> set held \<Longrightarrow> pool_ok (remove1 a held) (mp_deallocate p (Some a))"
  by (auto simp: pool_ok_def mp_deallocate_def)

lemma pool_conserves:
  assumes "pool_ok held p"
  shows "length held + mp_available p = mp_next p"
  using distinct_card [of "held @ mp_freeList p"] assms by (simp add: pool_ok_def mp_available_def)

lemma no_new_while_available: "mp_available p > 0 \<Longrightarrow> mp_allocate p = (a, p') \<Longrightarrow> mp_next p' = mp_next p"
  by (auto simp: mp_available_def mp_allocate_def)

text \<open>Returning an object twice makes the pool hand it out twice.\<close>

lemma double_free_aliases:
  "\<exists>p p'. mp_allocate (mp_deallocate (mp_deallocate (mp_new 0) (Some a)) (Some a)) = (a, p) \<and> mp_allocate p = (a, p')"
  by (simp add: mp_new_def mp_deallocate_def mp_allocate_def)

end
